(* ===== verification/Prelude.thy ===== *)
theory Prelude
  imports Main "HOL-Library.Word"
begin

unbundle bit_operations_syntax

text \<open>
  Shared vocabulary of the development: the machine types of the RV32 target
  (\<open>u8\<close>, \<open>u32\<close>, \<open>u64\<close>, byte-addressed memory), the outcome of a kernel
  function (\<open>res\<close>: it returns, it panics, or the hart loops forever waiting for
  another agent), sequencing of such functions (\<open>kbind\<close>), and generic lemmas on
  words, pages and address ranges that the component theories use.
\<close>

section \<open>Machine types\<close>

type_synonym u8 = "8 word"
type_synonym u16 = "16 word"
type_synonym u32 = "32 word"
type_synonym u64 = "64 word"

text \<open>Physical memory: every address of the 4 GB space holds one byte.\<close>

type_synonym memory = "u32 \<Rightarrow> u8"

text \<open>
  What a C \<^verbatim>\<open>char *\<close> shows to the code that follows it: the byte at each offset. A
  pointer into memory shows the bytes from its address on; a string literal shows its
  characters and then the terminating NUL.
\<close>

type_synonym cptr = "nat \<Rightarrow> u8"

definition ptr :: "memory \<Rightarrow> u32 \<Rightarrow> cptr" where
  "ptr m p = (\<lambda>i. m (p + of_nat i))"

definition lit :: "string \<Rightarrow> cptr" where
  "lit cs = (\<lambda>i. if i < length cs then of_char (cs ! i) else 0)"

section \<open>Outcomes of kernel functions\<close>

text \<open>
  \<open>Ok r s\<close>: the function returned \<open>r\<close> in state \<open>s\<close>. \<open>Panic msg s\<close>: the hart
  called \<open>panic(msg)\<close>, printed the message and loops with interrupts off.
  \<open>Blocked s\<close>: the hart polls a location that only another agent can change
  (a lock word held by another hart, a device register) and never sees it change, or
  runs a loop whose exit condition never holds. \<open>Undef s\<close>: the C program has no defined
  behaviour (a \<^verbatim>\<open>va_arg\<close> with no argument left).
\<close>

datatype ('a, 's) res = Ok 'a 's | Panic string 's | Blocked 's | Undef 's

fun kbind :: "('a, 's) res \<Rightarrow> ('a \<Rightarrow> 's \<Rightarrow> ('b, 's) res) \<Rightarrow> ('b, 's) res" where
  "kbind (Ok a s) f = f a s"
| "kbind (Panic m s) f = Panic m s"
| "kbind (Blocked s) f = Blocked s"
| "kbind (Undef s) f = Undef s"

fun is_Ok :: "('a, 's) res \<Rightarrow> bool" where
  "is_Ok (Ok _ _) = True"
| "is_Ok _ = False"

fun is_Panic :: "('a, 's) res \<Rightarrow> bool" where
  "is_Panic (Panic _ _) = True"
| "is_Panic _ = False"

text \<open>The state a function ends in, whatever the outcome.\<close>

fun end_state :: "('a, 's) res \<Rightarrow> 's" where
  "end_state (Ok _ s) = s"
| "end_state (Panic _ s) = s"
| "end_state (Blocked s) = s"
| "end_state (Undef s) = s"

lemma kbind_eq_Ok:
  "kbind m f = Ok b t \<longleftrightarrow> (\<exists>a s. m = Ok a s \<and> f a s = Ok b t)"
  by (cases m) auto

lemma kbind_OkE [elim]:
  assumes "kbind m f = Ok b t"
  obtains a s where "m = Ok a s" and "f a s = Ok b t"
  using assms by (auto simp: kbind_eq_Ok)

lemma kbind_assoc: "kbind (kbind m f) g = kbind m (\<lambda>a s. kbind (f a s) g)"
  by (cases m) auto

lemma kbind_cong [fundef_cong]:
  "m = m' \<Longrightarrow> (\<And>a s. m' = Ok a s \<Longrightarrow> f a s = g a s) \<Longrightarrow> kbind m f = kbind m' g"
  by (cases m') auto

section \<open>Loops\<close>

text \<open>
  A C loop with its exits: one run of \<open>body\<close> evaluates the loop condition, does one
  iteration and says whether to go on (\<open>Inl\<close>, with the new values of the loop variables) or
  how the loop was left (\<open>Inr\<close>: the condition failed, a \<^verbatim>\<open>break\<close> or a \<^verbatim>\<open>return\<close>). \<open>None\<close>
  stands for a loop that never ends.
\<close>

partial_function (option) kloop_opt ::
  "('x \<Rightarrow> 's \<Rightarrow> ('x + 'r, 's) res) \<Rightarrow> 'x \<Rightarrow> 's \<Rightarrow> ('r, 's) res option" where
  "kloop_opt body x s =
     (case body x s of
        Ok r s \<Rightarrow> (case r of Inl x \<Rightarrow> kloop_opt body x s | Inr r \<Rightarrow> Some (Ok r s))
      | Panic m s \<Rightarrow> Some (Panic m s)
      | Blocked s \<Rightarrow> Some (Blocked s)
      | Undef s \<Rightarrow> Some (Undef s))"

definition kloop :: "('x \<Rightarrow> 's \<Rightarrow> ('x + 'r, 's) res) \<Rightarrow> 'x \<Rightarrow> 's \<Rightarrow> ('r, 's) res" where
  "kloop body x s = (case kloop_opt body x s of None \<Rightarrow> Blocked s | Some r \<Rightarrow> r)"

lemma kloop_exit: "body x s = Ok (Inr r) t \<Longrightarrow> kloop body x s = Ok r t"
  by (simp add: kloop_def kloop_opt.simps)

lemma kloop_step: "body x s = Ok (Inl y) t \<Longrightarrow> kloop body y t = Ok r u \<Longrightarrow> kloop body x s = Ok r u"
  by (simp add: kloop_def kloop_opt.simps [of body x s] split: option.splits)

lemma kloop_step_Panic:
  "body x s = Ok (Inl y) t \<Longrightarrow> kloop body y t = Panic m u \<Longrightarrow> kloop body x s = Panic m u"
  by (simp add: kloop_def kloop_opt.simps [of body x s] split: option.splits)

text \<open>Total correctness with an invariant that counts the iterations left.\<close>

lemma kloop_count:
  assumes "I n x s"
    and step: "\<And>n x s. I (Suc n) x s \<Longrightarrow>
      (\<exists>y t. body x s = Ok (Inl y) t \<and> I n y t) \<or> (\<exists>r t. body x s = Ok (Inr r) t \<and> Q r t)"
    and exit: "\<And>x s. I 0 x s \<Longrightarrow> \<exists>r t. body x s = Ok (Inr r) t \<and> Q r t"
  shows "\<exists>r t. kloop body x s = Ok r t \<and> Q r t"
  using assms(1)
proof (induction n arbitrary: x s)
  case 0
  then obtain r t where "body x s = Ok (Inr r) t" "Q r t" using exit by blast
  then show ?case by (intro exI conjI) (rule kloop_exit)
next
  case (Suc n)
  from step [OF Suc.prems] show ?case
  proof (elim disjE exE conjE)
    fix y t
    assume "body x s = Ok (Inl y) t" "I n y t"
    from Suc.IH [OF this(2)] obtain r u where "kloop body y t = Ok r u" "Q r u" by blast
    with kloop_step [of body x s y t r u] \<open>body x s = Ok (Inl y) t\<close> show ?thesis by blast
  next
    fix r t
    assume "body x s = Ok (Inr r) t" "Q r t"
    then show ?thesis by (intro exI conjI) (rule kloop_exit)
  qed
qed

text \<open>The same with a measure that gets smaller.\<close>

lemma kloop_measure:
  fixes \<mu> :: "'x \<Rightarrow> nat"
  assumes "I x s"
    and step: "\<And>x s. I x s \<Longrightarrow>
      (\<exists>y t. body x s = Ok (Inl y) t \<and> I y t \<and> \<mu> y < \<mu> x) \<or> (\<exists>r t. body x s = Ok (Inr r) t \<and> Q r t)"
  shows "\<exists>r t. kloop body x s = Ok r t \<and> Q r t"
  using assms(1)
proof (induction "\<mu> x" arbitrary: x s rule: less_induct)
  case less
  from step [OF less.prems] show ?case
  proof (elim disjE exE conjE)
    fix y t
    assume b: "body x s = Ok (Inl y) t" and i: "I y t" "\<mu> y < \<mu> x"
    obtain r u where "kloop body y t = Ok r u" "Q r u" using less.hyps [OF i(2,1)] by blast
    with kloop_step [of body x s y t r u] b show ?thesis by blast
  next
    fix r t
    assume "body x s = Ok (Inr r) t" "Q r t"
    then show ?thesis by (intro exI conjI) (rule kloop_exit)
  qed
qed

lemma kloop_Panic: "body x s = Panic m t \<Longrightarrow> kloop body x s = Panic m t"
  by (simp add: kloop_def kloop_opt.simps)

text \<open>A loop with an invariant under which it always goes round again does not return.\<close>

lemma kloop_diverges:
  assumes "I x s" and step: "\<And>x s. I x s \<Longrightarrow> \<exists>y t. body x s = Ok (Inl y) t \<and> I y t"
  shows "kloop body x s = Blocked s"
proof -
  let ?P = "\<lambda>b x s r. b = body \<longrightarrow> \<not> I x s"
  have "?P b x s r" if "kloop_opt b x s = Some r" for b x s r
  proof (rule kloop_opt.raw_induct [where P = ?P and xa = "((b, x), s)" and y = r, unfolded prod.case])
    fix k :: "('a \<Rightarrow> 'b \<Rightarrow> ('a + 'c, 'b) res) \<Rightarrow> 'a \<Rightarrow> 'b \<Rightarrow> ('c, 'b) res option" and b x s r
    assume IH: "\<And>b x s r. k b x s = Some r \<Longrightarrow> ?P b x s r"
      and r: "(case b x s of Ok r s \<Rightarrow> (case r of Inl x \<Rightarrow> k b x s | Inr r \<Rightarrow> Some (Ok r s))
        | Panic m s \<Rightarrow> Some (Panic m s) | Blocked s \<Rightarrow> Some (Blocked s) | Undef s \<Rightarrow> Some (Undef s)) = Some r"
    show "?P b x s r" using step [of x s] r IH [of b] by auto
  qed (rule that)
  then have "kloop_opt body x s = None" using assms(1) by (cases "kloop_opt body x s") auto
  then show ?thesis by (simp add: kloop_def)
qed

section \<open>Collections of facts\<close>

named_theorems page_arith \<open>page size, page alignment and page offset arithmetic\<close>
named_theorems mem_simps \<open>loads after stores\<close>
named_theorems frame_simps \<open>fields a kernel function leaves alone\<close>

section \<open>Words\<close>

lemma unat_add_lt: "unat (a :: 'a::len word) + unat b < 2 ^ LENGTH('a) \<Longrightarrow> unat (a + b) = unat a + unat b"
  by (simp add: unat_word_ariths)

lemma unat_lt_pow: "unat (x :: 'a::len word) < 2 ^ LENGTH('a)"
  by (rule unsigned_less)

lemma unat_u32_lt: "unat (x :: u32) < 4294967296"
  using unsigned_less [of x] by simp

lemma u32_le_max: "(x :: u32) \<le> 0xFFFFFFFF"
  using unat_lt_pow [of x] by (simp add: word_le_nat_alt)

lemma and_not_disjoint:
  fixes x :: "'a::len word"
  assumes "x AND y = 0"
  shows "x AND NOT y = x"
proof (rule bit_word_eqI)
  fix n
  assume "n < LENGTH('a)"
  moreover have "\<not> (bit x n \<and> bit y n)"
    using assms by (simp add: bit_and_iff [symmetric])
  ultimately show "bit (x AND NOT y) n = bit x n"
    by (auto simp: bit_and_iff bit_not_iff)
qed

lemma unat_of_nat_u32 [simp]: "n < 4294967296 \<Longrightarrow> unat (of_nat n :: u32) = n"
  by (simp add: unat_of_nat)

lemma unat_eq_iff_u32: "(x :: u32) = y \<longleftrightarrow> unat x = unat y"
  by (simp add: word_unat_eq_iff)

lemma word_diff_zero_iff [simp]: "(a :: 'a::len word) - b = 0 \<longleftrightarrow> a = b"
  by simp

text \<open>
  The offset of \<open>a\<close> in a block that starts at \<open>p\<close> is \<open>unat (a - p)\<close>; this reads the
  same whether or not the block wraps around the top of the address space.
\<close>

definition in_block :: "u32 \<Rightarrow> nat \<Rightarrow> u32 \<Rightarrow> bool" where
  "in_block p n a \<longleftrightarrow> unat (a - p) < n"

lemma in_block_0 [simp]: "\<not> in_block p 0 a"
  by (simp add: in_block_def)

lemma in_block_nowrap:
  assumes "unat p + n \<le> 4294967296"
  shows "in_block p n a \<longleftrightarrow> unat p \<le> unat a \<and> unat a < unat p + n"
proof (cases "unat p \<le> unat a")
  case True
  then have "unat (a - p) = unat a - unat p"
    by (simp add: unat_sub word_le_nat_alt)
  with True show ?thesis by (auto simp: in_block_def)
next
  case False
  then have "unat (a - p) = unat a + 4294967296 - unat p"
    using unat_u32_lt [of p] unat_u32_lt [of a]
    by (simp add: unat_sub_if')
  with False assms show ?thesis by (auto simp: in_block_def)
qed

end
