(* ===== verification/Machine.thy ===== *)
theory Machine
  imports Prelude
begin

text \<open>
  The hart as the C code sees it through \<^verbatim>\<open>kernel/csr.c\<close>,
  \<^verbatim>\<open>kernel/gpr.c\<close> and \<^verbatim>\<open>kernel/rv.c\<close>: its control and status registers,
  its general purpose registers, physical memory and the shared real-time counter. One definition per
  accessor function. Then the two 64-bit timer routines, which must work with 32-bit
  halves, with their correctness: \<open>r_time64\<close> returns a value the counter really had,
  and \<open>w_stimecmp64\<close> never exposes a deadline earlier than both the old and the new one.

  A CSR is a plain 32-bit register here: a write stores the value given, a read returns
  the value stored last. The counter is not a register the program can write: \<open>clock\<close> is
  the sequence of values it has at the successive instants at which this hart reads it,
  and each read of \<^verbatim>\<open>time\<close> or \<^verbatim>\<open>timeh\<close> moves to the next instant.
\<close>

section \<open>Machine state of one hart\<close>

datatype csr =
    MVENDORID
  | MARCHID
  | MIMPID
  | MHARTID
  | MSTATUS
  | MISA
  | MEDELEG
  | MIDELEG
  | MIE
  | MTVEC
  | MENVCFG
  | MENVCFGH
  | MCOUNTEREN
  | STIMECMP
  | STIMECMPH
  | MSCRATCH
  | MEPC
  | MCAUSE
  | MTVAL
  | MIP
  | SSTATUS
  | SIE
  | STVEC
  | SSCRATCH
  | SEPC
  | SCAUSE
  | STVAL
  | SIP
  | SATP
  | MCYCLE
  | MINSTRET
  | PMPCFG0
  | PMPADDR0

record machine =
  csrs :: "csr \<Rightarrow> u32"
  gprs :: "nat \<Rightarrow> u32"
  mem :: memory
  clock :: "nat \<Rightarrow> u64"
  instant :: nat

definition csrr :: "csr \<Rightarrow> 'a machine_scheme \<Rightarrow> u32" where
  "csrr c s = csrs s c"

definition csrw :: "csr \<Rightarrow> u32 \<Rightarrow> 'a machine_scheme \<Rightarrow> 'a machine_scheme" where
  "csrw c v s = s\<lparr>csrs := (csrs s)(c := v)\<rparr>"

definition gprr :: "nat \<Rightarrow> 'a machine_scheme \<Rightarrow> u32" where
  "gprr r s = gprs s r"

definition gprw :: "nat \<Rightarrow> u32 \<Rightarrow> 'a machine_scheme \<Rightarrow> 'a machine_scheme" where
  "gprw r v s = s\<lparr>gprs := (gprs s)(r := v)\<rparr>"

section \<open>Control and status register accessors\<close>

definition r_mvendorid :: "'a machine_scheme \<Rightarrow> u32" where
  "r_mvendorid s = csrr MVENDORID s"

definition r_marchid :: "'a machine_scheme \<Rightarrow> u32" where
  "r_marchid s = csrr MARCHID s"

definition r_mimpid :: "'a machine_scheme \<Rightarrow> u32" where
  "r_mimpid s = csrr MIMPID s"

definition r_mhartid :: "'a machine_scheme \<Rightarrow> u32" where
  "r_mhartid s = csrr MHARTID s"

definition w_mstatus :: "u32 \<Rightarrow> 'a machine_scheme \<Rightarrow> 'a machine_scheme" where
  "w_mstatus x s = csrw MSTATUS x s"

definition r_mstatus :: "'a machine_scheme \<Rightarrow> u32" where
  "r_mstatus s = csrr MSTATUS s"

definition w_misa :: "u32 \<Rightarrow> 'a machine_scheme \<Rightarrow> 'a machine_scheme" where
  "w_misa x s = csrw MISA x s"

definition r_misa :: "'a machine_scheme \<Rightarrow> u32" where
  "r_misa s = csrr MISA s"

definition w_medeleg :: "u32 \<Rightarrow> 'a machine_scheme \<Rightarrow> 'a machine_scheme" where
  "w_medeleg x s = csrw MEDELEG x s"

definition r_medeleg :: "'a machine_scheme \<Rightarrow> u32" where
  "r_medeleg s = csrr MEDELEG s"

definition w_mideleg :: "u32 \<Rightarrow> 'a machine_scheme \<Rightarrow> 'a machine_scheme" where
  "w_mideleg x s = csrw MIDELEG x s"

definition r_mideleg :: "'a machine_scheme \<Rightarrow> u32" where
  "r_mideleg s = csrr MIDELEG s"

definition w_mie :: "u32 \<Rightarrow> 'a machine_scheme \<Rightarrow> 'a machine_scheme" where
  "w_mie x s = csrw MIE x s"

definition r_mie :: "'a machine_scheme \<Rightarrow> u32" where
  "r_mie s = csrr MIE s"

definition w_mtvec :: "u32 \<Rightarrow> 'a machine_scheme \<Rightarrow> 'a machine_scheme" where
  "w_mtvec x s = csrw MTVEC (x AND NOT 0x3) s"

definition r_mtvec :: "'a machine_scheme \<Rightarrow> u32" where
  "r_mtvec s = csrr MTVEC s"

definition w_menvcfg :: "u32 \<Rightarrow> 'a machine_scheme \<Rightarrow> 'a machine_scheme" where
  "w_menvcfg x s = csrw MENVCFG x s"

definition r_menvcfg :: "'a machine_scheme \<Rightarrow> u32" where
  "r_menvcfg s = csrr MENVCFG s"

definition w_menvcfgh :: "u32 \<Rightarrow> 'a machine_scheme \<Rightarrow> 'a machine_scheme" where
  "w_menvcfgh x s = csrw MENVCFGH x s"

definition r_menvcfgh :: "'a machine_scheme \<Rightarrow> u32" where
  "r_menvcfgh s = csrr MENVCFGH s"

definition w_mcounteren :: "u32 \<Rightarrow> 'a machine_scheme \<Rightarrow> 'a machine_scheme" where
  "w_mcounteren x s = csrw MCOUNTEREN x s"

definition r_mcounteren :: "'a machine_scheme \<Rightarrow> u32" where
  "r_mcounteren s = csrr MCOUNTEREN s"

definition r_stimecmp :: "'a machine_scheme \<Rightarrow> u32" where
  "r_stimecmp s = csrr STIMECMP s"

definition w_stimecmp :: "u32 \<Rightarrow> 'a machine_scheme \<Rightarrow> 'a machine_scheme" where
  "w_stimecmp x s = csrw STIMECMP x s"

definition r_stimecmph :: "'a machine_scheme \<Rightarrow> u32" where
  "r_stimecmph s = csrr STIMECMPH s"

definition w_stimecmph :: "u32 \<Rightarrow> 'a machine_scheme \<Rightarrow> 'a machine_scheme" where
  "w_stimecmph x s = csrw STIMECMPH x s"

definition r_mscratch :: "'a machine_scheme \<Rightarrow> u32" where
  "r_mscratch s = csrr MSCRATCH s"

definition w_mscratch :: "u32 \<Rightarrow> 'a machine_scheme \<Rightarrow> 'a machine_scheme" where
  "w_mscratch x s = csrw MSCRATCH x s"

definition r_mepc :: "'a machine_scheme \<Rightarrow> u32" where
  "r_mepc s = csrr MEPC s"

definition w_mepc :: "u32 \<Rightarrow> 'a machine_scheme \<Rightarrow> 'a machine_scheme" where
  "w_mepc x s = csrw MEPC x s"

definition r_mcause :: "'a machine_scheme \<Rightarrow> u32" where
  "r_mcause s = csrr MCAUSE s"

definition r_mtval :: "'a machine_scheme \<Rightarrow> u32" where
  "r_mtval s = csrr MTVAL s"

definition r_mip :: "'a machine_scheme \<Rightarrow> u32" where
  "r_mip s = csrr MIP s"

definition w_sstatus :: "u32 \<Rightarrow> 'a machine_scheme \<Rightarrow> 'a machine_scheme" where
  "w_sstatus x s = csrw SSTATUS x s"

definition r_sstatus :: "'a machine_scheme \<Rightarrow> u32" where
  "r_sstatus s = csrr SSTATUS s"

definition w_sie :: "u32 \<Rightarrow> 'a machine_scheme \<Rightarrow> 'a machine_scheme" where
  "w_sie x s = csrw SIE x s"

definition r_sie :: "'a machine_scheme \<Rightarrow> u32" where
  "r_sie s = csrr SIE s"

definition w_stvec :: "u32 \<Rightarrow> 'a machine_scheme \<Rightarrow> 'a machine_scheme" where
  "w_stvec x s = csrw STVEC (x AND NOT 0x3) s"

definition r_stvec :: "'a machine_scheme \<Rightarrow> u32" where
  "r_stvec s = csrr STVEC s"

definition r_sscratch :: "'a machine_scheme \<Rightarrow> u32" where
  "r_sscratch s = csrr SSCRATCH s"

definition w_sscratch :: "u32 \<Rightarrow> 'a machine_scheme \<Rightarrow> 'a machine_scheme" where
  "w_sscratch x s = csrw SSCRATCH x s"

definition r_sepc :: "'a machine_scheme \<Rightarrow> u32" where
  "r_sepc s = csrr SEPC s"

definition w_sepc :: "u32 \<Rightarrow> 'a machine_scheme \<Rightarrow> 'a machine_scheme" where
  "w_sepc x s = csrw SEPC x s"

definition r_scause :: "'a machine_scheme \<Rightarrow> u32" where
  "r_scause s = csrr SCAUSE s"

definition r_stval :: "'a machine_scheme \<Rightarrow> u32" where
  "r_stval s = csrr STVAL s"

definition r_sip :: "'a machine_scheme \<Rightarrow> u32" where
  "r_sip s = csrr SIP s"

definition w_sip :: "u32 \<Rightarrow> 'a machine_scheme \<Rightarrow> 'a machine_scheme" where
  "w_sip x s = csrw SIP x s"

definition w_satp :: "u32 \<Rightarrow> 'a machine_scheme \<Rightarrow> 'a machine_scheme" where
  "w_satp x s = csrw SATP x s"

definition r_satp :: "'a machine_scheme \<Rightarrow> u32" where
  "r_satp s = csrr SATP s"

definition r_mcycle :: "'a machine_scheme \<Rightarrow> u32" where
  "r_mcycle s = csrr MCYCLE s"

definition r_minstret :: "'a machine_scheme \<Rightarrow> u32" where
  "r_minstret s = csrr MINSTRET s"

definition w_pmpcfg0 :: "u32 \<Rightarrow> 'a machine_scheme \<Rightarrow> 'a machine_scheme" where
  "w_pmpcfg0 x s = csrw PMPCFG0 x s"

definition r_pmpcfg0 :: "'a machine_scheme \<Rightarrow> u32" where
  "r_pmpcfg0 s = csrr PMPCFG0 s"

definition w_pmpaddr0 :: "u32 \<Rightarrow> 'a machine_scheme \<Rightarrow> 'a machine_scheme" where
  "w_pmpaddr0 x s = csrw PMPADDR0 x s"

definition r_pmpaddr0 :: "'a machine_scheme \<Rightarrow> u32" where
  "r_pmpaddr0 s = csrr PMPADDR0 s"

section \<open>General purpose register accessors\<close>

definition r_tp :: "'a machine_scheme \<Rightarrow> u32" where
  "r_tp s = gprr 4 s"

definition w_tp :: "u32 \<Rightarrow> 'a machine_scheme \<Rightarrow> 'a machine_scheme" where
  "w_tp x s = gprw 4 x s"

definition r_t0 :: "'a machine_scheme \<Rightarrow> u32" where
  "r_t0 s = gprr 5 s"

definition w_t0 :: "u32 \<Rightarrow> 'a machine_scheme \<Rightarrow> 'a machine_scheme" where
  "w_t0 x s = gprw 5 x s"

definition r_a0 :: "'a machine_scheme \<Rightarrow> u32" where
  "r_a0 s = gprr 10 s"

definition w_a0 :: "u32 \<Rightarrow> 'a machine_scheme \<Rightarrow> 'a machine_scheme" where
  "w_a0 x s = gprw 10 x s"

definition r_a1 :: "'a machine_scheme \<Rightarrow> u32" where
  "r_a1 s = gprr 11 s"

definition w_a1 :: "u32 \<Rightarrow> 'a machine_scheme \<Rightarrow> 'a machine_scheme" where
  "w_a1 x s = gprw 11 x s"

definition r_a2 :: "'a machine_scheme \<Rightarrow> u32" where
  "r_a2 s = gprr 12 s"

definition w_a2 :: "u32 \<Rightarrow> 'a machine_scheme \<Rightarrow> 'a machine_scheme" where
  "w_a2 x s = gprw 12 x s"

definition r_a3 :: "'a machine_scheme \<Rightarrow> u32" where
  "r_a3 s = gprr 13 s"

definition w_a3 :: "u32 \<Rightarrow> 'a machine_scheme \<Rightarrow> 'a machine_scheme" where
  "w_a3 x s = gprw 13 x s"

definition r_a4 :: "'a machine_scheme \<Rightarrow> u32" where
  "r_a4 s = gprr 14 s"

definition w_a4 :: "u32 \<Rightarrow> 'a machine_scheme \<Rightarrow> 'a machine_scheme" where
  "w_a4 x s = gprw 14 x s"

definition r_a5 :: "'a machine_scheme \<Rightarrow> u32" where
  "r_a5 s = gprr 15 s"

definition w_a5 :: "u32 \<Rightarrow> 'a machine_scheme \<Rightarrow> 'a machine_scheme" where
  "w_a5 x s = gprw 15 x s"

definition r_a6 :: "'a machine_scheme \<Rightarrow> u32" where
  "r_a6 s = gprr 16 s"

definition w_a6 :: "u32 \<Rightarrow> 'a machine_scheme \<Rightarrow> 'a machine_scheme" where
  "w_a6 x s = gprw 16 x s"

definition r_a7 :: "'a machine_scheme \<Rightarrow> u32" where
  "r_a7 s = gprr 17 s"

definition w_a7 :: "u32 \<Rightarrow> 'a machine_scheme \<Rightarrow> 'a machine_scheme" where
  "w_a7 x s = gprw 17 x s"

section \<open>The 64-bit timer\<close>

text \<open>Low and high half of the counter; the counter moves on between two reads.\<close>

definition r_time :: "'a machine_scheme \<Rightarrow> u32 \<times> 'a machine_scheme" where
  "r_time s = (ucast (clock s (instant s)), s\<lparr>instant := Suc (instant s)\<rparr>)"

definition r_timeh :: "'a machine_scheme \<Rightarrow> u32 \<times> 'a machine_scheme" where
  "r_timeh s = (ucast (drop_bit 32 (clock s (instant s))), s\<lparr>instant := Suc (instant s)\<rparr>)"

text \<open>
  The retry loop of \<open>r_time64\<close>. Nothing in the code bounds the number of retries, so the
  loop is a partial function: \<open>None\<close> means that it never returns.
\<close>

partial_function (option) r_time64 :: "'a machine_scheme \<Rightarrow> (u64 \<times> 'a machine_scheme) option" where
  "r_time64 s =
     (let (hi, s) = r_timeh s;
          (lo, s) = r_time s;
          (hi2, s) = r_timeh s
      in if hi \<noteq> hi2 then r_time64 s
         else Some (push_bit 32 (ucast hi) OR ucast lo, s))"

text \<open>
  The three register writes of \<open>w_stimecmp64\<close>, as the list of states the hardware
  compares against the counter in between; the function ends in the last of them.
\<close>

definition w_stimecmp64_steps :: "u64 \<Rightarrow> 'a machine_scheme \<Rightarrow> 'a machine_scheme list" where
  "w_stimecmp64_steps x s =
     (let s1 = w_stimecmp 0xFFFFFFFF s;
          s2 = w_stimecmph (ucast (drop_bit 32 x)) s1;
          s3 = w_stimecmp (ucast x) s2
      in [s1, s2, s3])"

definition w_stimecmp64 :: "u64 \<Rightarrow> 'a machine_scheme \<Rightarrow> 'a machine_scheme" where
  "w_stimecmp64 x s = last (w_stimecmp64_steps x s)"

text \<open>The 64-bit deadline the hardware compares against.\<close>

definition stimecmp64 :: "'a machine_scheme \<Rightarrow> u64" where
  "stimecmp64 s = push_bit 32 (ucast (r_stimecmph s)) OR ucast (r_stimecmp s)"

section \<open>Interrupt enable\<close>

definition SSTATUS_SPP :: u32 where "SSTATUS_SPP = 0x100"
definition SSTATUS_SPIE :: u32 where "SSTATUS_SPIE = 0x20"
definition SSTATUS_SIE :: u32 where "SSTATUS_SIE = 0x2"

definition is_interrupt :: "'a machine_scheme \<Rightarrow> bool" where
  "is_interrupt s \<longleftrightarrow> r_sstatus s AND SSTATUS_SIE \<noteq> 0"

definition interrupt_on :: "'a machine_scheme \<Rightarrow> 'a machine_scheme" where
  "interrupt_on s = w_sstatus (r_sstatus s OR SSTATUS_SIE) s"

definition interrupt_off :: "'a machine_scheme \<Rightarrow> 'a machine_scheme" where
  "interrupt_off s = w_sstatus (r_sstatus s AND NOT SSTATUS_SIE) s"

section \<open>Accessor laws\<close>

lemma csrr_csrw [simp]: "csrr c (csrw c' v s) = (if c = c' then v else csrr c s)"
  by (simp add: csrr_def csrw_def)

lemma csrw_csrw_same [simp]: "csrw c v (csrw c w s) = csrw c v s"
  by (simp add: csrw_def)

lemma csrw_csrr_id [simp]: "csrw c (csrr c s) s = s"
  by (simp add: csrw_def csrr_def)

lemma gprr_csrw [simp]: "gprr r (csrw c v s) = gprr r s"
  by (simp add: gprr_def csrw_def)

lemma csrw_fields [simp]:
  "gprs (csrw c v s) = gprs s" "mem (csrw c v s) = mem s" "clock (csrw c v s) = clock s" "instant (csrw c v s) = instant s"
  "machine.more (csrw c v s) = machine.more s"
  by (simp_all add: csrw_def)

lemmas csr_defs =
  r_sstatus_def w_sstatus_def r_stimecmp_def w_stimecmp_def r_stimecmph_def w_stimecmph_def

lemma r_tp_csrw [simp]: "r_tp (csrw c v s) = r_tp s"
  by (simp add: r_tp_def)

section \<open>Timer correctness\<close>

text \<open>Splitting a 64-bit value into halves and joining them again.\<close>

lemma join_halves: "push_bit 32 (ucast (ucast (drop_bit 32 t) :: u32)) OR ucast (ucast t :: u32) = (t :: u64)"
  by (rule bit_word_eqI) (auto simp: bit_simps)

lemma unat_join: "unat (push_bit 32 (ucast (hi :: u32)) OR ucast (lo :: u32) :: u64) = unat hi * 2 ^ 32 + unat lo"
proof -
  have "push_bit 32 (ucast hi :: u64) OR ucast lo = push_bit 32 (ucast hi) + ucast lo"
    by (rule disjunctive_add [symmetric]) (auto simp: bit_simps dest: bit_imp_le_length)
  moreover have "unat (push_bit 32 (ucast hi) :: u64) = unat hi * 2 ^ 32"
    using unat_lt_pow [of hi]
    by (simp add: push_bit_eq_mult [where 'a="64 word"] unat_word_ariths unsigned_ucast_eq take_bit_nat_eq_self)
  moreover have "unat (ucast lo :: u64) = unat lo"
    using unat_lt_pow [of lo] by (simp add: unsigned_ucast_eq take_bit_nat_eq_self)
  ultimately show ?thesis
    using unat_lt_pow [of hi] unat_lt_pow [of lo] by (simp add: unat_word_ariths)
qed

lemma high_half_eq: "unat (ucast (drop_bit 32 (t :: u64)) :: u32) = unat t div 2 ^ 32"
proof -
  have "unat t div 2 ^ 32 < 2 ^ 32"
    using unat_lt_pow [of t] by (simp add: less_mult_imp_div_less)
  then show ?thesis
    by (simp add: unsigned_ucast_eq unat_drop_bit_eq drop_bit_eq_div [where 'a=nat] take_bit_nat_eq_self)
qed

text \<open>One pass of the retry loop.\<close>

lemma r_time64_unfold:
  "r_time64 s =
     (if unat (clock s (instant s)) div 2 ^ 32 \<noteq> unat (clock s (instant s + 2)) div 2 ^ 32
      then r_time64 (s\<lparr>instant := instant s + 3\<rparr>)
      else Some (push_bit 32 (ucast (ucast (drop_bit 32 (clock s (instant s))) :: u32))
                   OR ucast (ucast (clock s (instant s + 1)) :: u32),
                 s\<lparr>instant := instant s + 3\<rparr>))"
  by (subst r_time64.simps)
     (simp add: r_time_def r_timeh_def word_unat_eq_iff [where 'a=32] high_half_eq numeral_3_eq_3)

text \<open>With equal high halves around the low read, the three reads see one counter value.\<close>

lemma same_high_join:
  assumes "(a :: u64) \<le> b" "b \<le> c" "unat a div 2 ^ 32 = unat c div 2 ^ 32"
  shows "push_bit 32 (ucast (ucast (drop_bit 32 a) :: u32)) OR ucast (ucast b :: u32) = b"
proof -
  have "unat a \<le> unat b" "unat b \<le> unat c"
    using assms by (simp_all add: word_le_nat_alt)
  then have "unat a div 2 ^ 32 = unat b div 2 ^ 32"
    using assms(3) div_le_mono [of "unat a" "unat b" "2 ^ 32"] div_le_mono [of "unat b" "unat c" "2 ^ 32"]
    by linarith
  then have "(ucast (drop_bit 32 a) :: u32) = ucast (drop_bit 32 b)"
    by (simp add: word_unat_eq_iff [where 'a=32] high_half_eq)
  then show ?thesis by (simp add: join_halves)
qed

definition clock_mono :: "'a machine_scheme \<Rightarrow> bool" where
  "clock_mono s \<longleftrightarrow> (\<forall>i j. i \<le> j \<longrightarrow> clock s i \<le> clock s j)"

lemma clock_mono_later [simp]: "clock_mono (s\<lparr>instant := i\<rparr>) = clock_mono s"
  by (simp add: clock_mono_def)

lemma r_time64_at_reads:
  assumes ret: "r_time64 s = Some r"
  shows "clock_mono s \<longrightarrow> fst r = clock s (instant (snd r) - 2)
    \<and> instant s + 3 \<le> instant (snd r) \<and> snd r = s\<lparr>instant := instant (snd r)\<rparr>"
proof (rule r_time64.raw_induct [OF _ ret])
  fix f :: "'a machine_scheme \<Rightarrow> (u64 \<times> 'a machine_scheme) option" and s r
  let ?Q = "\<lambda>s r. clock_mono s \<longrightarrow> fst r = clock s (instant (snd r) - 2)
    \<and> instant s + 3 \<le> instant (snd r) \<and> snd r = s\<lparr>instant := instant (snd r)\<rparr>"
  assume IH: "\<And>s r. f s = Some r \<Longrightarrow> ?Q s r"
    and eq: "(let (hi, s) = r_timeh s; (lo, s) = r_time s; (hi2, s) = r_timeh s
      in if hi \<noteq> hi2 then f s else Some (push_bit 32 (ucast hi) OR ucast lo, s)) = Some r"
  let ?s3 = "s\<lparr>instant := instant s + 3\<rparr>"
  show "?Q s r"
  proof (cases "unat (clock s (instant s)) div 2 ^ 32 = unat (clock s (instant s + 2)) div 2 ^ 32")
    case True
    with eq have "r = (push_bit 32 (ucast (ucast (drop_bit 32 (clock s (instant s))) :: u32))
                   OR ucast (ucast (clock s (instant s + 1)) :: u32), ?s3)"
      by (simp add: r_time_def r_timeh_def word_unat_eq_iff [where 'a=32] high_half_eq numeral_3_eq_3)
    with True show ?thesis
      by (auto simp: clock_mono_def intro!: same_high_join [where c = "clock s (instant s + 2)"])
  next
    case False
    with eq have "f ?s3 = Some r"
      by (simp add: r_time_def r_timeh_def word_unat_eq_iff [where 'a=32] high_half_eq numeral_3_eq_3)
    from IH [OF this] show ?thesis by auto
  qed
qed

text \<open>Two carries out of the low half are more than \<open>2 ^ 32\<close> counts apart.\<close>

lemma two_carries:
  fixes a b c d :: nat
  assumes "a \<le> b" "b \<le> c" "c \<le> d" "d \<le> a + 2 ^ 32" "a div 2 ^ 32 \<noteq> b div 2 ^ 32"
  shows "c div 2 ^ 32 = d div 2 ^ 32"
proof -
  have "a div 2 ^ 32 < b div 2 ^ 32"
    using assms(1,5) by (simp add: div_le_mono order.not_eq_order_implies_strict)
  moreover have "b div 2 ^ 32 \<le> c div 2 ^ 32" "c div 2 ^ 32 \<le> d div 2 ^ 32"
    using assms(2,3) by (simp_all add: div_le_mono)
  moreover have "d div 2 ^ 32 \<le> a div 2 ^ 32 + 1"
    using div_le_mono [OF assms(4), of "2 ^ 32"] by simp
  ultimately show ?thesis by linarith
qed

lemma join_mono:
  "hi \<le> hi' \<Longrightarrow> lo \<le> lo' \<Longrightarrow>
   (push_bit 32 (ucast (hi :: u32)) OR ucast (lo :: u32) :: u64)
     \<le> push_bit 32 (ucast (hi' :: u32)) OR ucast (lo' :: u32)"
  by (simp add: word_le_nat_alt unat_join)

text \<open>
  C12 (functional). Whatever \<open>r_time64\<close> returns is the value the 64-bit counter had at one
  instant during the call (the second of the last three reads), although the hart can only
  read it in halves and the counter keeps running; nothing but the clock instant changes.
\<close>

theorem r_time64_linearizes:
  assumes mono: "clock_mono s"
    and ret: "r_time64 s = Some (t, s')"
  shows "t = clock s (instant s' - 2) \<and> instant s + 3 \<le> instant s' \<and> s' = s\<lparr>instant := instant s'\<rparr>"
  using r_time64_at_reads [OF ret] mono by simp

theorem r_time64_linearizes_witness:
  "\<exists>t s'. r_time64 \<lparr>csrs = (\<lambda>_. 0), gprs = (\<lambda>_. 0), mem = (\<lambda>_. 0),
       clock = (\<lambda>i. if i = 0 then 0xFFFFFFFF else 0x100000001), instant = 0\<rparr> = Some (t, s')
     \<and> t = 0x100000001 \<and> instant s' = 6"
proof -
  let ?s = "\<lparr>csrs = (\<lambda>_. 0), gprs = (\<lambda>_. 0), mem = (\<lambda>_. 0),
       clock = (\<lambda>i. if i = 0 then 0xFFFFFFFF else 0x100000001), instant = 0\<rparr> :: machine"
  have m: "clock_mono ?s" by (simp add: clock_mono_def)
  obtain t s' where r: "r_time64 ?s = Some (t, s')" and i: "instant s' = 6"
    by (simp add: r_time64_unfold)
  from r_time64_linearizes [OF m r] r i show ?thesis by auto
qed

lemma r_time64_returns:
  assumes mono: "clock_mono s"
    and slow: "unat (clock s (instant s + 5)) \<le> unat (clock s (instant s)) + 2 ^ 32"
  shows "\<exists>t s'. r_time64 s = Some (t, s') \<and> instant s' \<le> instant s + 6"
proof (cases "unat (clock s (instant s)) div 2 ^ 32 = unat (clock s (instant s + 2)) div 2 ^ 32")
  case True
  then show ?thesis by (subst r_time64_unfold) simp
next
  case False
  let ?c = "\<lambda>k. unat (clock s (instant s + k))"
  have le: "?c 0 \<le> ?c 2" "?c 2 \<le> ?c 3" "?c 3 \<le> ?c 5"
    using mono by (simp_all add: clock_mono_def word_le_nat_alt [symmetric])
  have "?c 3 div 2 ^ 32 = ?c 5 div 2 ^ 32"
    using two_carries [OF le] False slow by simp
  then have "\<exists>t. r_time64 (s\<lparr>instant := instant s + 3\<rparr>) = Some (t, s\<lparr>instant := instant s + 6\<rparr>)"
    by (subst r_time64_unfold) (simp add: add.commute)
  with False show ?thesis
    by (subst r_time64_unfold) auto
qed

text \<open>A pass of the loop is the last one when the high half is the same at its first and third read.\<close>

lemma r_time64_settles:
  assumes "unat (clock s (instant s + 3 * k)) div 2 ^ 32 = unat (clock s (instant s + 3 * k + 2)) div 2 ^ 32"
  shows "\<exists>t s'. r_time64 s = Some (t, s') \<and> instant s' \<le> instant s + 3 * k + 3"
  using assms
proof (induction k arbitrary: s)
  case 0
  then show ?case by (subst r_time64_unfold) simp
next
  case (Suc k)
  let ?s = "s\<lparr>instant := instant s + 3\<rparr>"
  have "\<exists>t s'. r_time64 ?s = Some (t, s') \<and> instant s' \<le> instant s + 3 * Suc k + 3"
    using Suc.IH [of ?s] Suc.prems by (simp add: algebra_simps)
  then show ?case by (subst r_time64_unfold) auto
qed

text \<open>
  C13 (termination). The retry loop ends with the first pass that reads the same high half twice: if pass \<open>k\<close>
  does, \<open>r_time64\<close> returns after at most \<open>k + 1\<close> passes of three reads, whatever the clock did before. A
  clock that never goes back and advances by at most \<open>2 ^ 32\<close> over six reads (seven minutes at 10 MHz)
  brings that about in the second pass at the latest.
\<close>

theorem r_time64_terminates:
  "(unat (clock s (instant s + 3 * k)) div 2 ^ 32 = unat (clock s (instant s + 3 * k + 2)) div 2 ^ 32 \<longrightarrow>
      (\<exists>t s'. r_time64 s = Some (t, s') \<and> instant s' \<le> instant s + 3 * k + 3))
   \<and> (clock_mono s \<and> unat (clock s (instant s + 5)) \<le> unat (clock s (instant s)) + 2 ^ 32 \<longrightarrow>
      (\<exists>t s'. r_time64 s = Some (t, s') \<and> instant s' \<le> instant s + 6))"
  using r_time64_settles r_time64_returns by blast

theorem r_time64_terminates_witness:
  "(\<exists>t s'. r_time64 \<lparr>csrs = (\<lambda>_. 0), gprs = (\<lambda>_. 0), mem = (\<lambda>_. 0),
       clock = (\<lambda>i. if i = 0 then 0xFFFFFFFF else 0x100000001), instant = 0\<rparr> = Some (t, s')
     \<and> instant s' \<le> 6)
   \<and> (\<exists>t s'. r_time64 \<lparr>csrs = (\<lambda>_. 0), gprs = (\<lambda>_. 0), mem = (\<lambda>_. 0),
       clock = (\<lambda>i. if i < 6 then push_bit 32 (of_nat i) else 0x700000000), instant = 0\<rparr> = Some (t, s')
     \<and> instant s' \<le> 9)"
  using r_time64_terminates [of "\<lparr>csrs = (\<lambda>_. 0), gprs = (\<lambda>_. 0), mem = (\<lambda>_. 0),
       clock = (\<lambda>i. if i = 0 then 0xFFFFFFFF else 0x100000001), instant = 0\<rparr> :: machine" 0]
    r_time64_terminates [of "\<lparr>csrs = (\<lambda>_. 0), gprs = (\<lambda>_. 0), mem = (\<lambda>_. 0),
       clock = (\<lambda>i. if i < 6 then push_bit 32 (of_nat i) else 0x700000000), instant = 0\<rparr> :: machine" 2]
  by (simp add: clock_mono_def)

text \<open>
  C14 (safety). While \<open>w_stimecmp64\<close> replaces the deadline, every value the hardware can
  compare against the counter, including the half-written ones, is at least the smaller of
  the old and the new deadline, so no timer interrupt fires early; at the end it is the new
  deadline.
\<close>

theorem w_stimecmp64_no_early_deadline:
  "list_all (\<lambda>t. min (stimecmp64 s) x \<le> stimecmp64 t) (w_stimecmp64_steps x s)
   \<and> stimecmp64 (w_stimecmp64 x s) = x"
proof -
  have old: "stimecmp64 s \<le> push_bit 32 (ucast (csrr STIMECMPH s)) OR 0xFFFFFFFF"
    using join_mono [of "csrr STIMECMPH s" "csrr STIMECMPH s" "csrr STIMECMP s" "0xFFFFFFFF"]
    by (simp add: stimecmp64_def csr_defs u32_le_max)
  have new: "x \<le> push_bit 32 (ucast (ucast (drop_bit 32 x) :: u32)) OR 0xFFFFFFFF"
    using join_mono [of "ucast (drop_bit 32 x)" "ucast (drop_bit 32 x)" "ucast x" "0xFFFFFFFF"]
    by (simp add: join_halves u32_le_max)
  show ?thesis
    using old new
    by (simp add: w_stimecmp64_def w_stimecmp64_steps_def stimecmp64_def csr_defs join_halves
        min_le_iff_disj Let_def)
qed

section \<open>Interrupt enable bit\<close>

lemma SIE_and_off [simp]: "(x AND NOT SSTATUS_SIE) AND SSTATUS_SIE = 0"
  by (simp add: and.assoc)

lemma SIE_or_on [simp]: "(x OR SSTATUS_SIE) AND SSTATUS_SIE = SSTATUS_SIE"
  by (simp add: and.commute [of "x OR SSTATUS_SIE"])

lemma SIE_nonzero [simp]: "SSTATUS_SIE \<noteq> 0"
  by (simp add: SSTATUS_SIE_def)

lemma SIE_exp: "SSTATUS_SIE = 2 ^ 1"
  by (simp add: SSTATUS_SIE_def)

lemma SIE_bit: "bit SSTATUS_SIE n \<longleftrightarrow> n = 1"
  unfolding SIE_exp bit_exp_iff by auto

lemma SIE_set_iff: "x AND SSTATUS_SIE \<noteq> 0 \<longleftrightarrow> bit x 1"
  unfolding SIE_exp and_exp_eq_0_iff_not_bit by simp

lemma SIE_clear_set: "x AND SSTATUS_SIE \<noteq> 0 \<Longrightarrow> x AND NOT SSTATUS_SIE OR SSTATUS_SIE = x"
  unfolding SIE_set_iff by (rule bit_word_eqI) (auto simp: bit_and_iff bit_or_iff bit_not_iff SIE_bit)

lemma is_interrupt_off [simp]: "\<not> is_interrupt (interrupt_off s)"
  by (simp add: is_interrupt_def interrupt_off_def csr_defs)

lemma is_interrupt_on [simp]: "is_interrupt (interrupt_on s)"
  by (simp add: is_interrupt_def interrupt_on_def csr_defs)

lemma interrupt_off_idle: "\<not> is_interrupt s \<Longrightarrow> interrupt_off s = s"
  by (simp add: is_interrupt_def interrupt_off_def csr_defs and_not_disjoint)

lemma interrupt_on_off: "is_interrupt s \<Longrightarrow> interrupt_on (interrupt_off s) = s"
  by (simp add: is_interrupt_def interrupt_off_def interrupt_on_def csr_defs SIE_clear_set)

end
