(* ===== verification/Console.thy ===== *)
theory Console
  imports Machine
begin

text \<open>
  The console: the UART driver (\<^verbatim>\<open>kernel/uart.c\<close>), the C string helpers and the
  formatted output of \<^verbatim>\<open>kernel/kprint.c\<close> up to the body of \<^verbatim>\<open>printf\<close>, and
  \<^verbatim>\<open>panic\<close>. The device itself is not code of this repository: the state holds an
  arbitrary sequence of values that loads from its registers return and the log of the
  stores made to them. Shown: output of numbers is the right one in every base, at the
  width the buffers have, and every byte reaches the transmit register in order provided
  the transmitter keeps becoming idle.
\<close>

section \<open>UART registers\<close>

record console = machine +
  mmio_in :: "nat \<Rightarrow> u8"
  mmio_n :: nat
  mmio_out :: "(u32 \<times> u8) list"
  hang :: bool

definition UART_0 :: u32 where "UART_0 = 0x10000000"
definition UART_RBR :: u32 where "UART_RBR = 0x00"
definition UART_THR :: u32 where "UART_THR = 0x00"
definition UART_DLL :: u32 where "UART_DLL = 0x00"
definition UART_IER :: u32 where "UART_IER = 0x01"
definition UART_DLM :: u32 where "UART_DLM = 0x01"
definition UART_FCR :: u32 where "UART_FCR = 0x02"
definition UART_LCR :: u32 where "UART_LCR = 0x03"
definition UART_LSR :: u32 where "UART_LSR = 0x05"
definition UART_FCR_ENABLE :: u8 where "UART_FCR_ENABLE = 1"
definition UART_FCR_CLEAR :: u8 where "UART_FCR_CLEAR = 6"
definition UART_LCR_8N1 :: u8 where "UART_LCR_8N1 = 3"
definition UART_LCR_DLAB :: u8 where "UART_LCR_DLAB = 0x80"
definition UART_LSR_RX_READY :: u8 where "UART_LSR_RX_READY = 1"
definition UART_LSR_TX_IDLE :: u8 where "UART_LSR_TX_IDLE = 0x20"
definition UART_CLOCK_HZ :: u32 where "UART_CLOCK_HZ = 3686400"
definition UART_BAUD :: u32 where "UART_BAUD = 115200"

definition UART_REG :: "u32 \<Rightarrow> u32" where
  "UART_REG r = UART_0 + r"

text \<open>A volatile load takes the device's next answer; a volatile store is logged.\<close>

definition uart_load :: "u32 \<Rightarrow> 'a console_scheme \<Rightarrow> u8 \<times> 'a console_scheme" where
  "uart_load a s = (mmio_in s (mmio_n s), s\<lparr>mmio_n := Suc (mmio_n s)\<rparr>)"

definition uart_store :: "u32 \<Rightarrow> u8 \<Rightarrow> 'a console_scheme \<Rightarrow> 'a console_scheme" where
  "uart_store a v s = s\<lparr>mmio_out := mmio_out s @ [(a, v)]\<rparr>"

section \<open>UART driver\<close>

definition uart_init :: "'a console_scheme \<Rightarrow> 'a console_scheme" where
  "uart_init s =
     (let s = uart_store (UART_REG UART_IER) 0 s;
          divisor = UART_CLOCK_HZ div (16 * UART_BAUD);
          s = uart_store (UART_REG UART_LCR) UART_LCR_DLAB s;
          s = uart_store (UART_REG UART_DLL) (ucast (divisor AND 0xff)) s;
          s = uart_store (UART_REG UART_DLM) (ucast (drop_bit 8 divisor AND 0xff)) s;
          s = uart_store (UART_REG UART_LCR) UART_LCR_8N1 s
      in uart_store (UART_REG UART_FCR) (UART_FCR_ENABLE OR UART_FCR_CLEAR) s)"

text \<open>The polling loop of \<open>uart_putc\<close>; \<open>None\<close> when the transmitter is never idle.\<close>

partial_function (option) uart_wait :: "'a console_scheme \<Rightarrow> 'a console_scheme option" where
  "uart_wait s =
     (let (lsr, s) = uart_load (UART_REG UART_LSR) s
      in if lsr AND UART_LSR_TX_IDLE = 0 then uart_wait s else Some s)"

definition uart_putc :: "u8 \<Rightarrow> 'a console_scheme \<Rightarrow> (unit, 'a console_scheme) res" where
  "uart_putc c s =
     (case uart_wait s of
        None \<Rightarrow> Blocked s
      | Some s \<Rightarrow> Ok () (uart_store (UART_REG UART_THR) c s))"

definition uart_getc :: "'a console_scheme \<Rightarrow> int \<times> 'a console_scheme" where
  "uart_getc s =
     (let (lsr, s) = uart_load (UART_REG UART_LSR) s
      in if lsr AND UART_LSR_RX_READY \<noteq> 0
         then (let (c, s) = uart_load (UART_REG UART_RBR) s in (uint c, s))
         else (-1, s))"

section \<open>C strings\<close>

partial_function (option) strlen_from :: "cptr \<Rightarrow> nat \<Rightarrow> u32 \<Rightarrow> u32 option" where
  "strlen_from str i count =
     (if str i \<noteq> 0 then strlen_from str (Suc i) (count + 1) else Some count)"

definition strlen :: "cptr \<Rightarrow> u32 option" where
  "strlen str = strlen_from str 0 0"

partial_function (option) strcmp_from :: "cptr \<Rightarrow> cptr \<Rightarrow> nat \<Rightarrow> int option" where
  "strcmp_from a b i =
     (if a i \<noteq> 0 \<and> a i = b i then strcmp_from a b (Suc i)
      else Some (uint (a i) - uint (b i)))"

definition strcmp :: "cptr \<Rightarrow> cptr \<Rightarrow> int option" where
  "strcmp a b = strcmp_from a b 0"

section \<open>Formatted output\<close>

definition putchar :: "u8 \<Rightarrow> 'a console_scheme \<Rightarrow> (unit, 'a console_scheme) res" where
  "putchar c s = uart_putc c s"

text \<open>
  \<open>print_string\<close> walks the string; the outer option is \<open>None\<close> when the walk never meets
  the NUL.
\<close>

partial_function (option) print_string_from ::
  "cptr \<Rightarrow> nat \<Rightarrow> 'a console_scheme \<Rightarrow> (unit, 'a console_scheme) res option" where
  "print_string_from str i s =
     (if str i = 0 then Some (Ok () s)
      else if is_Ok (putchar (str i) s)
      then print_string_from str (Suc i) (end_state (putchar (str i) s))
      else Some (putchar (str i) s))"

definition print_string :: "cptr \<Rightarrow> 'a console_scheme \<Rightarrow> (unit, 'a console_scheme) res" where
  "print_string str s =
     (case print_string_from str 0 s of None \<Rightarrow> Blocked s | Some r \<Rightarrow> r)"

text \<open>Bytes in sequence: the loops that print a buffer.\<close>

fun put_bytes :: "u8 list \<Rightarrow> 'a console_scheme \<Rightarrow> (unit, 'a console_scheme) res" where
  "put_bytes [] s = Ok () s"
| "put_bytes (c # cs) s = kbind (putchar c s) (\<lambda>_ s. put_bytes cs s)"

definition digits :: cptr where
  "digits = lit ''0123456789abcdef''"

text \<open>The shifts 28, 24, \<dots>, 0 of the loop in \<open>print_addr\<close>.\<close>

definition print_addr :: "u32 \<Rightarrow> 'a console_scheme \<Rightarrow> (unit, 'a console_scheme) res" where
  "print_addr addr s =
     kbind (print_string (lit ''0x'') s)
       (\<lambda>_ s. put_bytes (map (\<lambda>i. digits (unat (drop_bit i addr AND 0xF)))
                 [28, 24, 20, 16, 12, 8, 4, 0]) s)"

text \<open>
  The do-while loop shared by \<open>print_uint\<close> and \<open>printint\<close>: it stores the digits of
  \<open>num\<close>, lowest first, and ends when the quotient is 0.
\<close>

partial_function (option) digit_loop :: "u32 \<Rightarrow> u32 \<Rightarrow> u8 list \<Rightarrow> u8 list option" where
  "digit_loop base num nums =
     (let nums = nums @ [digits (unat (num mod base))];
          num = num div base
      in if num \<noteq> 0 then digit_loop base num nums else Some nums)"

definition print_uint :: "u32 \<Rightarrow> u8 \<Rightarrow> 'a console_scheme \<Rightarrow> (unit, 'a console_scheme) res" where
  "print_uint num base s =
     (case digit_loop (ucast base) num [] of
        None \<Rightarrow> Blocked s
      | Some nums \<Rightarrow> put_bytes (rev nums) s)"

text \<open>
  \<open>print_sint\<close> is \<^verbatim>\<open>printint\<close> after its check of the base: the sign, the digits of
  the magnitude computed in unsigned arithmetic, and the buffer printed backwards.
\<close>

definition print_sint :: "u32 \<Rightarrow> u8 \<Rightarrow> 'a console_scheme \<Rightarrow> (unit, 'a console_scheme) res" where
  "print_sint num base s =
     (let negative = sint num < 0;
          n = (if negative then - num else num)
      in case digit_loop (ucast base) n [] of
           None \<Rightarrow> Blocked s
         | Some nums \<Rightarrow>
             (let nums = (if negative then nums @ [of_char (CHR ''-'')] else nums)
              in put_bytes (rev nums) s))"

text \<open>
  The arguments of a variadic call. The formats in the kernel are all literals. The body
  of \<open>printf\<close> between taking and releasing the lock; \<^verbatim>\<open>%d\<close> always prints in base 10,
  which passes the check of \<^verbatim>\<open>printint\<close>.
\<close>

datatype va_arg = VInt u32 | VStr cptr

fun printf_body :: "string \<Rightarrow> va_arg list \<Rightarrow> 'a console_scheme \<Rightarrow> (unit, 'a console_scheme) res" where
  "printf_body [] args s = Ok () s"
| "printf_body (c # fmt) args s =
     (if c \<noteq> CHR ''%'' then kbind (putchar (of_char c) s) (\<lambda>_ s. printf_body fmt args s)
      else case fmt of
        [] \<Rightarrow> print_string (lit (''printf: format specifier followed by null'' @ [CHR 0x0A])) s
      | f # fmt' \<Rightarrow>
         (if f = CHR ''d'' then
            (case args of VInt n # args' \<Rightarrow> kbind (print_sint n 10 s) (\<lambda>_ s. printf_body fmt' args' s)
             | _ \<Rightarrow> Undef s)
          else if f = CHR ''u'' then
            (case args of VInt n # args' \<Rightarrow> kbind (print_uint n 10 s) (\<lambda>_ s. printf_body fmt' args' s)
             | _ \<Rightarrow> Undef s)
          else if f = CHR ''x'' then
            (case args of VInt n # args' \<Rightarrow> kbind (print_uint n 16 s) (\<lambda>_ s. printf_body fmt' args' s)
             | _ \<Rightarrow> Undef s)
          else if f = CHR ''p'' then
            (case args of VInt n # args' \<Rightarrow> kbind (print_addr n s) (\<lambda>_ s. printf_body fmt' args' s)
             | _ \<Rightarrow> Undef s)
          else if f = CHR ''s'' then
            (case args of VStr str # args' \<Rightarrow> kbind (print_string str s) (\<lambda>_ s. printf_body fmt' args' s)
             | _ \<Rightarrow> Undef s)
          else if f = CHR ''c'' then
            (case args of VInt n # args' \<Rightarrow> kbind (putchar (ucast n) s) (\<lambda>_ s. printf_body fmt' args' s)
             | _ \<Rightarrow> Undef s)
          else print_string (lit ''unknown specifier'') s))"

text \<open>
  \<open>panic\<close>: interrupts off, the \<open>hang\<close> flag set (so that \<^verbatim>\<open>printf\<close> takes no lock), the
  message, and then the hart loops.
\<close>

definition panic :: "string \<Rightarrow> 'a console_scheme \<Rightarrow> ('b, 'a console_scheme) res" where
  "panic str s =
     (let s = (interrupt_off s)\<lparr>hang := True\<rparr>
      in kbind (printf_body (''KERNEL PANIC (cpu %d): %s'' @ [CHR 0x0A]) [VInt (r_tp s), VStr (lit str)] s)
           (\<lambda>_ s. Panic str s))"

section \<open>Transmission\<close>

text \<open>The device keeps becoming ready: after every load some later one reports it idle.\<close>

definition uart_live :: "'a console_scheme \<Rightarrow> bool" where
  "uart_live s \<longleftrightarrow> (\<forall>n. \<exists>m\<ge>n. mmio_in s m AND UART_LSR_TX_IDLE \<noteq> 0)"

text \<open>The state after the bytes \<open>bs\<close> went out and \<open>n\<close> device loads were made in all.\<close>

definition emit :: "nat \<Rightarrow> u8 list \<Rightarrow> 'a console_scheme \<Rightarrow> 'a console_scheme" where
  "emit n bs s = s\<lparr>mmio_n := n, mmio_out := mmio_out s @ map (Pair (UART_REG UART_THR)) bs\<rparr>"

lemma uart_live_emit [simp]: "uart_live (emit n bs s) = uart_live s"
  by (simp add: uart_live_def emit_def)

lemma emit_emit [simp]: "emit n' cs (emit n bs s) = emit n' (bs @ cs) s"
  by (simp add: emit_def)

lemma emit_mmio_out [simp]: "mmio_out (emit n bs s) = mmio_out s @ map (Pair (UART_REG UART_THR)) bs"
  by (simp add: emit_def)

lemma uart_wait_idle:
  assumes "mmio_n s \<le> m" "mmio_in s m AND UART_LSR_TX_IDLE \<noteq> 0"
  shows "\<exists>n. uart_wait s = Some (s\<lparr>mmio_n := n\<rparr>)"
  using assms
proof (induction "m - mmio_n s" arbitrary: s)
  case 0
  then show ?case by (subst uart_wait.simps) (auto simp: uart_load_def)
next
  case (Suc k)
  show ?case
  proof (cases "mmio_in s (mmio_n s) AND UART_LSR_TX_IDLE = 0")
    case True
    let ?s = "s\<lparr>mmio_n := Suc (mmio_n s)\<rparr>"
    have "\<exists>n. uart_wait ?s = Some (?s\<lparr>mmio_n := n\<rparr>)"
      using Suc by (intro Suc.hyps(1)) auto
    with True show ?thesis by (subst uart_wait.simps) (simp add: uart_load_def)
  next
    case False
    then show ?thesis by (subst uart_wait.simps) (auto simp: uart_load_def)
  qed
qed

lemma putchar_live:
  assumes "uart_live s"
  shows "\<exists>n. putchar c s = Ok () (emit n [c] s)"
proof -
  obtain m where "mmio_n s \<le> m" "mmio_in s m AND UART_LSR_TX_IDLE \<noteq> 0"
    using assms by (auto simp: uart_live_def)
  then obtain n where "uart_wait s = Some (s\<lparr>mmio_n := n\<rparr>)"
    using uart_wait_idle by blast
  then show ?thesis
    by (auto simp: putchar_def uart_putc_def uart_store_def emit_def)
qed

text \<open>An output routine that sends exactly the bytes \<open>bs\<close> and changes nothing else.\<close>

definition emits :: "('a console_scheme \<Rightarrow> (unit, 'a console_scheme) res) \<Rightarrow> u8 list \<Rightarrow> bool" where
  "emits f bs \<longleftrightarrow> (\<forall>s. uart_live s \<longrightarrow> (\<exists>n. f s = Ok () (emit n bs s)))"

lemma emitsI: "(\<And>s. uart_live s \<Longrightarrow> \<exists>n. f s = Ok () (emit n bs s)) \<Longrightarrow> emits f bs"
  by (simp add: emits_def)

lemma emitsE:
  assumes "emits f bs" "uart_live s"
  obtains n where "f s = Ok () (emit n bs s)"
  using assms by (auto simp: emits_def)

lemma emits_nil: "emits (\<lambda>s. Ok () s) []"
proof (rule emitsI)
  fix s :: "'a console_scheme"
  have "s = emit (mmio_n s) [] s" by (simp add: emit_def)
  then show "\<exists>n. Ok () s = Ok () (emit n [] s)" by auto
qed

lemma emits_putchar: "emits (putchar c) [c]"
  by (rule emitsI) (rule putchar_live)

lemma emits_seq:
  assumes f: "emits f bs" and g: "emits g cs"
  shows "emits (\<lambda>s. kbind (f s) (\<lambda>_ s. g s)) (bs @ cs)"
proof (rule emitsI)
  fix s :: "'a console_scheme"
  assume live: "uart_live s"
  then obtain n where n: "f s = Ok () (emit n bs s)" using f by (elim emitsE)
  moreover from live have "uart_live (emit n bs s)" by simp
  then obtain n' where "g (emit n bs s) = Ok () (emit n' cs (emit n bs s))"
    using g by (elim emitsE)
  ultimately show "\<exists>n. kbind (f s) (\<lambda>_ s. g s) = Ok () (emit n (bs @ cs) s)" by auto
qed

lemma emits_put_bytes: "emits (put_bytes bs) bs"
proof (induction bs)
  case Nil
  show ?case using emits_nil by (simp add: emits_def)
next
  case (Cons c bs)
  show ?case using emits_seq [OF emits_putchar Cons, of c] by (simp add: emits_def)
qed

section \<open>C strings: correctness\<close>

text \<open>The string a pointer denotes: non-zero bytes followed by a NUL.\<close>

definition is_cstr :: "cptr \<Rightarrow> u8 list \<Rightarrow> bool" where
  "is_cstr str bs \<longleftrightarrow> (\<forall>i < length bs. str i = bs ! i \<and> bs ! i \<noteq> 0) \<and> str (length bs) = 0"

lemma is_cstr_nth: "is_cstr str bs \<Longrightarrow> i < length bs \<Longrightarrow> str i = bs ! i"
  and is_cstr_nonzero: "is_cstr str bs \<Longrightarrow> i < length bs \<Longrightarrow> str i \<noteq> 0"
  and is_cstr_end: "is_cstr str bs \<Longrightarrow> str (length bs) = 0"
  by (simp_all add: is_cstr_def)

lemma is_cstr_unique:
  assumes "is_cstr str bs" "is_cstr str cs"
  shows "bs = cs"
proof (rule nth_equalityI)
  show len: "length bs = length cs"
    using is_cstr_nonzero [OF assms(1), of "length cs"] is_cstr_nonzero [OF assms(2), of "length bs"]
      is_cstr_end [OF assms(1)] is_cstr_end [OF assms(2)]
    by (cases "length bs" "length cs" rule: linorder_cases) simp_all
  show "bs ! i = cs ! i" if "i < length bs" for i
    using that len is_cstr_nth [OF assms(1), of i] is_cstr_nth [OF assms(2), of i] by simp
qed

lemma of_char_u8_0 [simp]: "(of_char c :: u8) = 0 \<longleftrightarrow> c = CHR 0x00"
proof -
  have "(of_char c :: u8) = 0 \<longleftrightarrow> 256 dvd (of_char c :: nat)"
    using word_of_nat_eq_0_iff [of "of_char c", where 'a=8] by (simp add: of_nat_of_char)
  also have "\<dots> \<longleftrightarrow> (of_char c :: nat) = of_char (CHR 0x00)"
    using dvd_imp_le [of 256 "of_char c :: nat"] nat_of_char_less_256 [of c]
    by (cases "(of_char c :: nat) = 0") (auto simp del: nat_of_char_less_256)
  finally show ?thesis by (simp only: of_char_eq_iff)
qed

lemma is_cstr_lit: "CHR 0x00 \<notin> set cs \<Longrightarrow> is_cstr (lit cs) (map of_char cs)"
  by (auto simp: is_cstr_def lit_def in_set_conv_nth)

lemma strlen_from_cstr:
  "is_cstr str bs \<Longrightarrow> i \<le> length bs \<Longrightarrow> strlen_from str i c = Some (c + of_nat (length bs - i))"
proof (induction "length bs - i" arbitrary: i c)
  case 0
  then show ?case by (subst strlen_from.simps) (simp add: is_cstr_def)
next
  case (Suc k)
  then have "strlen_from str (Suc i) (c + 1) = Some (c + 1 + of_nat (length bs - Suc i))"
    by auto
  moreover have "length bs - i = Suc (length bs - Suc i)"
    using Suc.hyps(2) by simp
  ultimately show ?case
    using Suc by (subst strlen_from.simps) (simp add: is_cstr_def algebra_simps)
qed

lemma strlen_cstr: "is_cstr str bs \<Longrightarrow> strlen str = Some (of_nat (length bs))"
  using strlen_from_cstr [of str bs 0 0] by (simp add: strlen_def)

text \<open>Comparison: the loop stops at the first difference, or at the common end.\<close>

lemma strcmp_from_cstr:
  assumes "is_cstr a (p @ as)" "is_cstr b (p @ bs)"
  shows "\<exists>r. strcmp_from a b (length p) = Some r
    \<and> (r = 0 \<longleftrightarrow> as = bs) \<and> (r < 0 \<longleftrightarrow> (as, bs) \<in> lexord {(x, y). x < y})"
  using assms
proof (induction as arbitrary: p bs)
  case Nil
  then have "a (length p) = 0" and "bs \<noteq> [] \<Longrightarrow> b (length p) = hd bs \<and> hd bs \<noteq> 0"
    and "bs = [] \<Longrightarrow> b (length p) = 0"
    by (auto simp: is_cstr_def nth_append hd_conv_nth dest: spec [of _ "length p"])
  then show ?case
    by (subst strcmp_from.simps) (cases bs; auto simp: word_neq_0_conv word_less_def)
next
  case (Cons x as)
  have ax: "a (length p) = x" "x \<noteq> 0"
    using Cons.prems(1) by (auto simp: is_cstr_def nth_append dest: spec [of _ "length p"])
  show ?case
  proof (cases bs)
    case Nil
    then have "b (length p) = 0" using Cons.prems(2) by (simp add: is_cstr_def)
    with ax Nil show ?thesis
      by (subst strcmp_from.simps) (auto simp: uint_0_iff uint_nonnegative leD)
  next
    case bs: (Cons y ys)
    have bx: "b (length p) = y"
      using Cons.prems(2) bs by (auto simp: is_cstr_def nth_append dest: spec [of _ "length p"])
    show ?thesis
    proof (cases "x = y")
      case True
      have "\<exists>r. strcmp_from a b (length (p @ [x])) = Some r
        \<and> (r = 0 \<longleftrightarrow> as = ys) \<and> (r < 0 \<longleftrightarrow> (as, ys) \<in> lexord {(x, y). x < y})"
        using Cons.prems bs True by (intro Cons.IH) auto
      with True ax bx bs show ?thesis
        by (subst strcmp_from.simps) auto
    next
      case False
      with ax bx bs show ?thesis
        by (subst strcmp_from.simps) (auto simp: word_less_def word_uint_eq_iff)
    qed
  qed
qed

section \<open>Numbers: correctness\<close>

text \<open>
  The reference: the digits of a number in a base, lowest first, at least one of them; and
  the value a list of digits, highest first, denotes.
\<close>

function ndigits :: "nat \<Rightarrow> nat \<Rightarrow> nat list" where
  "ndigits b n = n mod b # (if 2 \<le> b \<and> n div b \<noteq> 0 then ndigits b (n div b) else [])"
  by pat_completeness auto
termination
  by (relation "measure snd") (auto intro!: div_less_dividend intro: gr0I)

declare ndigits.simps [simp del]

definition digits_value :: "nat \<Rightarrow> nat list \<Rightarrow> nat" where
  "digits_value b ds = foldl (\<lambda>acc d. acc * b + d) 0 ds"

lemma digits_value_snoc [simp]: "digits_value b (ds @ [d]) = digits_value b ds * b + d"
  by (simp add: digits_value_def)

lemma ndigits_value: "2 \<le> b \<Longrightarrow> digits_value b (rev (ndigits b n)) = n"
proof (induction b n rule: ndigits.induct)
  case (1 b n)
  show ?case
  proof (cases "n div b = 0")
    case True
    then show ?thesis
      using "1.prems" by (subst ndigits.simps) (auto simp: digits_value_def div_eq_0_iff)
  next
    case False
    with 1 show ?thesis by (subst ndigits.simps) simp
  qed
qed

lemma ndigits_less: "2 \<le> b \<Longrightarrow> d \<in> set (ndigits b n) \<Longrightarrow> d < b"
proof (induction b n rule: ndigits.induct)
  case (1 b n)
  then show ?case by (subst (asm) ndigits.simps) (auto split: if_splits)
qed

lemma ndigits_length: "2 \<le> b \<Longrightarrow> n < b ^ k \<Longrightarrow> 0 < k \<Longrightarrow> length (ndigits b n) \<le> k"
proof (induction b n arbitrary: k rule: ndigits.induct)
  case (1 b n)
  show ?case
  proof (cases "n div b = 0")
    case True
    then show ?thesis using "1.prems" by (subst ndigits.simps) auto
  next
    case False
    then obtain k' where k: "k = Suc k'" "0 < k'"
      using "1.prems" by (cases k; cases "k - 1") (auto simp: div_eq_0_iff)
    then have "n div b < b ^ k'"
      using "1.prems" by (simp add: less_mult_imp_div_less mult.commute)
    with 1 False k show ?thesis by (subst ndigits.simps) simp
  qed
qed

lemma ndigits_no_leading_zero: "2 \<le> b \<Longrightarrow> 0 < n \<Longrightarrow> last (ndigits b n) \<noteq> 0"
proof (induction b n rule: ndigits.induct)
  case (1 b n)
  have ne: "ndigits b m \<noteq> []" for m by (subst ndigits.simps) simp
  show ?case
  proof (cases "n div b = 0")
    case True
    then show ?thesis using "1.prems" by (subst ndigits.simps) (auto simp: div_eq_0_iff)
  next
    case False
    with 1 ne show ?thesis by (subst ndigits.simps) simp
  qed
qed

text \<open>
  Interface of a digit loop: a do-while loop that appends the character of the lowest digit
  and divides. The kernel and the user library each have one; the client of the interface
  only needs that it ends with the digits of the number.
\<close>

locale radix_loop =
  fixes loop :: "u32 \<Rightarrow> u32 \<Rightarrow> u8 list \<Rightarrow> u8 list option"
    and chr :: "nat \<Rightarrow> u8"
  assumes loop_step: "loop base num nums =
    (let nums = nums @ [chr (unat (num mod base))]; num = num div base
     in if num \<noteq> 0 then loop base num nums else Some nums)"
begin

lemma loop_digits:
  assumes "2 \<le> unat base"
  shows "loop base num nums = Some (nums @ map chr (ndigits (unat base) (unat num)))"
proof (induction "unat num" arbitrary: num nums rule: less_induct)
  case less
  have q: "unat (num div base) = unat num div unat base" "unat (num mod base) = unat num mod unat base"
    by (simp_all add: unat_div_distrib unat_mod_distrib)
  show ?case
  proof (cases "num div base = 0")
    case True
    then have "unat num div unat base = 0" using q(1) by simp
    with True q(2) show ?thesis
      by (subst loop_step, subst ndigits.simps) simp
  next
    case False
    then have "0 < unat num div unat base" using q(1) by (metis gr0I unat_eq_zero)
    moreover from this have "unat num div unat base < unat num"
      using assms by (intro div_less_dividend) (auto intro: gr0I)
    ultimately have "loop base (num div base) (nums @ [chr (unat (num mod base))]) =
        Some ((nums @ [chr (unat (num mod base))]) @ map chr (ndigits (unat base) (unat (num div base))))"
      using q(1) by (intro less) simp
    with False \<open>0 < unat num div unat base\<close> assms show ?thesis
      by (subst loop_step, subst ndigits.simps) (simp add: q)
  qed
qed

end

interpretation kdigits: radix_loop digit_loop digits
  by unfold_locales (rule digit_loop.simps)

lemma digits_char: "d < 16 \<Longrightarrow> digits d = of_char (''0123456789abcdef'' ! d)"
  by (simp add: digits_def lit_def)

text \<open>The value of a digit character, and of a printed numeral in base \<open>b\<close>.\<close>

definition digit_val :: "u8 \<Rightarrow> nat" where
  "digit_val c = (if c \<le> 0x39 then unat c - 0x30 else unat c - 0x61 + 10)"

definition numeral_value :: "nat \<Rightarrow> u8 list \<Rightarrow> nat" where
  "numeral_value b cs = digits_value b (map digit_val cs)"

lemma digit_val_digits: "d < 16 \<Longrightarrow> digit_val (digits d) = d"
proof -
  have "\<forall>d\<in>set [0..<16]. digit_val (digits d) = d"
    by code_simp
  then show "d < 16 \<Longrightarrow> ?thesis" by simp
qed

lemma numeral_value_ndigits:
  assumes "2 \<le> b" "b \<le> 16"
  shows "numeral_value b (rev (map digits (ndigits b n))) = n"
proof -
  have "map digit_val (map digits (ndigits b n)) = ndigits b n"
    using assms by (auto intro!: map_idI digit_val_digits dest!: ndigits_less [OF assms(1)])
  then have "map digit_val (rev (map digits (ndigits b n))) = rev (ndigits b n)"
    by (metis rev_map)
  with assms(1) show ?thesis by (simp add: numeral_value_def ndigits_value)
qed

text \<open>What \<open>print_uint\<close> and \<open>print_sint\<close> send, as byte lists.\<close>

definition uint_text :: "nat \<Rightarrow> nat \<Rightarrow> u8 list" where
  "uint_text b n = rev (map digits (ndigits b n))"

definition sint_text :: "nat \<Rightarrow> int \<Rightarrow> u8 list" where
  "sint_text b i = (if i < 0 then [of_char (CHR ''-'')] else []) @ uint_text b (nat \<bar>i\<bar>)"

lemma uint_text_length: "2 \<le> b \<Longrightarrow> n < 2 ^ 32 \<Longrightarrow> length (uint_text b n) \<le> 32"
proof -
  assume "2 \<le> b" "n < 2 ^ 32"
  then have "n < b ^ 32"
    by (metis order_less_le_trans power_mono zero_le_numeral)
  with \<open>2 \<le> b\<close> show ?thesis by (simp add: uint_text_def ndigits_length)
qed

lemma unat_base: "unat (ucast (base :: u8) :: u32) = unat base"
  using unat_lt_pow [of base] by (simp add: unsigned_ucast_eq take_bit_nat_eq_self)

lemma emits_print_uint: "2 \<le> unat base \<Longrightarrow> emits (print_uint num base) (uint_text (unat base) (unat num))"
  using emits_put_bytes by (simp add: print_uint_def kdigits.loop_digits unat_base uint_text_def emits_def)

lemma unat_negated: "sint (num :: u32) < 0 \<Longrightarrow> unat (- num) = nat \<bar>sint num\<bar>"
proof -
  assume neg: "sint num < 0"
  have u: "take_bit 32 (uint num) = uint num"
    using uint_bounded [of num] by (intro take_bit_int_eq_self) simp_all
  have s: "sint num = uint num - 2 ^ 32"
    using neg u uint_nonnegative [of num]
    by (cases "bit (uint num) 31") (auto simp: sint_uint signed_take_bit_eq_take_bit_minus)
  have "num \<noteq> 0" using neg by auto
  then have "uint (- num) = 2 ^ 32 - uint num"
    using uint_bounded [of num] uint_nonnegative [of num]
    by (simp add: uint_word_ariths zmod_zminus1_eq_if uint_0_iff)
  with neg s show ?thesis by (simp flip: nat_uint_eq)
qed

lemma unat_nonneg_sint: "0 \<le> sint (num :: u32) \<Longrightarrow> nat (sint num) = unat num"
proof -
  assume nn: "0 \<le> sint num"
  have u: "take_bit 32 (uint num) = uint num"
    using uint_bounded [of num] by (intro take_bit_int_eq_self) simp_all
  have "sint num = uint num"
    using nn u uint_bounded [of num]
    by (cases "bit (uint num) 31") (auto simp: sint_uint signed_take_bit_eq_take_bit_minus)
  then show ?thesis by simp
qed

lemma emits_print_sint: "2 \<le> unat base \<Longrightarrow> emits (print_sint num base) (sint_text (unat base) (sint num))"
  using emits_put_bytes [of "sint_text (unat base) (sint num)"]
  by (cases "sint num < 0")
     (simp_all add: print_sint_def kdigits.loop_digits unat_base sint_text_def uint_text_def unat_negated
      unat_nonneg_sint emits_def)

lemma print_string_from_live:
  assumes "is_cstr str bs" "uart_live s" "i \<le> length bs"
  shows "\<exists>n. print_string_from str i s = Some (Ok () (emit n (drop i bs) s))"
  using assms(2,3)
proof (induction "length bs - i" arbitrary: i s)
  case 0
  then have "i = length bs" by simp
  moreover have "s = emit (mmio_n s) [] s" by (simp add: emit_def)
  ultimately show ?case
    using is_cstr_end [OF assms(1)] by (subst print_string_from.simps) auto
next
  case (Suc k)
  then have i: "i < length bs" by simp
  obtain n where n: "putchar (str i) s = Ok () (emit n [str i] s)"
    using putchar_live [OF Suc.prems(1)] by blast
  have "\<exists>n'. print_string_from str (Suc i) (emit n [str i] s) =
      Some (Ok () (emit n' (drop (Suc i) bs) (emit n [str i] s)))"
    using Suc by (intro Suc.hyps(1)) auto
  moreover have "drop i bs = str i # drop (Suc i) bs"
    using i is_cstr_nth [OF assms(1) i] by (simp add: Cons_nth_drop_Suc)
  ultimately show ?case
    using n is_cstr_nonzero [OF assms(1) i] by (subst print_string_from.simps) simp
qed

lemma emits_print_string: "is_cstr str bs \<Longrightarrow> emits (print_string str) bs"
  using print_string_from_live [of str bs _ 0] by (fastforce simp: print_string_def emits_def)

lemma emits_print_lit: "CHR 0x00 \<notin> set cs \<Longrightarrow> emits (print_string (lit cs)) (map of_char cs)"
  by (rule emits_print_string) (rule is_cstr_lit)

definition addr_text :: "u32 \<Rightarrow> u8 list" where
  "addr_text a = map of_char ''0x'' @ map (\<lambda>i. digits (unat (drop_bit i a AND 0xF))) [28, 24, 20, 16, 12, 8, 4, 0]"

lemma emits_print_addr: "emits (print_addr a) (addr_text a)"
  unfolding print_addr_def addr_text_def
  by (rule emits_seq [OF emits_print_lit emits_put_bytes]) simp

section \<open>Formats: correctness\<close>

text \<open>
  The reference for \<open>printf\<close>: the text a format and its arguments stand for. It is
  undefined when an argument is missing, has the wrong kind or is not a C string.
\<close>

fun conversion :: "char \<Rightarrow> va_arg \<Rightarrow> u8 list \<Rightarrow> bool" where
  "conversion f (VInt n) bs \<longleftrightarrow>
     (f = CHR ''d'' \<and> bs = sint_text 10 (sint n)) \<or> (f = CHR ''u'' \<and> bs = uint_text 10 (unat n))
     \<or> (f = CHR ''x'' \<and> bs = uint_text 16 (unat n)) \<or> (f = CHR ''p'' \<and> bs = addr_text n)
     \<or> (f = CHR ''c'' \<and> bs = [ucast n])"
| "conversion f (VStr str) bs \<longleftrightarrow> f = CHR ''s'' \<and> is_cstr str bs"

inductive formats :: "string \<Rightarrow> va_arg list \<Rightarrow> u8 list \<Rightarrow> bool" where
  fmt_end: "formats [] args []"
| fmt_char: "c \<noteq> CHR ''%'' \<Longrightarrow> formats fmt args out \<Longrightarrow> formats (c # fmt) args (of_char c # out)"
| fmt_conv: "conversion f a bs \<Longrightarrow> formats fmt args out \<Longrightarrow>
     formats (CHR ''%'' # f # fmt) (a # args) (bs @ out)"
| fmt_null: "formats [CHR ''%''] args (map of_char (''printf: format specifier followed by null'' @ [CHR 0x0A]))"
| fmt_unknown: "f \<notin> set ''duxpsc'' \<Longrightarrow>
     formats (CHR ''%'' # f # fmt) args (map of_char ''unknown specifier'')"

text \<open>The text sent is exactly the one the format stands for.\<close>

lemma emits_printf_body: "formats fmt args out \<Longrightarrow> emits (printf_body fmt args) out"
proof (induction rule: formats.induct)
  case (fmt_end args)
  show ?case using emits_nil by (simp add: emits_def)
next
  case (fmt_char c fmt args out)
  then show ?case using emits_seq [OF emits_putchar fmt_char.IH] by (simp add: emits_def)
next
  case (fmt_conv f a bs fmt args out)
  note seq = emits_seq [OF _ fmt_conv.IH]
  show ?case
  proof (cases a)
    case (VInt n)
    with fmt_conv.hyps show ?thesis
      using seq [OF emits_print_sint [of 10 n]] seq [OF emits_print_uint [of 10 n]]
        seq [OF emits_print_uint [of 16 n]] seq [OF emits_print_addr [of n]] seq [OF emits_putchar [of "ucast n"]]
      by (auto simp: emits_def)
  next
    case (VStr str)
    with fmt_conv.hyps show ?thesis
      using seq [OF emits_print_string [of str bs]] by (auto simp: emits_def)
  qed
next
  case (fmt_null args)
  have "emits (print_string (lit (''printf: format specifier followed by null'' @ [CHR 0x0A])))
      (map of_char (''printf: format specifier followed by null'' @ [CHR 0x0A]))"
    by (rule emits_print_lit) simp
  then show ?case by (simp add: emits_def)
next
  case (fmt_unknown f fmt args)
  have "emits (print_string (lit ''unknown specifier'')) (map of_char ''unknown specifier'')"
    by (rule emits_print_lit) simp
  with fmt_unknown show ?case by (simp add: emits_def)
qed

section \<open>Properties\<close>

text \<open>A console whose transmitter is always idle, for concrete runs.\<close>

definition idle_console :: console where
  "idle_console = \<lparr>csrs = (\<lambda>_. 0), gprs = (\<lambda>_. 0), mem = (\<lambda>_. 0), clock = (\<lambda>_. 0), instant = 0,
     mmio_in = (\<lambda>_. UART_LSR_TX_IDLE), mmio_n = 0, mmio_out = [], hang = False\<rparr>"

lemma uart_live_idle: "uart_live idle_console"
  by (auto simp: uart_live_def idle_console_def UART_LSR_TX_IDLE_def)

text \<open>
  C9 (roundtrip). For every number and every base from 2 to 16, \<open>print_uint\<close> ends, sends a
  numeral without leading zeros whose value is the number, and never needs more than the 32
  characters of its buffer.
\<close>

theorem print_uint_roundtrip:
  assumes "uart_live s" "2 \<le> unat base" "unat base \<le> 16"
  shows "\<exists>n bs. print_uint num base s = Ok () (emit n bs s)
    \<and> numeral_value (unat base) bs = unat num \<and> 0 < length bs \<and> length bs \<le> 32
    \<and> (num \<noteq> 0 \<longrightarrow> hd bs \<noteq> of_char (CHR ''0''))"
proof -
  let ?bs = "uint_text (unat base) (unat num)"
  obtain n where "print_uint num base s = Ok () (emit n ?bs s)"
    by (rule emitsE [OF emits_print_uint [OF assms(2)] assms(1)])
  moreover have "numeral_value (unat base) ?bs = unat num"
    using assms by (simp add: uint_text_def numeral_value_ndigits)
  moreover have "length ?bs \<le> 32"
    using assms unat_u32_lt [of num] by (intro uint_text_length) simp_all
  moreover have ne: "ndigits (unat base) (unat num) \<noteq> []"
    by (subst ndigits.simps) simp
  moreover have "hd ?bs \<noteq> of_char (CHR ''0'')" if "num \<noteq> 0"
  proof -
    let ?d = "last (ndigits (unat base) (unat num))"
    have "?d < 16" "?d \<noteq> 0"
      using ne assms that ndigits_less [OF assms(2), of ?d "unat num"]
      by (auto simp: ndigits_no_leading_zero unat_gt_0)
    moreover have "digit_val (of_char (CHR ''0'')) = 0"
      by (simp add: digit_val_def)
    ultimately have "digit_val (digits ?d) \<noteq> digit_val (of_char (CHR ''0''))"
      by (simp add: digit_val_digits)
    with ne show ?thesis by (auto simp: uint_text_def hd_rev last_map)
  qed
  ultimately show ?thesis
    by (intro exI [of _ n] exI [of _ ?bs]) (simp add: uint_text_def)
qed

theorem print_uint_roundtrip_witness:
  "\<exists>n bs. print_uint 0xBEEF 16 idle_console = Ok () (emit n bs idle_console)
    \<and> numeral_value 16 bs = 0xBEEF \<and> length bs \<le> 32"
  using print_uint_roundtrip [OF uart_live_idle, where base = 16 and num = "0xBEEF"] by auto

text \<open>
  C10 (roundtrip). Signed output is right at every 32-bit value, the most negative one
  included: a minus sign exactly for the negative numbers, then the numeral of the magnitude,
  in at most 33 of the 34 characters of the buffer.
\<close>

theorem print_sint_roundtrip:
  assumes "uart_live s" "2 \<le> unat base" "unat base \<le> 16"
  shows "\<exists>n sign bs. print_sint num base s = Ok () (emit n (sign @ bs) s)
    \<and> sint num = (if sign = [] then 1 else - 1) * int (numeral_value (unat base) bs)
    \<and> sign \<in> {[], [of_char (CHR ''-'')]} \<and> (sign \<noteq> [] \<longleftrightarrow> sint num < 0)
    \<and> length (sign @ bs) \<le> 33"
proof -
  let ?sign = "if sint num < 0 then [of_char (CHR ''-'')] else [] :: u8 list"
  let ?bs = "uint_text (unat base) (nat \<bar>sint num\<bar>)"
  obtain n where "print_sint num base s = Ok () (emit n (?sign @ ?bs) s)"
    by (rule emitsE [OF emits_print_sint [OF assms(2), unfolded sint_text_def] assms(1)])
  moreover have "numeral_value (unat base) ?bs = nat \<bar>sint num\<bar>"
    using assms by (simp add: uint_text_def numeral_value_ndigits)
  moreover have "nat \<bar>sint num\<bar> < 2 ^ 32"
    using sint_ge [of num] sint_lt [of num] by (auto simp: nat_less_iff abs_if)
  then have "length ?bs \<le> 32"
    using assms by (intro uint_text_length)
  ultimately show ?thesis
    by (intro exI [of _ n] exI [of _ ?sign] exI [of _ ?bs]) auto
qed

theorem print_sint_roundtrip_witness:
  "\<exists>n sign bs. print_sint 0x80000000 10 idle_console = Ok () (emit n (sign @ bs) idle_console)
    \<and> sign \<noteq> [] \<and> numeral_value 10 bs = 2147483648"
  using print_sint_roundtrip [OF uart_live_idle, where base = 10 and num = "0x80000000"] by fastforce

text \<open>
  C11 (functional). On C strings \<open>strcmp\<close> returns: 0 exactly for equal strings, a negative
  number exactly when the first sorts before the second (bytes compared unsigned).
\<close>

theorem strcmp_lexicographic:
  assumes "is_cstr a as" "is_cstr b bs"
  shows "\<exists>r. strcmp a b = Some r \<and> (r = 0 \<longleftrightarrow> as = bs) \<and> (r < 0 \<longleftrightarrow> (as, bs) \<in> lexord {(x, y). x < y})"
  using strcmp_from_cstr [of a "[]" as b bs] assms by (simp add: strcmp_def)

theorem strcmp_lexicographic_witness:
  "\<exists>r. strcmp (lit ''echo'') (lit ''hello'') = Some r \<and> r \<noteq> 0 \<and> r < 0"
proof -
  have "is_cstr (lit ''echo'') (map of_char ''echo'')" "is_cstr (lit ''hello'') (map of_char ''hello'')"
    by (rule is_cstr_lit; simp)+
  from strcmp_lexicographic [OF this] show ?thesis by (auto simp: lexord_cons_cons)
qed

end
