(* ===== verification/Spinlock.thy ===== *)
theory Spinlock
  imports Console
begin

text \<open>
  Spinlocks as one hart executes them (\<^verbatim>\<open>kernel/spinlock.c\<close>), the per-CPU nesting of
  interrupt disabling, and the parts of \<^verbatim>\<open>kernel/kprint.c\<close> that take the print lock. A lock
  held elsewhere makes \<open>lock\<close> spin, which is the outcome \<open>Blocked\<close> here; the interleaving of
  several harts on one lock is the subject of theory \<open>Lock_Protocol\<close>.
\<close>

section \<open>CPUs and locks\<close>

text \<open>The callee-saved registers \<^verbatim>\<open>swtch\<close> keeps (\<^verbatim>\<open>struct context\<close>).\<close>

record kcontext =
  x_ra :: u32
  x_sp :: u32
  x_s0 :: u32
  x_s1 :: u32
  x_s2 :: u32
  x_s3 :: u32
  x_s4 :: u32
  x_s5 :: u32
  x_s6 :: u32
  x_s7 :: u32
  x_s8 :: u32
  x_s9 :: u32
  x_s10 :: u32
  x_s11 :: u32

text \<open>
  \<^verbatim>\<open>struct cpu\<close>; a pointer to a process is its index in the process table, a pointer to
  a CPU its index in \<^verbatim>\<open>cpus\<close>.
\<close>

record cpu =
  c_id :: int
  c_depth :: int
  c_intena :: u32
  c_proc :: "nat option"
  c_context :: kcontext

record spinlock =
  lk_lock :: u32
  lk_cpu :: "nat option"
  lk_name :: string

text \<open>The spinlock objects of the kernel: four globals, one per process, one in the clock.\<close>

datatype lockid = Mem_lock | Print_lock | Pid_lock | Wait_lock | Ticks_lock | Proc_lock nat

record lockst = console +
  cpus :: "nat \<Rightarrow> cpu"
  locks :: "lockid \<Rightarrow> spinlock"

definition NCPU :: nat where "NCPU = 4"

definition cpu_id :: "'a machine_scheme \<Rightarrow> int" where
  "cpu_id s = sint (r_tp s)"

definition this_cpu :: "'a machine_scheme \<Rightarrow> nat" where
  "this_cpu s = unat (r_tp s)"

definition set_cpu :: "nat \<Rightarrow> (cpu \<Rightarrow> cpu) \<Rightarrow> 'a lockst_scheme \<Rightarrow> 'a lockst_scheme" where
  "set_cpu c f s = s\<lparr>cpus := (cpus s)(c := f (cpus s c))\<rparr>"

definition set_lock :: "lockid \<Rightarrow> (spinlock \<Rightarrow> spinlock) \<Rightarrow> 'a lockst_scheme \<Rightarrow> 'a lockst_scheme" where
  "set_lock lk f s = s\<lparr>locks := (locks s)(lk := f (locks s lk))\<rparr>"

section \<open>Operations\<close>

definition atomic_swap :: "lockid \<Rightarrow> u32 \<Rightarrow> 'a lockst_scheme \<Rightarrow> u32 \<times> 'a lockst_scheme" where
  "atomic_swap lk new_val s = (lk_lock (locks s lk), set_lock lk (\<lambda>l. l\<lparr>lk_lock := new_val\<rparr>) s)"

definition init_lock :: "lockid \<Rightarrow> string \<Rightarrow> 'a lockst_scheme \<Rightarrow> 'a lockst_scheme" where
  "init_lock lk name s = set_lock lk (\<lambda>_. \<lparr>lk_lock = 0, lk_cpu = None, lk_name = name\<rparr>) s"

definition push_off :: "'a lockst_scheme \<Rightarrow> 'a lockst_scheme" where
  "push_off s =
     (let sstatus = r_sstatus s;
          s = interrupt_off s;
          c = this_cpu s;
          s = (if c_depth (cpus s c) = 0
               then set_cpu c (\<lambda>u. u\<lparr>c_intena := sstatus AND SSTATUS_SIE\<rparr>) s else s)
      in set_cpu c (\<lambda>u. u\<lparr>c_depth := c_depth u + 1\<rparr>) s)"

definition pop_off :: "'a lockst_scheme \<Rightarrow> (unit, 'a lockst_scheme) res" where
  "pop_off s =
     (let c = this_cpu s
      in if is_interrupt s then panic ''pop_off - interruptable'' s
         else if c_depth (cpus s c) < 1 then panic ''push_off depth less than 1'' s
         else (let s = set_cpu c (\<lambda>u. u\<lparr>c_depth := c_depth u - 1\<rparr>) s
               in if c_depth (cpus s c) = 0 \<and> c_intena (cpus s c) \<noteq> 0
                  then Ok () (interrupt_on s) else Ok () s))"

definition holding :: "lockid \<Rightarrow> 'a lockst_scheme \<Rightarrow> bool" where
  "holding lk s \<longleftrightarrow> lk_lock (locks s lk) \<noteq> 0 \<and> lk_cpu (locks s lk) = Some (this_cpu s)"

text \<open>
  The loop of \<open>lock\<close> swaps 1 into the lock word until it gets 0 back. Run by one hart
  alone it ends at the first swap or never.
\<close>

definition lock_spin :: "lockid \<Rightarrow> unit \<Rightarrow> 'a lockst_scheme \<Rightarrow> (unit + unit, 'a lockst_scheme) res" where
  "lock_spin lk = (\<lambda>_ s. let (old, s) = atomic_swap lk 1 s in if old \<noteq> 0 then Ok (Inl ()) s else Ok (Inr ()) s)"

definition lock :: "lockid \<Rightarrow> 'a lockst_scheme \<Rightarrow> (unit, 'a lockst_scheme) res" where
  "lock lk s =
     (let s = push_off s
      in if holding lk s then panic ''trying to lock locked spinlock'' s
         else kbind (kloop (lock_spin lk) () s) (\<lambda>_ s.
           Ok () (set_lock lk (\<lambda>l. l\<lparr>lk_cpu := Some (this_cpu s)\<rparr>) s)))"

definition unlock :: "lockid \<Rightarrow> 'a lockst_scheme \<Rightarrow> (unit, 'a lockst_scheme) res" where
  "unlock lk s =
     (if \<not> holding lk s then panic ''trying to release unlocked spinlock'' s
      else (let s = set_lock lk (\<lambda>l. l\<lparr>lk_cpu := None\<rparr>) s;
                (old, s) = atomic_swap lk 0 s
            in pop_off s))"

section \<open>Printing under the print lock\<close>

definition printf :: "string \<Rightarrow> va_arg list \<Rightarrow> 'a lockst_scheme \<Rightarrow> (unit, 'a lockst_scheme) res" where
  "printf fmt args s =
     kbind (if \<not> hang s then lock Print_lock s else Ok () s) (\<lambda>_ s.
     kbind (printf_body fmt args s) (\<lambda>_ s.
       if \<not> hang s then unlock Print_lock s else Ok () s))"

definition error :: "string \<Rightarrow> 'a lockst_scheme \<Rightarrow> (unit, 'a lockst_scheme) res" where
  "error str s = printf (''error: %s'' @ [CHR 0x0A]) [VStr (lit str)] s"

definition printint :: "u32 \<Rightarrow> u8 \<Rightarrow> 'a lockst_scheme \<Rightarrow> (unit, 'a lockst_scheme) res" where
  "printint num base s =
     (if \<not> (base = 2 \<or> base = 8 \<or> base = 10 \<or> base = 16) then error ''printint: invalid base'' s
      else print_sint num base s)"

section \<open>Entering and leaving a critical section\<close>

lemma set_cpu_fields [simp]:
  "csrs (set_cpu c f s) = csrs s" "gprs (set_cpu c f s) = gprs s" "mem (set_cpu c f s) = mem s"
  "mmio_in (set_cpu c f s) = mmio_in s" "hang (set_cpu c f s) = hang s"
  "locks (set_cpu c f s) = locks s" "cpus (set_cpu c f s) = (cpus s)(c := f (cpus s c))"
  "lockst.more (set_cpu c f s) = lockst.more s"
  by (simp_all add: set_cpu_def)

lemma set_lock_fields [simp]:
  "csrs (set_lock lk f s) = csrs s" "gprs (set_lock lk f s) = gprs s" "mem (set_lock lk f s) = mem s"
  "mmio_in (set_lock lk f s) = mmio_in s" "hang (set_lock lk f s) = hang s"
  "cpus (set_lock lk f s) = cpus s" "locks (set_lock lk f s) = (locks s)(lk := f (locks s lk))"
  "lockst.more (set_lock lk f s) = lockst.more s"
  by (simp_all add: set_lock_def)

lemma csrw_console [simp]:
  "hang (csrw c v s) = hang s" "mmio_in (csrw c v s) = mmio_in s" "mmio_n (csrw c v s) = mmio_n s"
  "mmio_out (csrw c v s) = mmio_out s"
  by (simp_all add: csrw_def)

lemma csrw_lockst [simp]:
  "cpus (csrw c v s) = cpus s" "locks (csrw c v s) = locks s" "lockst.more (csrw c v s) = lockst.more s"
  by (simp_all add: csrw_def)

text \<open>A free lock, and a CPU whose interrupt nesting is consistent.\<close>

definition lk_free :: "lockid \<Rightarrow> 'a lockst_scheme \<Rightarrow> bool" where
  "lk_free lk s \<longleftrightarrow> lk_lock (locks s lk) = 0 \<and> lk_cpu (locks s lk) = None"

definition intr_ok :: "'a lockst_scheme \<Rightarrow> bool" where
  "intr_ok s \<longleftrightarrow> 0 \<le> c_depth (cpus s (this_cpu s))
     \<and> (0 < c_depth (cpus s (this_cpu s)) \<longrightarrow> \<not> is_interrupt s)"

text \<open>
  The only trace a critical section leaves behind: \<open>push_off\<close> at nesting depth 0 has
  recorded whether interrupts were on.
\<close>

definition touch :: "'a lockst_scheme \<Rightarrow> 'a lockst_scheme" where
  "touch s = set_cpu (this_cpu s) (\<lambda>u. u\<lparr>c_intena :=
     (if c_depth u = 0 then r_sstatus s AND SSTATUS_SIE else c_intena u)\<rparr>) s"

text \<open>The state inside the critical section.\<close>

definition enter :: "lockid \<Rightarrow> 'a lockst_scheme \<Rightarrow> 'a lockst_scheme" where
  "enter lk s = set_lock lk (\<lambda>l. l\<lparr>lk_lock := 1, lk_cpu := Some (this_cpu s)\<rparr>) (push_off s)"

lemmas hart_defs = this_cpu_def r_tp_def gprr_def csrr_def csr_defs

lemma this_cpu_simps [simp]:
  "this_cpu (set_cpu c f s) = this_cpu s" "this_cpu (set_lock lk g s) = this_cpu s"
  "this_cpu (csrw r v s) = this_cpu s"
  by (simp_all add: this_cpu_def r_tp_def gprr_def)

lemma interrupt_csrw: "interrupt_off s = csrw SSTATUS (csrr SSTATUS s AND NOT SSTATUS_SIE) s"
  "interrupt_on s = csrw SSTATUS (csrr SSTATUS s OR SSTATUS_SIE) s"
  by (simp_all add: interrupt_off_def interrupt_on_def csr_defs)

lemma push_off_fields [simp]:
  "locks (push_off s) = locks s" "gprs (push_off s) = gprs s" "mem (push_off s) = mem s"
  "hang (push_off s) = hang s" "mmio_in (push_off s) = mmio_in s"
  "this_cpu (push_off s) = this_cpu s" "lockst.more (push_off s) = lockst.more s"
  by (simp_all add: push_off_def Let_def interrupt_csrw)

lemma push_off_cpus:
  "cpus (push_off s) = (cpus s)(this_cpu s := (cpus (touch s) (this_cpu s))
     \<lparr>c_depth := c_depth (cpus s (this_cpu s)) + 1\<rparr>)"
  by (simp add: push_off_def Let_def interrupt_csrw touch_def csr_defs)

lemma push_off_csrs: "csrs (push_off s) = (csrs s)(SSTATUS := csrr SSTATUS s AND NOT SSTATUS_SIE)"
  by (simp add: push_off_def Let_def interrupt_csrw) (simp add: csrw_def)

lemma enter_eq:
  "enter lk s = s\<lparr>csrs := (csrs s)(SSTATUS := csrr SSTATUS s AND NOT SSTATUS_SIE),
     cpus := (cpus s)(this_cpu s := (cpus (touch s) (this_cpu s))
       \<lparr>c_depth := c_depth (cpus s (this_cpu s)) + 1\<rparr>),
     locks := (locks s)(lk := (locks s lk)\<lparr>lk_lock := 1, lk_cpu := Some (this_cpu s)\<rparr>)\<rparr>"
  by (simp add: enter_def push_off_def Let_def interrupt_csrw touch_def set_lock_def set_cpu_def csrw_def
      csr_defs csrr_def hart_defs)

lemma lock_fields_commute: "l\<lparr>lk_cpu := c, lk_lock := w\<rparr> = l\<lparr>lk_lock := w, lk_cpu := c\<rparr>"
  by simp

lemma lock_spin_taken: "lk_lock (locks s lk) \<noteq> 0 \<Longrightarrow> kloop (lock_spin lk) () s = Blocked s"
  by (rule kloop_diverges [where I = "\<lambda>_ s. lk_lock (locks s lk) \<noteq> 0"]) (auto simp: lock_spin_def atomic_swap_def)

lemma lock_spin_free:
  "lk_lock (locks s lk) = 0 \<Longrightarrow> kloop (lock_spin lk) () s = Ok () (set_lock lk (\<lambda>l. l\<lparr>lk_lock := 1\<rparr>) s)"
  by (rule kloop_exit) (simp add: lock_spin_def atomic_swap_def)

lemma lock_word_free: "lk_lock (locks s lk) = 0 \<Longrightarrow> lock lk s = Ok () (enter lk s)"
  by (simp add: lock_def holding_def enter_def Let_def lock_spin_free) (simp add: set_lock_def)

lemma lock_free: "lk_free lk s \<Longrightarrow> lock lk s = Ok () (enter lk s)"
  by (simp add: lk_free_def lock_word_free)

lemma lock_taken:
  "lk_lock (locks s lk) \<noteq> 0 \<Longrightarrow> lk_cpu (locks s lk) \<noteq> Some (this_cpu s) \<Longrightarrow> lock lk s = Blocked (push_off s)"
  by (simp add: lock_def holding_def Let_def lock_spin_taken)


text \<open>Releasing restores everything the critical section has not changed itself.\<close>

lemma pop_off_bracket:
  assumes ok: "intr_ok s" and same: "cpus t = cpus (push_off s)" "csrs t = csrs (push_off s)" "gprs t = gprs s"
  shows "pop_off t = Ok () (t\<lparr>csrs := csrs s, cpus := cpus (touch s)\<rparr>)"
proof -
  let ?c = "this_cpu s" and ?d = "c_depth (cpus s (this_cpu s))"
  let ?v = "set_cpu ?c (\<lambda>w. w\<lparr>c_depth := c_depth w - 1\<rparr>) t"
  have c: "this_cpu t = ?c" using same(3) by (simp add: hart_defs)
  have c0: "csrs t = (csrs s)(SSTATUS := csrr SSTATUS s AND NOT SSTATUS_SIE)"
    using same(2) by (simp add: push_off_csrs)
  then have off: "\<not> is_interrupt t" by (simp add: is_interrupt_def csr_defs csrr_def)
  have cpu: "cpus ?v = cpus (touch s)" using same(1) by (simp add: push_off_cpus touch_def)
  have d: "\<not> c_depth (cpus t ?c) < 1" using same(1) ok by (simp add: push_off_cpus intr_ok_def)
  have pop: "pop_off t = (if ?d = 0 \<and> is_interrupt s then Ok () (interrupt_on ?v) else Ok () ?v)"
    using off d c fun_cong [OF cpu, of ?c]
    by (auto simp: pop_off_def Let_def touch_def is_interrupt_def csr_defs)
  show ?thesis
  proof (cases "?d = 0 \<and> is_interrupt s")
    case True
    then have "interrupt_on ?v = ?v\<lparr>csrs := csrs s\<rparr>"
      using c0 by (simp add: interrupt_csrw csrw_def csrr_def is_interrupt_def csr_defs SIE_clear_set)
    with True pop cpu show ?thesis by (simp add: set_cpu_def)
  next
    case False
    then have off_s: "\<not> is_interrupt s" using ok by (auto simp: intr_ok_def)
    then have "csrs s = csrs t"
      using c0 by (simp add: is_interrupt_def csr_defs csrr_def and_not_disjoint)
    moreover have "pop_off t = Ok () ?v" using pop off_s by simp
    ultimately show ?thesis using cpu by (simp add: set_cpu_def)
  qed
qed

lemma unlock_bracket:
  assumes free: "lk_free lk s" and ok: "intr_ok s"
    and same: "cpus t = cpus (enter lk s)" "locks t = locks (enter lk s)" "csrs t = csrs (enter lk s)"
      "gprs t = gprs (enter lk s)"
  shows "unlock lk t = Ok () (t\<lparr>csrs := csrs s, cpus := cpus (touch s), locks := locks s\<rparr>)"
proof -
  have "this_cpu t = this_cpu s"
    using same(4) by (simp add: this_cpu_def r_tp_def gprr_def enter_def)
  then have hold: "holding lk t"
    using same(2) by (simp add: holding_def enter_def)
  let ?u = "t\<lparr>locks := locks s\<rparr>"
  have "unlock lk t = pop_off ?u"
    using hold free same(2)
    by (simp add: unlock_def atomic_swap_def Let_def set_lock_def enter_def lk_free_def fun_upd_idem)
  also have "\<dots> = Ok () (?u\<lparr>csrs := csrs s, cpus := cpus (touch s)\<rparr>)"
    using same by (intro pop_off_bracket [OF ok]) (simp_all add: enter_def)
  finally show ?thesis by simp
qed

text \<open>
  What a kernel function may leave behind besides its result: console output and, outside
  critical sections, the recorded interrupt state of this CPU. \<open>noise s t\<close>: nothing else differs.
\<close>

definition noise :: "'a lockst_scheme \<Rightarrow> 'a lockst_scheme \<Rightarrow> bool" where
  "noise s t \<longleftrightarrow> (\<exists>n out i. t = s\<lparr>mmio_n := n, mmio_out := out,
     cpus := (cpus s)(this_cpu s := (cpus s (this_cpu s))
       \<lparr>c_intena := (if c_depth (cpus s (this_cpu s)) = 0 then i else c_intena (cpus s (this_cpu s)))\<rparr>)\<rparr>)"

lemma noise_refl [simp]: "noise s s"
  unfolding noise_def
  by (rule exI [of _ "mmio_n s"], rule exI [of _ "mmio_out s"],
      rule exI [of _ "c_intena (cpus s (this_cpu s))"]) simp

lemma noise_trans [trans]: "noise s t \<Longrightarrow> noise t u \<Longrightarrow> noise s u"
proof -
  assume "noise s t" "noise t u"
  then obtain n out i m out' j where t: "t = s\<lparr>mmio_n := n, mmio_out := out, cpus := (cpus s)(this_cpu s := (cpus s (this_cpu s))
      \<lparr>c_intena := (if c_depth (cpus s (this_cpu s)) = 0 then i else c_intena (cpus s (this_cpu s)))\<rparr>)\<rparr>"
    and u: "u = t\<lparr>mmio_n := m, mmio_out := out', cpus := (cpus t)(this_cpu t := (cpus t (this_cpu t))
      \<lparr>c_intena := (if c_depth (cpus t (this_cpu t)) = 0 then j else c_intena (cpus t (this_cpu t)))\<rparr>)\<rparr>"
    unfolding noise_def by blast
  show "noise s u"
    unfolding noise_def u by (rule exI [of _ m], rule exI [of _ out'], rule exI [of _ j]) (simp add: t hart_defs)
qed

lemma noise_touch: "noise s (touch s)"
  unfolding noise_def touch_def
  by (rule exI [of _ "mmio_n s"], rule exI [of _ "mmio_out s"], rule exI [of _ "r_sstatus s AND SSTATUS_SIE"])
    (simp add: set_cpu_def)

lemma noise_emit: "noise s (emit n bs s)"
  unfolding noise_def emit_def
  by (rule exI, rule exI, rule exI [of _ "c_intena (cpus s (this_cpu s))"]) simp

text \<open>A state in which a kernel function can run: the console works, locks nest properly.\<close>

definition kctx :: "'a lockst_scheme \<Rightarrow> bool" where
  "kctx s \<longleftrightarrow> uart_live s \<and> intr_ok s \<and> (hang s \<or> lk_free Print_lock s) \<and> this_cpu s < NCPU"

lemma noise_fields:
  assumes "noise s t"
  shows "csrs t = csrs s" "gprs t = gprs s" "mem t = mem s" "clock t = clock s" "instant t = instant s"
    "mmio_in t = mmio_in s" "hang t = hang s" "locks t = locks s" "lockst.more t = lockst.more s"
    "this_cpu t = this_cpu s" "c_depth (cpus t c) = c_depth (cpus s c)"
  using assms by (auto simp: noise_def hart_defs)

text \<open>Inside a critical section only the console changes.\<close>

lemma noise_cpus: "noise s t \<Longrightarrow> c_depth (cpus s (this_cpu s)) \<noteq> 0 \<Longrightarrow> cpus t = cpus s"
  by (auto simp: noise_def)

lemma noise_kctx [simp]: "noise s t \<Longrightarrow> kctx t = kctx s"
  by (simp add: kctx_def uart_live_def intr_ok_def is_interrupt_def lk_free_def noise_fields csr_defs csrr_def)

lemma noise_lk_free: "noise s t \<Longrightarrow> lk_free lk t = lk_free lk s"
  by (simp add: lk_free_def noise_fields)

lemma formats_prefix:
  "CHR ''%'' \<notin> set cs \<Longrightarrow> formats fmt args out \<Longrightarrow> formats (cs @ fmt) args (map of_char cs @ out)"
  by (induction cs) (auto intro: formats.intros)

lemma formats_text: "CHR ''%'' \<notin> set cs \<Longrightarrow> formats cs args (map of_char cs)"
  using formats_prefix [OF _ fmt_end, of cs args] by simp

lemma formats_str:
  "is_cstr str bs \<Longrightarrow> formats fmt args out \<Longrightarrow> formats (''%s'' @ fmt) (VStr str # args) (bs @ out)"
  using fmt_conv [of "CHR ''s''" "VStr str" bs fmt args out] by simp

lemma printf_formats:
  assumes fmt: "formats fmt args out" and k: "kctx s"
  shows "\<exists>t. printf fmt args s = Ok () t \<and> noise s t
    \<and> mmio_out t = mmio_out s @ map (Pair (UART_REG UART_THR)) out"
proof (cases "hang s")
  case True
  obtain n where "printf_body fmt args s = Ok () (emit n out s)"
    using emitsE [OF emits_printf_body [OF fmt]] k by (auto simp: kctx_def)
  with True show ?thesis
    using noise_emit [of s n out] by (auto simp: printf_def emit_def)
next
  case False
  with k have free: "lk_free Print_lock s" and ok: "intr_ok s" and live: "uart_live s"
    by (auto simp: kctx_def)
  let ?e = "enter Print_lock s"
  have "uart_live ?e" using live by (simp add: uart_live_def enter_def)
  then obtain n where n: "printf_body fmt args ?e = Ok () (emit n out ?e)"
    using emitsE [OF emits_printf_body [OF fmt]] by blast
  have "unlock Print_lock (emit n out ?e) =
    Ok () ((emit n out ?e)\<lparr>csrs := csrs s, cpus := cpus (touch s), locks := locks s\<rparr>)"
    by (rule unlock_bracket [OF free ok]) (simp_all add: emit_def)
  moreover have "(emit n out ?e)\<lparr>csrs := csrs s, cpus := cpus (touch s), locks := locks s\<rparr> = emit n out (touch s)"
    by (simp add: enter_eq emit_def touch_def set_cpu_def)
  moreover have "\<not> hang (emit n out ?e)" using False by (simp add: emit_def enter_def)
  ultimately have "printf fmt args s = Ok () (emit n out (touch s))"
    using False n by (simp add: printf_def lock_free [OF free])
  moreover have "noise s (emit n out (touch s))"
    using noise_trans [OF noise_touch noise_emit] .
  ultimately show ?thesis by (auto simp: touch_def set_cpu_def)
qed

lemma error_noise:
  assumes "CHR 0x00 \<notin> set str" "kctx s"
  shows "\<exists>t. error str s = Ok () t \<and> noise s t"
proof -
  have "formats (''error: '' @ ''%s'' @ [CHR 0x0A]) [VStr (lit str)]
      (map of_char ''error: '' @ map of_char str @ map of_char [CHR 0x0A])"
    by (intro formats_prefix formats_str formats_text is_cstr_lit assms(1)) simp_all
  from printf_formats [OF this assms(2)] show ?thesis
    by (auto simp: error_def)
qed

lemma panic_not_Ok: "panic str s \<noteq> Ok a t"
  by (auto simp: panic_def Let_def kbind_eq_Ok simp del: printf_body.simps)

lemma panic_panics:
  assumes "CHR 0x00 \<notin> set str" "uart_live s"
  shows "\<exists>t. panic str s = Panic str t \<and> hang t \<and> \<not> is_interrupt t \<and> locks t = locks s"
proof -
  let ?s = "(interrupt_off s)\<lparr>hang := True\<rparr>"
  have "formats (''KERNEL PANIC (cpu '' @ CHR ''%'' # CHR ''d'' # (''): '' @ ''%s'' @ [CHR 0x0A]))
      [VInt (r_tp ?s), VStr (lit str)]
      (map of_char ''KERNEL PANIC (cpu '' @ sint_text 10 (sint (r_tp ?s)) @ map of_char ''): '' @ map of_char str @ map of_char [CHR 0x0A])"
    by (intro formats_prefix fmt_conv formats_str formats_text is_cstr_lit assms(1)) simp_all
  moreover have "uart_live ?s" using assms(2) by (simp add: uart_live_def interrupt_csrw)
  ultimately obtain n bs where
    "printf_body (''KERNEL PANIC (cpu %d): %s'' @ [CHR 0x0A]) [VInt (r_tp ?s), VStr (lit str)] ?s = Ok () (emit n bs ?s)"
    using emitsE [OF emits_printf_body] by (simp del: printf_body.simps) blast
  then have "panic str s = Panic str (emit n bs ?s)"
    by (simp add: panic_def Let_def del: printf_body.simps)
  then show ?thesis
    by (intro exI [of _ "emit n bs ?s"])
       (simp add: emit_def is_interrupt_def interrupt_csrw csr_defs csrr_def csrw_def)
qed

section \<open>Nested critical sections\<close>

text \<open>The state of a hart that holds exactly the locks \<open>H\<close>, taken from state \<open>s\<close>.\<close>

definition inside :: "lockid set \<Rightarrow> 'a lockst_scheme \<Rightarrow> 'a lockst_scheme" where
  "inside H s = s\<lparr>csrs := (if H = {} then csrs s else (csrs s)(SSTATUS := csrr SSTATUS s AND NOT SSTATUS_SIE)),
     cpus := (cpus s)(this_cpu s := (cpus (touch s) (this_cpu s))
       \<lparr>c_depth := c_depth (cpus s (this_cpu s)) + int (card H)\<rparr>),
     locks := (\<lambda>l. if l \<in> H then (locks s l)\<lparr>lk_lock := 1, lk_cpu := Some (this_cpu s)\<rparr> else locks s l)\<rparr>"

lemma inside_empty: "inside {} s = touch s"
  by (simp add: inside_def touch_def set_cpu_def)

lemma this_cpu_inside [simp]: "this_cpu (inside H s) = this_cpu s"
  by (simp add: inside_def hart_defs)

lemma lk_free_inside: "lk \<notin> H \<Longrightarrow> lk_free lk (inside H s) = lk_free lk s"
  by (simp add: lk_free_def inside_def)

lemma holding_inside: "lk \<in> H \<Longrightarrow> holding lk (inside H s)"
  by (simp add: holding_def) (simp add: inside_def)

lemma not_holding_inside: "lk \<notin> H \<Longrightarrow> lk_free lk s \<Longrightarrow> \<not> holding lk (inside H s)"
  by (simp add: holding_def lk_free_def) (simp add: inside_def)

lemma interrupt_inside: "H \<noteq> {} \<Longrightarrow> \<not> is_interrupt (inside H s)"
  by (simp add: is_interrupt_def csr_defs csrr_def inside_def)

lemma enter_eq_inside: "enter lk s = inside {lk} s"
  by (simp add: enter_eq inside_def fun_eq_iff)

lemma lock_inside:
  assumes "finite H" "lk \<notin> H" "lk_free lk s" "intr_ok s"
  shows "lock lk (inside H s) = Ok () (inside (insert lk H) s)"
proof -
  have "enter lk (inside H s) = inside (insert lk H) s"
    using assms
    by (auto simp: enter_eq inside_def touch_def set_cpu_def intr_ok_def hart_defs fun_eq_iff)
  with assms show ?thesis by (simp add: lock_free lk_free_inside)
qed

lemma unlock_inside_insert:
  assumes fin: "finite K" and lk: "lk \<notin> K" and free: "lk_free lk s" and ok: "intr_ok s"
  shows "unlock lk (inside (insert lk K) s) = Ok () (inside K s)"
proof (cases "K = {}")
  case True
  have "unlock lk (enter lk s) = Ok () (touch s)"
    by (subst unlock_bracket [OF free ok]) (simp_all add: enter_eq touch_def set_cpu_def)
  with True show ?thesis by (simp add: enter_eq_inside inside_empty)
next
  case False
  let ?c = "this_cpu s" and ?i = "inside (insert lk K) s"
  let ?u = "?i\<lparr>locks := locks (inside K s)\<rparr>"
  have "(locks ?i)(lk := (locks ?i lk)\<lparr>lk_cpu := None, lk_lock := 0\<rparr>) = locks (inside K s)"
    using lk free by (auto simp: inside_def lk_free_def)
  then have rel: "unlock lk ?i = pop_off ?u"
    using holding_inside [of lk "insert lk K" s]
    by (simp add: unlock_def atomic_swap_def Let_def set_lock_def)
  have cu: "this_cpu ?u = ?c" using this_cpu_inside [of "insert lk K" s] by (simp add: hart_defs)
  have off: "\<not> is_interrupt ?u"
    using interrupt_inside [of "insert lk K" s] by (simp add: is_interrupt_def hart_defs)
  have "0 < card K" using False fin by (simp add: card_gt_0_iff)
  then have pos: "0 < c_depth (cpus s ?c) + int (card K)"
    using ok by (simp add: intr_ok_def)
  then have pos1: "\<not> c_depth (cpus ?u ?c) < 1"
    using fin lk by (simp add: inside_def)
  have v: "set_cpu ?c (\<lambda>w. w\<lparr>c_depth := c_depth w - 1\<rparr>) ?u = inside K s"
    using fin lk False by (simp add: set_cpu_def inside_def)
  have "c_depth (cpus (inside K s) ?c) \<noteq> 0"
    using pos by (simp add: inside_def)
  then have "pop_off ?u = Ok () (inside K s)"
    using off pos1 by (simp add: pop_off_def Let_def cu v)
  with rel show ?thesis by simp
qed

lemma unlock_inside:
  assumes "finite H" "lk \<in> H" "lk_free lk s" "intr_ok s"
  shows "unlock lk (inside H s) = Ok () (inside (H - {lk}) s)"
  using unlock_inside_insert [of "H - {lk}" lk s] assms by (simp add: insert_absorb)

fun lock_all :: "lockid list \<Rightarrow> 'a lockst_scheme \<Rightarrow> (unit, 'a lockst_scheme) res" where
  "lock_all [] s = Ok () s"
| "lock_all (l # ls) s = kbind (lock l s) (\<lambda>_ s. lock_all ls s)"

fun unlock_all :: "lockid list \<Rightarrow> 'a lockst_scheme \<Rightarrow> (unit, 'a lockst_scheme) res" where
  "unlock_all [] s = Ok () s"
| "unlock_all (l # ls) s = kbind (unlock l s) (\<lambda>_ s. unlock_all ls s)"

lemma lock_all_inside:
  "finite H \<Longrightarrow> distinct ls \<Longrightarrow> set ls \<inter> H = {} \<Longrightarrow> \<forall>l\<in>set ls. lk_free l s \<Longrightarrow> intr_ok s \<Longrightarrow>
   lock_all ls (inside H s) = Ok () (inside (H \<union> set ls) s)"
proof (induction ls arbitrary: H)
  case Nil
  then show ?case by simp
next
  case (Cons l ls)
  then have "lock_all ls (inside (insert l H) s) = Ok () (inside (insert l H \<union> set ls) s)"
    by (intro Cons.IH) auto
  with Cons.prems show ?case by (simp add: lock_inside)
qed

lemma unlock_all_inside:
  "finite H \<Longrightarrow> distinct ls \<Longrightarrow> set ls \<subseteq> H \<Longrightarrow> \<forall>l\<in>H. lk_free l s \<Longrightarrow> intr_ok s \<Longrightarrow>
   unlock_all ls (inside H s) = Ok () (inside (H - set ls) s)"
proof (induction ls arbitrary: H)
  case Nil
  then show ?case by simp
next
  case (Cons l ls)
  then have "unlock_all ls (inside (H - {l}) s) = Ok () (inside (H - {l} - set ls) s)"
    by (intro Cons.IH) auto
  moreover have "H - {l} - set ls = H - set (l # ls)" by auto
  ultimately show ?case using Cons.prems by (simp add: unlock_inside)
qed

text \<open>
  C5 (safety). Critical sections nest, and the locks may be released in any order (\<^verbatim>\<open>kexit\<close>
  and \<^verbatim>\<open>sleep\<close> release the outer lock first): while any of them is held the hart runs with
  interrupts off and holds exactly those locks, and after the last release every lock, the
  interrupt enable bit and the nesting depth are as before.
\<close>

theorem critical_sections_any_order:
  assumes "distinct ls" "distinct us" "set us = set ls" "ls \<noteq> []"
    and "\<forall>l\<in>set ls. lk_free l s" "intr_ok s"
  shows "\<exists>m t. lock_all ls s = Ok () m \<and> \<not> is_interrupt m \<and> (\<forall>l\<in>set ls. holding l m)
    \<and> unlock_all us m = Ok () t \<and> noise s t \<and> csrs t = csrs s \<and> locks t = locks s"
proof -
  obtain l ls' where ls: "ls = l # ls'" using assms(4) by (cases ls) auto
  have "lock_all ls s = Ok () (inside (set ls) s)"
    using assms lock_all_inside [of "{l}" ls' s]
    by (auto simp: ls lock_free enter_eq_inside)
  moreover have "unlock_all us (inside (set ls) s) = Ok () (touch s)"
    using assms unlock_all_inside [of "set ls" us s] by (simp add: inside_empty)
  moreover have "csrs (touch s) = csrs s" "locks (touch s) = locks s"
    by (simp_all add: touch_def)
  ultimately show ?thesis
    using assms(4) noise_touch [of s] interrupt_inside [of "set ls" s] holding_inside [of _ "set ls" s]
    by auto
qed

text \<open>The boot state of the locks: all free, no CPU inside \<open>push_off\<close>.\<close>

definition idle_locks :: lockst where
  "idle_locks = console.extend idle_console
     (lockst.fields
        (\<lambda>i. \<lparr>c_id = 0, c_depth = 0, c_intena = 0, c_proc = None,
           c_context = \<lparr>x_ra = 0, x_sp = 0, x_s0 = 0, x_s1 = 0, x_s2 = 0, x_s3 = 0, x_s4 = 0,
             x_s5 = 0, x_s6 = 0, x_s7 = 0, x_s8 = 0, x_s9 = 0, x_s10 = 0, x_s11 = 0\<rparr>\<rparr>)
        (\<lambda>l. \<lparr>lk_lock = 0, lk_cpu = None, lk_name = []\<rparr>))"

lemma idle_locks_simps [simp]:
  "uart_live idle_locks" "intr_ok idle_locks" "lk_free l idle_locks" "kctx idle_locks"
  "mmio_out idle_locks = []" "hang idle_locks = False"
  by (auto simp: idle_locks_def idle_console_def console.defs lockst.defs uart_live_def UART_LSR_TX_IDLE_def
      intr_ok_def lk_free_def kctx_def hart_defs NCPU_def)

theorem critical_sections_any_order_witness:
  "\<exists>m t. lock_all [Wait_lock, Proc_lock 3] idle_locks = Ok () m \<and> \<not> is_interrupt m
    \<and> unlock_all [Wait_lock, Proc_lock 3] m = Ok () t \<and> locks t = locks idle_locks"
  using critical_sections_any_order [of "[Wait_lock, Proc_lock 3]" "[Wait_lock, Proc_lock 3]" idle_locks]
  by (simp del: lock_all.simps unlock_all.simps) blast

lemma holding_push_off: "holding lk (push_off s) = holding lk s"
  by (simp add: holding_def)

lemma uart_live_push_off: "uart_live (push_off s) = uart_live s"
  by (simp add: uart_live_def)



text \<open>
  C7 (error). \<open>unlock\<close> by the fields of the lock: unless the word is set and the owner is this hart it is a
  panic that leaves every lock as it is, whoever holds it. The owner, with interrupts off and a nesting of at
  least one, clears word and owner of this lock and no other, and interrupts come back exactly when the
  nesting ends and they were on before.
\<close>

theorem unlock_needs_owner:
  assumes "uart_live s"
  shows "(lk_lock (locks s lk) = 0 \<or> lk_cpu (locks s lk) \<noteq> Some (this_cpu s) \<longrightarrow>
        (\<exists>t. unlock lk s = Panic ''trying to release unlocked spinlock'' t \<and> locks t = locks s))
    \<and> (lk_lock (locks s lk) \<noteq> 0 \<and> lk_cpu (locks s lk) = Some (this_cpu s) \<and> \<not> is_interrupt s \<and> 1 \<le> c_depth (cpus s (this_cpu s)) \<longrightarrow>
        (\<exists>t. unlock lk s = Ok () t \<and> lk_lock (locks t lk) = 0 \<and> lk_cpu (locks t lk) = None
           \<and> (\<forall>l. l \<noteq> lk \<longrightarrow> locks t l = locks s l) \<and> c_depth (cpus t (this_cpu s)) = c_depth (cpus s (this_cpu s)) - 1
           \<and> (is_interrupt t \<longleftrightarrow> c_depth (cpus s (this_cpu s)) = 1 \<and> c_intena (cpus s (this_cpu s)) \<noteq> 0)))"
proof (intro conjI impI)
  assume "lk_lock (locks s lk) = 0 \<or> lk_cpu (locks s lk) \<noteq> Some (this_cpu s)"
  then show "\<exists>t. unlock lk s = Panic ''trying to release unlocked spinlock'' t \<and> locks t = locks s"
    using panic_panics [of "''trying to release unlocked spinlock''" s] assms by (auto simp: unlock_def holding_def)
next
  assume h: "lk_lock (locks s lk) \<noteq> 0 \<and> lk_cpu (locks s lk) = Some (this_cpu s) \<and> \<not> is_interrupt s \<and> 1 \<le> c_depth (cpus s (this_cpu s))"
  let ?t = "set_cpu (this_cpu s) (\<lambda>u. u\<lparr>c_depth := c_depth u - 1\<rparr>) (set_lock lk (\<lambda>l. l\<lparr>lk_lock := 0, lk_cpu := None\<rparr>) s)"
  let ?on = "c_depth (cpus s (this_cpu s)) = 1 \<and> c_intena (cpus s (this_cpu s)) \<noteq> 0"
  have off: "\<not> is_interrupt (set_lock l f s)" for l f using h by (simp add: is_interrupt_def hart_defs)
  have two: "set_lock lk (\<lambda>l. l\<lparr>lk_lock := 0\<rparr>) (set_lock lk (\<lambda>l. l\<lparr>lk_cpu := None\<rparr>) s) = set_lock lk (\<lambda>l. l\<lparr>lk_lock := 0, lk_cpu := None\<rparr>) s"
    by (simp add: set_lock_def comp_def fun_upd_upd lock_fields_commute)
  have "unlock lk s = Ok () (if ?on then interrupt_on ?t else ?t)"
    using h off by (simp add: unlock_def holding_def atomic_swap_def Let_def two pop_off_def)
  moreover have "\<not> is_interrupt ?t" using h by (simp add: is_interrupt_def hart_defs)
  moreover have "locks (interrupt_on ?t) = locks ?t" "cpus (interrupt_on ?t) = cpus ?t"
    by (simp_all add: interrupt_on_def csr_defs)
  ultimately show "\<exists>t. unlock lk s = Ok () t \<and> lk_lock (locks t lk) = 0 \<and> lk_cpu (locks t lk) = None
      \<and> (\<forall>l. l \<noteq> lk \<longrightarrow> locks t l = locks s l) \<and> c_depth (cpus t (this_cpu s)) = c_depth (cpus s (this_cpu s)) - 1
      \<and> (is_interrupt t \<longleftrightarrow> ?on)"
    by (intro exI [of _ "if ?on then interrupt_on ?t else ?t"]) simp
qed

theorem unlock_needs_owner_witness:
  "\<exists>t. unlock Wait_lock (set_lock Wait_lock (\<lambda>l. l\<lparr>lk_lock := 1, lk_cpu := Some 3\<rparr>) idle_locks) = Panic ''trying to release unlocked spinlock'' t
    \<and> lk_lock (locks t Wait_lock) = 1"
proof -
  let ?s = "set_lock Wait_lock (\<lambda>l. l\<lparr>lk_lock := 1, lk_cpu := Some 3\<rparr>) idle_locks"
  have "this_cpu idle_locks = 0" by (simp add: idle_locks_def idle_console_def console.defs lockst.defs hart_defs)
  moreover have "uart_live ?s" using idle_locks_simps(1) by (simp add: uart_live_def)
  ultimately show ?thesis using unlock_needs_owner [of ?s Wait_lock] by auto
qed

text \<open>
  C8 (functional). \<open>printf\<close> sends exactly the text its format and arguments stand for, under
  the print lock, and leaves the rest of the kernel state as it was (a set \<open>hang\<close> flag only
  means that it prints without the lock).
\<close>

theorem printf_prints_format:
  assumes "formats fmt args out" "kctx s"
  shows "\<exists>t. printf fmt args s = Ok () t \<and> noise s t
    \<and> mmio_out t = mmio_out s @ map (Pair (UART_REG UART_THR)) out"
  using assms by (rule printf_formats)

theorem printf_prints_format_witness:
  "\<exists>t. printf ''pid %d (%s)'' [VInt 0xFFFFFFFF, VStr (lit ''echo'')] idle_locks = Ok () t
    \<and> mmio_out t = map (Pair (UART_REG UART_THR)) (map of_char ''pid -1 (echo)'')"
proof -
  have "is_cstr (lit ''echo'') (map of_char ''echo'')" by (rule is_cstr_lit) simp
  then have "formats (''pid '' @ CHR ''%'' # CHR ''d'' # ('' ('' @ ''%s'' @ '')'')) [VInt 0xFFFFFFFF, VStr (lit ''echo'')]
      (map of_char ''pid '' @ sint_text 10 (sint (0xFFFFFFFF :: u32)) @ map of_char '' ('' @ map of_char ''echo'' @ map of_char '')'')"
    by (intro formats_prefix fmt_conv formats_str formats_text) simp_all
  moreover have "sint_text 10 (sint (0xFFFFFFFF :: u32)) = map of_char ''-1''"
    by (simp add: sint_text_def uint_text_def ndigits.simps digits_def lit_def)
  ultimately have "formats ''pid %d (%s)'' [VInt 0xFFFFFFFF, VStr (lit ''echo'')] (map of_char ''pid -1 (echo)'')"
    by simp
  from printf_prints_format [OF this, of idle_locks] show ?thesis by auto
qed

end
