(* ===== verification/Lock_Protocol.thy ===== *)
theory Lock_Protocol
  imports Spinlock
begin

text \<open>
  One spinlock used by any number of harts at once. Every shared memory access of
  \<open>lock\<close>, \<open>unlock\<close> and \<open>holding\<close> in \<^verbatim>\<open>kernel/spinlock.c\<close> is a step of its own, and the
  steps of different harts interleave arbitrarily (the fences and the acquire bit of the
  atomic swap are what makes this interleaving view right). Shown for every reachable
  state: at most one hart is between a successful swap and the releasing swap, the
  unsynchronised two-load test \<open>holding\<close> gives the right answer on every hart, neither panic of
  \<open>lock\<close>/\<open>unlock\<close> is ever reached by code that alternates the two, interrupts stay off on
  a hart from \<open>push_off\<close> to \<open>pop_off\<close>, and on a run in which no hart inside is left unscheduled
  for ever, a hart that waits is followed by a hart that enters. Without interference the steps compute what the sequential \<open>lock\<close> and \<open>unlock\<close> compute.
\<close>

section \<open>Program points\<close>

text \<open>
  Where a hart is. \<open>L_\<dots>\<close> are the points inside \<open>lock\<close>, \<open>U_\<dots>\<close> those inside \<open>unlock\<close>;
  the two loads of \<open>holding\<close> are \<open>L_word\<close>/\<open>L_owner\<close> and \<open>U_word\<close>/\<open>U_owner\<close>.
\<close>

datatype point =
    Out | L_push | L_word | L_owner | L_swap | L_store | Crit
  | U_word | U_owner | U_clear | U_swap | U_pop | Panicked

record lkproto =
  l_obj :: spinlock
  l_cpu :: "nat \<Rightarrow> cpu"
  l_sie :: "nat \<Rightarrow> bool"
  l_pc :: "nat \<Rightarrow> point"

definition goto :: "nat \<Rightarrow> point \<Rightarrow> lkproto \<Rightarrow> lkproto" where
  "goto h p s = s\<lparr>l_pc := (l_pc s)(h := p)\<rparr>"

text \<open>\<open>push_off\<close> and \<open>pop_off\<close> only touch the hart's own CPU record and enable bit.\<close>

definition push_step :: "nat \<Rightarrow> lkproto \<Rightarrow> lkproto" where
  "push_step h s =
     (let u = l_cpu s h;
          u = (if c_depth u = 0 then u\<lparr>c_intena := (if l_sie s h then SSTATUS_SIE else 0)\<rparr> else u)
      in s\<lparr>l_sie := (l_sie s)(h := False), l_cpu := (l_cpu s)(h := u\<lparr>c_depth := c_depth u + 1\<rparr>)\<rparr>)"

definition pop_step :: "nat \<Rightarrow> lkproto \<Rightarrow> lkproto" where
  "pop_step h s =
     (let u = (l_cpu s h)\<lparr>c_depth := c_depth (l_cpu s h) - 1\<rparr>
      in s\<lparr>l_cpu := (l_cpu s)(h := u),
           l_sie := (if c_depth u = 0 \<and> c_intena u \<noteq> 0 then (l_sie s)(h := True) else l_sie s)\<rparr>)"

section \<open>Steps\<close>

inductive lstep :: "nat \<Rightarrow> lkproto \<Rightarrow> lkproto \<Rightarrow> bool" where
  call_lock: "l_pc s h = Out \<Longrightarrow> lstep h s (goto h L_push s)"
| push: "l_pc s h = L_push \<Longrightarrow> lstep h s (goto h L_word (push_step h s))"
| word_free: "l_pc s h = L_word \<Longrightarrow> lk_lock (l_obj s) = 0 \<Longrightarrow> lstep h s (goto h L_swap s)"
| word_set: "l_pc s h = L_word \<Longrightarrow> lk_lock (l_obj s) \<noteq> 0 \<Longrightarrow> lstep h s (goto h L_owner s)"
| owner_self: "l_pc s h = L_owner \<Longrightarrow> lk_cpu (l_obj s) = Some h \<Longrightarrow> lstep h s (goto h Panicked s)"
| owner_other: "l_pc s h = L_owner \<Longrightarrow> lk_cpu (l_obj s) \<noteq> Some h \<Longrightarrow> lstep h s (goto h L_swap s)"
| swap_won: "l_pc s h = L_swap \<Longrightarrow> lk_lock (l_obj s) = 0 \<Longrightarrow>
    lstep h s (goto h L_store (s\<lparr>l_obj := (l_obj s)\<lparr>lk_lock := 1\<rparr>\<rparr>))"
| swap_lost: "l_pc s h = L_swap \<Longrightarrow> lk_lock (l_obj s) \<noteq> 0 \<Longrightarrow>
    lstep h s (s\<lparr>l_obj := (l_obj s)\<lparr>lk_lock := 1\<rparr>\<rparr>)"
| store_cpu: "l_pc s h = L_store \<Longrightarrow>
    lstep h s (goto h Crit (s\<lparr>l_obj := (l_obj s)\<lparr>lk_cpu := Some h\<rparr>\<rparr>))"
| call_unlock: "l_pc s h = Crit \<Longrightarrow> lstep h s (goto h U_word s)"
| uword_free: "l_pc s h = U_word \<Longrightarrow> lk_lock (l_obj s) = 0 \<Longrightarrow> lstep h s (goto h Panicked s)"
| uword_set: "l_pc s h = U_word \<Longrightarrow> lk_lock (l_obj s) \<noteq> 0 \<Longrightarrow> lstep h s (goto h U_owner s)"
| uowner_other: "l_pc s h = U_owner \<Longrightarrow> lk_cpu (l_obj s) \<noteq> Some h \<Longrightarrow> lstep h s (goto h Panicked s)"
| uowner_self: "l_pc s h = U_owner \<Longrightarrow> lk_cpu (l_obj s) = Some h \<Longrightarrow> lstep h s (goto h U_clear s)"
| clear_cpu: "l_pc s h = U_clear \<Longrightarrow>
    lstep h s (goto h U_swap (s\<lparr>l_obj := (l_obj s)\<lparr>lk_cpu := None\<rparr>\<rparr>))"
| release: "l_pc s h = U_swap \<Longrightarrow>
    lstep h s (goto h U_pop (s\<lparr>l_obj := (l_obj s)\<lparr>lk_lock := 0\<rparr>\<rparr>))"
| pop_panic: "l_pc s h = U_pop \<Longrightarrow> l_sie s h \<or> c_depth (l_cpu s h) < 1 \<Longrightarrow> lstep h s (goto h Panicked s)"
| pop: "l_pc s h = U_pop \<Longrightarrow> \<not> l_sie s h \<Longrightarrow> \<not> c_depth (l_cpu s h) < 1 \<Longrightarrow>
    lstep h s (goto h Out (pop_step h s))"

text \<open>At the start the lock is initialised and no hart is inside; nesting is consistent.\<close>

definition lk_start :: "lkproto \<Rightarrow> bool" where
  "lk_start s \<longleftrightarrow> lk_lock (l_obj s) = 0 \<and> lk_cpu (l_obj s) = None \<and> (\<forall>h. l_pc s h = Out)
     \<and> (\<forall>h. 0 \<le> c_depth (l_cpu s h) \<and> (0 < c_depth (l_cpu s h) \<longrightarrow> \<not> l_sie s h))"

inductive lk_reachable :: "lkproto \<Rightarrow> bool" where
  start: "lk_start s \<Longrightarrow> lk_reachable s"
| step: "lk_reachable s \<Longrightarrow> lstep h s t \<Longrightarrow> lk_reachable t"

section \<open>Invariant\<close>

definition owns :: "point \<Rightarrow> bool" where
  "owns p \<longleftrightarrow> p \<in> {L_store, Crit, U_word, U_owner, U_clear, U_swap}"

definition registered :: "point \<Rightarrow> bool" where
  "registered p \<longleftrightarrow> p \<in> {Crit, U_word, U_owner, U_clear}"

definition shielded :: "point \<Rightarrow> bool" where
  "shielded p \<longleftrightarrow> p \<notin> {Out, L_push}"

definition lk_inv :: "lkproto \<Rightarrow> bool" where
  "lk_inv s \<longleftrightarrow>
     (\<forall>h h'. owns (l_pc s h) \<and> owns (l_pc s h') \<longrightarrow> h = h')
   \<and> (lk_lock (l_obj s) \<noteq> 0 \<longleftrightarrow> (\<exists>h. owns (l_pc s h)))
   \<and> (\<forall>h. lk_cpu (l_obj s) = Some h \<longleftrightarrow> registered (l_pc s h))
   \<and> (\<forall>h. l_pc s h \<noteq> Panicked)
   \<and> (\<forall>h. 0 \<le> c_depth (l_cpu s h) \<and> (0 < c_depth (l_cpu s h) \<longrightarrow> \<not> l_sie s h))
   \<and> (\<forall>h. shielded (l_pc s h) \<longrightarrow> 1 \<le> c_depth (l_cpu s h))"

lemmas point_defs = owns_def registered_def shielded_def

lemma lk_start_inv: "lk_start s \<Longrightarrow> lk_inv s"
  by (auto simp: lk_start_def lk_inv_def point_defs)

lemma goto_simps [simp]:
  "l_obj (goto h p s) = l_obj s" "l_cpu (goto h p s) = l_cpu s" "l_sie (goto h p s) = l_sie s"
  "l_pc (goto h p s) = (l_pc s)(h := p)"
  by (simp_all add: goto_def)

lemma push_step_simps [simp]:
  "l_obj (push_step h s) = l_obj s" "l_pc (push_step h s) = l_pc s"
  "l_sie (push_step h s) = (l_sie s)(h := False)"
  "c_depth (l_cpu (push_step h s) k) = (if k = h then c_depth (l_cpu s h) + 1 else c_depth (l_cpu s k))"
  by (simp_all add: push_step_def Let_def)

lemma pop_step_simps [simp]:
  "l_obj (pop_step h s) = l_obj s" "l_pc (pop_step h s) = l_pc s"
  "c_depth (l_cpu (pop_step h s) k) = (if k = h then c_depth (l_cpu s h) - 1 else c_depth (l_cpu s k))"
  by (simp_all add: pop_step_def Let_def)

lemma pop_step_sie: "l_sie (pop_step h s) k \<Longrightarrow> l_sie s k \<or> (k = h \<and> c_depth (l_cpu s h) = 1)"
  by (auto simp: pop_step_def Let_def split: if_splits)

text \<open>A move that changes neither ownership nor registration keeps the invariant.\<close>

lemma inv_move:
  assumes "lk_inv s" "owns p = owns (l_pc s h)" "registered p = registered (l_pc s h)" "p \<noteq> Panicked"
    and "shielded p \<Longrightarrow> 1 \<le> c_depth (l_cpu s h)"
  shows "lk_inv (goto h p s)"
proof -
  have o: "owns (((l_pc s)(h := p)) k) = owns (l_pc s k)" for k
    using assms(2) by simp
  have r: "registered (((l_pc s)(h := p)) k) = registered (l_pc s k)" for k
    using assms(3) by simp
  show ?thesis
    using assms(1,4,5) by (simp add: lk_inv_def o r del: fun_upd_apply) (auto simp: o r)
qed

lemma inv_owner:
  assumes "lk_inv s" "owns (l_pc s h)"
  shows "lk_lock (l_obj s) \<noteq> 0" "owns (l_pc s k) \<Longrightarrow> k = h"
  using assms unfolding lk_inv_def by blast+

lemma inv_registered: "lk_inv s \<Longrightarrow> lk_cpu (l_obj s) = Some h \<longleftrightarrow> registered (l_pc s h)"
  by (simp add: lk_inv_def)

lemma inv_depth:
  "lk_inv s \<Longrightarrow> 0 \<le> c_depth (l_cpu s h)" "lk_inv s \<Longrightarrow> 0 < c_depth (l_cpu s h) \<Longrightarrow> \<not> l_sie s h"
  "lk_inv s \<Longrightarrow> shielded (l_pc s h) \<Longrightarrow> 1 \<le> c_depth (l_cpu s h)"
  by (simp_all add: lk_inv_def)

lemma inv_shielded_move:
  assumes "lk_inv s" "shielded (l_pc s h)"
    and "owns p = owns (l_pc s h)" "registered p = registered (l_pc s h)" "p \<noteq> Panicked"
  shows "lk_inv (goto h p s)"
  using assms inv_depth(3) by (intro inv_move)

lemma inv_push:
  assumes "lk_inv s" "l_pc s h = L_push"
  shows "lk_inv (goto h L_word (push_step h s))"
proof (rule inv_move)
  show "lk_inv (push_step h s)"
    using assms unfolding lk_inv_def push_step_simps
    by (auto simp: point_defs add_increasing2)
qed (use assms inv_depth(1) [OF assms(1), of h] in \<open>simp_all add: point_defs\<close>)

lemma inv_swap_won:
  assumes inv: "lk_inv s" and "l_pc s h = L_swap" "lk_lock (l_obj s) = 0"
  shows "lk_inv (goto h L_store (s\<lparr>l_obj := (l_obj s)\<lparr>lk_lock := 1\<rparr>\<rparr>))"
proof -
  have none: "\<not> owns (l_pc s k)" for k
    using inv_owner(1) [OF inv, of k] assms(3) by blast
  have "\<forall>k. lk_cpu (l_obj s) = Some k \<longleftrightarrow> registered (((l_pc s)(h := L_store)) k)"
    using inv_registered [OF inv] assms(2) by (auto simp: registered_def)
  with none assms show ?thesis
    by (simp add: lk_inv_def) (auto simp: point_defs)
qed

lemma inv_swap_lost:
  assumes "lk_inv s" "l_pc s h = L_swap" "lk_lock (l_obj s) \<noteq> 0"
  shows "lk_inv (s\<lparr>l_obj := (l_obj s)\<lparr>lk_lock := 1\<rparr>\<rparr>)"
  using assms by (simp add: lk_inv_def)

lemma inv_store_cpu:
  assumes inv: "lk_inv s" and "l_pc s h = L_store"
  shows "lk_inv (goto h Crit (s\<lparr>l_obj := (l_obj s)\<lparr>lk_cpu := Some h\<rparr>\<rparr>))"
proof -
  have h: "owns (l_pc s h)" using assms(2) by (simp add: owns_def)
  have "registered (l_pc s k) \<Longrightarrow> k = h" for k
    using inv_owner(2) [OF inv h, of k] by (auto simp: point_defs)
  then have reg: "\<forall>k. Some h = Some k \<longleftrightarrow> registered (((l_pc s)(h := Crit)) k)"
    by (auto simp: registered_def)
  have own: "owns (((l_pc s)(h := Crit)) k) = owns (l_pc s k)" for k
    using h by (auto simp: owns_def)
  show ?thesis
    using inv assms(2) reg own by (simp add: lk_inv_def) (auto simp: shielded_def)
qed

lemma inv_clear_cpu:
  assumes inv: "lk_inv s" and "l_pc s h = U_clear"
  shows "lk_inv (goto h U_swap (s\<lparr>l_obj := (l_obj s)\<lparr>lk_cpu := None\<rparr>\<rparr>))"
proof -
  have h: "owns (l_pc s h)" using assms(2) by (simp add: owns_def)
  have "registered (l_pc s k) \<Longrightarrow> k = h" for k
    using inv_owner(2) [OF inv h, of k] by (auto simp: point_defs)
  then have reg: "\<forall>k. \<not> registered (((l_pc s)(h := U_swap)) k)"
    by (auto simp: registered_def)
  have own: "owns (((l_pc s)(h := U_swap)) k) = owns (l_pc s k)" for k
    using h by (auto simp: owns_def)
  show ?thesis
    using inv assms(2) reg own by (simp add: lk_inv_def) (auto simp: shielded_def)
qed

lemma inv_release:
  assumes inv: "lk_inv s" and "l_pc s h = U_swap"
  shows "lk_inv (goto h U_pop (s\<lparr>l_obj := (l_obj s)\<lparr>lk_lock := 0\<rparr>\<rparr>))"
proof -
  have h: "owns (l_pc s h)" using assms(2) by (simp add: owns_def)
  have none: "\<not> owns (((l_pc s)(h := U_pop)) k)" for k
    using inv_owner(2) [OF inv h, of k] by (auto simp: owns_def)
  have "\<forall>k. lk_cpu (l_obj s) = Some k \<longleftrightarrow> registered (((l_pc s)(h := U_pop)) k)"
    using inv_registered [OF inv] assms(2) by (auto simp: registered_def)
  with none inv assms(2) show ?thesis
    by (simp add: lk_inv_def del: fun_upd_apply) (auto simp: shielded_def)
qed

lemma inv_pop:
  assumes inv: "lk_inv s" and "l_pc s h = U_pop" "\<not> c_depth (l_cpu s h) < 1"
  shows "lk_inv (goto h Out (pop_step h s))"
proof -
  have "owns (((l_pc s)(h := Out)) k) = owns (l_pc s k)"
    "registered (((l_pc s)(h := Out)) k) = registered (l_pc s k)" for k
    using assms(2) by (auto simp: point_defs)
  moreover have "0 < c_depth (l_cpu (pop_step h s) k) \<Longrightarrow> \<not> l_sie (pop_step h s) k" for k
    using pop_step_sie [of h s k] inv_depth(2) [OF inv, of k] by (auto split: if_splits)
  ultimately show ?thesis
    using inv assms(3) by (simp add: lk_inv_def del: fun_upd_apply) (auto simp: shielded_def)
qed

text \<open>Every point but the idle, the spinning and the panicked one has a step that leaves it.\<close>

lemma lstep_moves:
  assumes "l_pc s k \<notin> {Out, L_swap, Panicked}"
  shows "\<exists>t. lstep k s t \<and> l_pc t k \<noteq> l_pc s k"
proof -
  have go: "lstep k s t \<Longrightarrow> l_pc t k \<noteq> l_pc s k \<Longrightarrow> ?thesis" for t by blast
  show ?thesis
  proof (cases "l_pc s k")
    case L_word
    show ?thesis by (cases "lk_lock (l_obj s) = 0"; rule go; (rule lstep.intros)?; simp add: L_word)
  next
    case U_word
    show ?thesis by (cases "lk_lock (l_obj s) = 0"; rule go; (rule lstep.intros)?; simp add: U_word)
  next
    case L_owner
    show ?thesis by (cases "lk_cpu (l_obj s) = Some k"; rule go; (rule lstep.intros)?; simp add: L_owner)
  next
    case U_owner
    show ?thesis by (cases "lk_cpu (l_obj s) = Some k"; rule go; (rule lstep.intros)?; simp add: U_owner)
  next
    case U_pop
    show ?thesis
      by (cases "l_sie s k \<or> c_depth (l_cpu s k) < 1"; rule go; (rule lstep.intros)?; simp add: U_pop)
  qed (use assms in \<open>auto intro: lstep.intros\<close>)
qed

lemma lstep_inv: "lstep h s t \<Longrightarrow> lk_inv s \<Longrightarrow> lk_inv t"
proof (induction rule: lstep.induct)
  case (owner_self s h)
  then show ?case using inv_registered [of s h] by (simp add: registered_def)
next
  case (uword_free s h)
  then show ?case using inv_owner(1) [of s h] by (simp add: owns_def)
next
  case (uowner_other s h)
  then show ?case using inv_registered [of s h] by (simp add: registered_def)
next
  case (pop_panic s h)
  then show ?case
    using inv_depth(2) [of s h] inv_depth(3) [of s h] by (auto simp: shielded_def)
next
  case (swap_won s h)
  then show ?case by (intro inv_swap_won)
next
  case (swap_lost s h)
  then show ?case by (intro inv_swap_lost)
next
  case (call_lock s h)
  then show ?case by (intro inv_move) (simp_all add: point_defs)
next
  case (push s h)
  then show ?case by (intro inv_push)
next
  case (store_cpu s h)
  then show ?case by (intro inv_store_cpu)
next
  case (clear_cpu s h)
  then show ?case by (intro inv_clear_cpu)
next
  case (release s h)
  then show ?case by (intro inv_release)
next
  case (pop s h)
  then show ?case by (intro inv_pop)
qed (rule inv_shielded_move; simp add: point_defs)+

lemma reachable_inv: "lk_reachable s \<Longrightarrow> lk_inv s"
  by (induction rule: lk_reachable.induct) (auto intro: lk_start_inv lstep_inv)

section \<open>Fair runs\<close>

text \<open>
  An infinite run in which hart \<open>who n\<close> makes the \<open>n\<close>-th step. It is fair when a hart that is
  inside \<open>lock\<close>, the critical section or \<open>unlock\<close> is always scheduled again; a hart that is
  outside need not be.
\<close>

definition fair_run :: "(nat \<Rightarrow> lkproto) \<Rightarrow> (nat \<Rightarrow> nat) \<Rightarrow> bool" where
  "fair_run run who \<longleftrightarrow> lk_reachable (run 0) \<and> (\<forall>n. lstep (who n) (run n) (run (Suc n)))
     \<and> (\<forall>h n. l_pc (run n) h \<noteq> Out \<longrightarrow> (\<exists>m\<ge>n. who m = h))"

definition waiting :: "point \<Rightarrow> bool" where
  "waiting p \<longleftrightarrow> p \<in> {L_push, L_word, L_owner, L_swap}"

text \<open>Some hart enters its critical section at or after step \<open>n\<close>.\<close>

definition entered_after :: "(nat \<Rightarrow> lkproto) \<Rightarrow> nat \<Rightarrow> bool" where
  "entered_after run n \<longleftrightarrow> (\<exists>m\<ge>n. \<exists>k. l_pc (run m) k \<noteq> Crit \<and> l_pc (run (Suc m)) k = Crit)"

lemma entered_earlier: "entered_after run m \<Longrightarrow> n \<le> m \<Longrightarrow> entered_after run n"
  unfolding entered_after_def by (meson order_trans)

lemma fair_inv: "fair_run run who \<Longrightarrow> lk_inv (run n)"
  by (induction n) (auto simp: fair_run_def intro: reachable_inv lstep_inv)

lemma fair_step: "fair_run run who \<Longrightarrow> lstep (who n) (run n) (run (Suc n))"
  by (simp add: fair_run_def)

lemma lstep_other: "lstep h s t \<Longrightarrow> k \<noteq> h \<Longrightarrow> l_pc t k = l_pc s k"
  by (induction rule: lstep.induct) simp_all

text \<open>The next step of a hart that is not outside finds it where it is now.\<close>

lemma next_turn:
  assumes f: "fair_run run who" and "l_pc (run n) h \<noteq> Out"
  obtains m where "n \<le> m" "l_pc (run m) h = l_pc (run n) h" "lstep h (run m) (run (Suc m))"
proof -
  define d where "d = (LEAST d. who (n + d) = h)"
  have ex: "\<exists>d. who (n + d) = h" using assms unfolding fair_run_def by (metis le_Suc_ex)
  have d: "who (n + d) = h" unfolding d_def by (rule LeastI_ex [OF ex])
  have "e \<le> d \<Longrightarrow> l_pc (run (n + e)) h = l_pc (run n) h" for e
  proof (induction e)
    case (Suc e)
    then have "who (n + e) \<noteq> h" using not_less_Least [of e "\<lambda>d. who (n + d) = h"] by (simp add: d_def)
    with Suc show ?case using lstep_other [OF fair_step [OF f, of "n + e"], of h] by simp
  qed simp
  from this [of d] show thesis using that [of "n + d"] fair_step [OF f, of "n + d"] d by simp
qed

text \<open>How many of its own steps a hart is away from the releasing store, or from the spinning swap.\<close>

fun steps_left :: "point \<Rightarrow> nat" where
  "steps_left Crit = 5"
| "steps_left U_word = 4"
| "steps_left U_owner = 3"
| "steps_left U_clear = 2"
| "steps_left U_swap = 1"
| "steps_left L_store = 6"
| "steps_left L_push = 3"
| "steps_left L_word = 2"
| "steps_left L_owner = 1"
| "steps_left _ = 0"

lemma owner_step:
  assumes "lstep h s t" "lk_inv s" "owns (l_pc s h)"
  shows "lk_lock (l_obj t) = 0 \<or> owns (l_pc t h) \<and> steps_left (l_pc t h) < steps_left (l_pc s h)"
proof -
  have np: "l_pc t h \<noteq> Panicked" using lstep_inv [OF assms(1,2)] by (simp add: lk_inv_def)
  show ?thesis using assms(1,3) np by (cases rule: lstep.cases) (auto simp: owns_def)
qed

lemma waiting_step:
  assumes "lstep h s t" "lk_inv s" "waiting (l_pc s h)" "l_pc s h \<noteq> L_swap"
  shows "waiting (l_pc t h) \<and> steps_left (l_pc t h) < steps_left (l_pc s h)"
proof -
  have np: "l_pc t h \<noteq> Panicked" using lstep_inv [OF assms(1,2)] by (simp add: lk_inv_def)
  show ?thesis using assms(1,3,4) np by (cases rule: lstep.cases) (auto simp: waiting_def)
qed

lemma owner_releases:
  assumes f: "fair_run run who"
  shows "owns (l_pc (run n) h) \<Longrightarrow> \<exists>m\<ge>n. lk_lock (l_obj (run m)) = 0"
proof (induction "steps_left (l_pc (run n) h)" arbitrary: n rule: less_induct)
  case less
  have "l_pc (run n) h \<noteq> Out" using less.prems by (auto simp: owns_def)
  then obtain m where m: "n \<le> m" "l_pc (run m) h = l_pc (run n) h" "lstep h (run m) (run (Suc m))"
    by (rule next_turn [OF f])
  from owner_step [OF m(3) fair_inv [OF f]] m(2) less.prems
  have "lk_lock (l_obj (run (Suc m))) = 0 \<or> (\<exists>j\<ge>Suc m. lk_lock (l_obj (run j)) = 0)"
    using less.hyps [of "Suc m"] by auto
  then show ?case using m(1) by (meson le_SucI order_trans order_refl)
qed

lemma waiting_spins:
  assumes f: "fair_run run who"
  shows "waiting (l_pc (run n) h) \<Longrightarrow> \<exists>m\<ge>n. l_pc (run m) h = L_swap"
proof (induction "steps_left (l_pc (run n) h)" arbitrary: n rule: less_induct)
  case less
  show ?case
  proof (cases "l_pc (run n) h = L_swap")
    case False
    have "l_pc (run n) h \<noteq> Out" using less.prems by (auto simp: waiting_def)
    then obtain m where m: "n \<le> m" "l_pc (run m) h = l_pc (run n) h" "lstep h (run m) (run (Suc m))"
      by (rule next_turn [OF f])
    from waiting_step [OF m(3) fair_inv [OF f]] m(2) less.prems False
    have "\<exists>j\<ge>Suc m. l_pc (run j) h = L_swap" using less.hyps [of "Suc m"] by auto
    then show ?thesis using m(1) by (meson le_SucI order_trans)
  qed blast
qed

text \<open>A hart that has won the swap enters.\<close>

lemma winner_enters:
  assumes f: "fair_run run who" and "l_pc (run n) h = L_store"
  shows "entered_after run n"
proof -
  obtain m where m: "n \<le> m" "l_pc (run m) h = l_pc (run n) h" "lstep h (run m) (run (Suc m))"
    using next_turn [OF f, of n h] assms(2) by auto
  from m(3) have "l_pc (run (Suc m)) h = Crit" using m(2) assms(2) by (cases rule: lstep.cases) simp_all
  then show ?thesis using m assms(2) unfolding entered_after_def by (intro exI [of _ m]) (auto intro: exI [of _ h])
qed

text \<open>A word that goes from 0 to 1 has been swapped by a hart that thereby won.\<close>

lemma word_taken:
  assumes "lstep h s t" "lk_lock (l_obj s) = 0" "lk_lock (l_obj t) \<noteq> 0"
  shows "l_pc t h = L_store"
  using assms by (cases rule: lstep.cases) simp_all

lemma spin_step: "lstep k s t \<Longrightarrow> l_pc s h = L_swap \<Longrightarrow> l_pc t h = L_swap \<or> l_pc t h = L_store"
  by (induction rule: lstep.induct) auto

lemma free_lock_taken:
  assumes f: "fair_run run who" and h: "l_pc (run n) h = L_swap" and "lk_lock (l_obj (run n)) = 0"
  shows "entered_after run n"
proof -
  have "\<exists>j\<ge>n. lk_lock (l_obj (run j)) = 0 \<and> lk_lock (l_obj (run (Suc j))) \<noteq> 0"
  proof (rule ccontr)
    assume "\<not> ?thesis"
    then have keep: "n \<le> j \<Longrightarrow> lk_lock (l_obj (run j)) = 0 \<Longrightarrow> lk_lock (l_obj (run (Suc j))) = 0" for j by blast
    have free: "lk_lock (l_obj (run m)) = 0" if "n \<le> m" for m
      using that by (induction m rule: dec_induct) (use assms(3) keep in auto)
    obtain m where m: "n \<le> m" "l_pc (run m) h = l_pc (run n) h" "lstep h (run m) (run (Suc m))"
      using next_turn [OF f, of n h] h by auto
    from m(3) have "lk_lock (l_obj (run (Suc m))) = 1"
      using m(2) h free [OF m(1)] by (cases rule: lstep.cases) simp_all
    then show False using free [of "Suc m"] m(1) by simp
  qed
  then obtain j where "n \<le> j" "l_pc (run (Suc j)) (who j) = L_store"
    using word_taken [OF fair_step [OF f]] by blast
  then show ?thesis using winner_enters [OF f] entered_earlier [of run "Suc j" n] by simp
qed

lemma spinner_enters:
  assumes f: "fair_run run who" and h: "l_pc (run n) h = L_swap"
  shows "entered_after run n"
proof (rule ccontr)
  assume none: "\<not> entered_after run n"
  have spin: "l_pc (run m) h = L_swap" if "n \<le> m" for m
    using that
  proof (induction m rule: dec_induct)
    case (step m)
    then show ?case
      using spin_step [OF fair_step [OF f, of m], of h] winner_enters [OF f, of "Suc m" h] none
        entered_earlier [of run "Suc m" n] by auto
  qed (rule h)
  obtain m where m: "n \<le> m" "lk_lock (l_obj (run m)) = 0"
  proof (cases "lk_lock (l_obj (run n)) = 0")
    case False
    then obtain k where "owns (l_pc (run n) k)" using fair_inv [OF f, of n] by (auto simp: lk_inv_def)
    then show thesis using owner_releases [OF f] that by blast
  qed (use that in blast)
  then show False using free_lock_taken [OF f spin] entered_earlier [of run m n] none by blast
qed

lemma waiter_enters:
  assumes f: "fair_run run who" and "waiting (l_pc (run n) h)"
  shows "entered_after run n"
  using waiting_spins [OF assms] spinner_enters [OF f] entered_earlier by blast

section \<open>Properties\<close>

text \<open>
  C1 (safety). Mutual exclusion: in every reachable state of any number of harts, two harts
  are never both inside the critical section of the lock.
\<close>

theorem spinlock_mutual_exclusion:
  assumes "lk_reachable s" "l_pc s h = Crit" "l_pc s k = Crit"
  shows "h = k"
  using inv_owner(2) [OF reachable_inv [OF assms(1)], of k h] assms by (simp add: owns_def)

text \<open>
  C2 (invariant). The unsynchronised test \<open>holding\<close> (two loads, other harts running) is exact:
  it is true on a hart exactly while that hart is in its critical section or has entered
  \<open>unlock\<close> and not yet cleared the owner; so neither \<open>lock\<close> nor \<open>unlock\<close> nor \<open>pop_off\<close> ever
  panics in code that alternates the two, and between \<open>push_off\<close> and \<open>pop_off\<close> interrupts are
  off on that hart.
\<close>

theorem spinlock_holding_exact:
  assumes "lk_reachable s"
  shows "(lk_lock (l_obj s) \<noteq> 0 \<and> lk_cpu (l_obj s) = Some h \<longleftrightarrow> registered (l_pc s h))
    \<and> l_pc s h \<noteq> Panicked \<and> (shielded (l_pc s h) \<longrightarrow> \<not> l_sie s h)"
proof -
  note inv = reachable_inv [OF assms]
  have "registered (l_pc s h) \<Longrightarrow> owns (l_pc s h)" by (auto simp: point_defs)
  moreover have "l_pc s h \<noteq> Panicked" using inv by (simp add: lk_inv_def)
  moreover have "shielded (l_pc s h) \<Longrightarrow> \<not> l_sie s h"
    using inv_depth(2,3) [OF inv, of h] by simp
  ultimately show ?thesis
    using inv_owner(1) [OF inv, of h] inv_registered [OF inv, of h] by blast
qed

text \<open>
  C3 (liveness). On every fair infinite run of any number of harts the lock is never stuck: whenever a hart
  is waiting inside \<open>lock\<close>, some hart enters the critical section afterwards, so the lock is handed on
  again and again while anybody waits; and a hart that owns the lock word (from its successful swap to its
  releasing one) is always followed by a state in which the word is 0. The loop of \<open>lock\<close> is not fair to each
  waiting hart, so no more is promised of the one that waits.
\<close>

theorem spinlock_progress:
  assumes "fair_run run who"
  shows "(waiting (l_pc (run n) h) \<longrightarrow> (\<exists>m\<ge>n. \<exists>k. l_pc (run m) k \<noteq> Crit \<and> l_pc (run (Suc m)) k = Crit))
    \<and> (owns (l_pc (run n) h) \<longrightarrow> (\<exists>m\<ge>n. lk_lock (l_obj (run m)) = 0))"
  using waiter_enters [OF assms] owner_releases [OF assms] unfolding entered_after_def by blast

section \<open>The sequential operations are uninterrupted runs\<close>

text \<open>
  What the protocol sees of a kernel state: the lock object, the CPU records and the enable
  bits (\<open>sie\<close> gives those of the other harts), with the program points \<open>pc\<close>.
\<close>

definition lk_view :: "lockid \<Rightarrow> (nat \<Rightarrow> bool) \<Rightarrow> (nat \<Rightarrow> point) \<Rightarrow> 'a lockst_scheme \<Rightarrow> lkproto" where
  "lk_view lk sie pc s = \<lparr>l_obj = locks s lk, l_cpu = cpus s,
     l_sie = sie(this_cpu s := is_interrupt s), l_pc = pc\<rparr>"

lemma SIE_and_value: "x AND SSTATUS_SIE = (if x AND SSTATUS_SIE = 0 then 0 else SSTATUS_SIE)"
proof (cases "x AND SSTATUS_SIE = 0")
  case False
  then have "x AND NOT SSTATUS_SIE OR SSTATUS_SIE = x" by (rule SIE_clear_set)
  then have "x AND SSTATUS_SIE = (x AND NOT SSTATUS_SIE OR SSTATUS_SIE) AND SSTATUS_SIE" by simp
  with False show ?thesis by simp
qed simp

lemma push_step_view:
  "push_step (this_cpu s) (lk_view lk sie pc s) = lk_view lk sie pc (push_off s)"
proof -
  have "\<not> is_interrupt (push_off s)"
    by (simp add: is_interrupt_def csr_defs csrr_def push_off_csrs)
  moreover have "(if is_interrupt s then SSTATUS_SIE else 0) = r_sstatus s AND SSTATUS_SIE"
    using SIE_and_value [of "r_sstatus s"]
    by (cases "is_interrupt s") (simp_all add: is_interrupt_def)
  ultimately show ?thesis
    by (simp add: push_step_def lk_view_def Let_def push_off_cpus touch_def)
qed

lemma goto_goto: "goto h p (goto h q s) = goto h p s"
  by (simp add: goto_def)

lemma push_step_goto: "push_step h (goto h p s) = goto h p (push_step h s)"
  by (simp add: goto_def push_step_def Let_def)

lemma pop_step_goto: "pop_step h (goto h p s) = goto h p (pop_step h s)"
  by (simp add: goto_def pop_step_def Let_def)

lemma solo_lock:
  assumes "l_pc s h = Out" "lk_lock (l_obj s) = 0"
  shows "(lstep h)\<^sup>*\<^sup>* s (goto h Crit ((push_step h s)\<lparr>l_obj := (l_obj s)\<lparr>lk_lock := 1, lk_cpu := Some h\<rparr>\<rparr>))"
proof -
  let ?b = "push_step h s"
  have 1: "lstep h s (goto h L_push s)" using assms by (intro lstep.intros)
  have 2: "lstep h (goto h L_push s) (goto h L_word ?b)"
    using lstep.push [of "goto h L_push s" h] by (simp add: goto_goto push_step_goto)
  have 3: "lstep h (goto h L_word ?b) (goto h L_swap ?b)"
    using lstep.word_free [of "goto h L_word ?b" h] assms
    by (simp add: goto_def)
  have 4: "lstep h (goto h L_swap ?b) (goto h L_store (?b\<lparr>l_obj := (l_obj s)\<lparr>lk_lock := 1\<rparr>\<rparr>))"
    using lstep.swap_won [of "goto h L_swap ?b" h] assms
    by (simp add: goto_def)
  have 5: "lstep h (goto h L_store (?b\<lparr>l_obj := (l_obj s)\<lparr>lk_lock := 1\<rparr>\<rparr>))
      (goto h Crit (?b\<lparr>l_obj := (l_obj s)\<lparr>lk_lock := 1, lk_cpu := Some h\<rparr>\<rparr>))"
    using lstep.store_cpu [of "goto h L_store (?b\<lparr>l_obj := (l_obj s)\<lparr>lk_lock := 1\<rparr>\<rparr>)" h]
    by (simp add: goto_def)
  from 1 2 3 4 5 show ?thesis
    by (meson rtranclp.rtrancl_refl converse_rtranclp_into_rtranclp)
qed

lemma solo_unlock:
  assumes "l_pc s h = Crit" "lk_lock (l_obj s) \<noteq> 0" "lk_cpu (l_obj s) = Some h"
    and "\<not> l_sie s h" "\<not> c_depth (l_cpu s h) < 1"
  shows "(lstep h)\<^sup>*\<^sup>* s (goto h Out (pop_step h (s\<lparr>l_obj := (l_obj s)\<lparr>lk_cpu := None, lk_lock := 0\<rparr>\<rparr>)))"
proof -
  let ?c = "s\<lparr>l_obj := (l_obj s)\<lparr>lk_cpu := None\<rparr>\<rparr>"
  let ?d = "s\<lparr>l_obj := (l_obj s)\<lparr>lk_cpu := None, lk_lock := 0\<rparr>\<rparr>"
  have 1: "lstep h s (goto h U_word s)" using assms by (intro lstep.intros)
  have 2: "lstep h (goto h U_word s) (goto h U_owner s)"
    using lstep.uword_set [of "goto h U_word s" h] assms by (simp add: goto_goto)
  have 3: "lstep h (goto h U_owner s) (goto h U_clear s)"
    using lstep.uowner_self [of "goto h U_owner s" h] assms by (simp add: goto_goto)
  have 4: "lstep h (goto h U_clear s) (goto h U_swap ?c)"
    using lstep.clear_cpu [of "goto h U_clear s" h] by (simp add: goto_def)
  have 5: "lstep h (goto h U_swap ?c) (goto h U_pop ?d)"
    using lstep.release [of "goto h U_swap ?c" h] by (simp add: goto_def)
  have 6: "lstep h (goto h U_pop ?d) (goto h Out (pop_step h ?d))"
    using lstep.pop [of "goto h U_pop ?d" h] assms by (simp add: pop_step_goto goto_goto)
  from 1 2 3 4 5 6 show ?thesis
    by (meson rtranclp.rtrancl_refl converse_rtranclp_into_rtranclp)
qed

lemma lock_solo:
  assumes "lk_free lk s" "pc (this_cpu s) = Out" "lock lk s = Ok () t"
  shows "(lstep (this_cpu s))\<^sup>*\<^sup>* (lk_view lk sie pc s) (goto (this_cpu s) Crit (lk_view lk sie pc t))"
proof -
  let ?h = "this_cpu s" and ?v = "lk_view lk sie pc s"
  have t: "t = enter lk s" using assms lock_free [of lk s] by simp
  have "(push_step ?h ?v)\<lparr>l_obj := (l_obj ?v)\<lparr>lk_lock := 1, lk_cpu := Some ?h\<rparr>\<rparr> = lk_view lk sie pc t"
    unfolding push_step_view
    by (simp add: t lk_view_def enter_def is_interrupt_def csr_defs csrr_def)
  moreover have "l_pc ?v ?h = Out" "lk_lock (l_obj ?v) = 0"
    using assms by (simp_all add: lk_view_def lk_free_def)
  ultimately show ?thesis using solo_lock [of ?v ?h] by simp
qed

lemma pop_off_Ok:
  assumes "pop_off s = Ok () t"
  shows "\<not> is_interrupt s" "\<not> c_depth (cpus s (this_cpu s)) < 1"
    and "pop_step (this_cpu s) (lk_view lk sie pc s) = lk_view lk sie pc t"
proof -
  let ?c = "this_cpu s"
  show i: "\<not> is_interrupt s" and d: "\<not> c_depth (cpus s ?c) < 1"
    using assms by (auto simp: pop_off_def panic_not_Ok Let_def split: if_splits)
  let ?s = "set_cpu ?c (\<lambda>u. u\<lparr>c_depth := c_depth u - 1\<rparr>) s"
  let ?e = "c_depth (cpus s ?c) = 1 \<and> c_intena (cpus s ?c) \<noteq> 0"
  have t: "t = (if ?e then interrupt_on ?s else ?s)"
    using assms i d by (cases ?e) (auto simp: pop_off_def Let_def set_cpu_def)
  have c: "cpus t = cpus ?s" "locks t = locks s" "this_cpu t = ?c"
    by (simp_all add: t interrupt_on_def csr_defs)
  have "is_interrupt t \<longleftrightarrow> ?e"
    using i by (simp add: t interrupt_on_def is_interrupt_def csr_defs csrr_def csrw_def)
  then show "pop_step ?c (lk_view lk sie pc s) = lk_view lk sie pc t"
    using i by (cases "is_interrupt t") (auto simp: pop_step_def lk_view_def Let_def c set_cpu_def)
qed

lemma release_pair:
  "atomic_swap lk 0 (set_lock lk (\<lambda>l. l\<lparr>lk_cpu := None\<rparr>) s) =
    (lk_lock (locks s lk), set_lock lk (\<lambda>l. l\<lparr>lk_cpu := None, lk_lock := 0\<rparr>) s)"
  by (simp add: atomic_swap_def set_lock_def)

lemma unlock_solo:
  assumes "pc (this_cpu s) = Crit" "unlock lk s = Ok () t"
  shows "(lstep (this_cpu s))\<^sup>*\<^sup>* (lk_view lk sie pc s) (goto (this_cpu s) Out (lk_view lk sie pc t))"
proof -
  let ?h = "this_cpu s" and ?v = "lk_view lk sie pc s"
  let ?s = "set_lock lk (\<lambda>l. l\<lparr>lk_cpu := None, lk_lock := 0\<rparr>) s"
  have h: "holding lk s"
    using assms(2) by (cases "holding lk s") (simp_all add: unlock_def panic_not_Ok)
  then have p: "pop_off ?s = Ok () t"
    using assms(2) by (simp add: unlock_def release_pair)
  have "\<not> is_interrupt s" "\<not> c_depth (cpus s ?h) < 1"
    using pop_off_Ok(1,2) [OF p] by (simp_all add: is_interrupt_def hart_defs)
  then have "(lstep ?h)\<^sup>*\<^sup>* ?v (goto ?h Out (pop_step ?h (?v\<lparr>l_obj := (l_obj ?v)\<lparr>lk_cpu := None, lk_lock := 0\<rparr>\<rparr>)))"
    using assms(1) h by (intro solo_unlock) (simp_all add: lk_view_def holding_def)
  moreover have "?v\<lparr>l_obj := (l_obj ?v)\<lparr>lk_cpu := None, lk_lock := 0\<rparr>\<rparr> = lk_view lk sie pc ?s"
    by (simp add: lk_view_def set_lock_def is_interrupt_def hart_defs)
  moreover have "pop_step ?h (lk_view lk sie pc ?s) = lk_view lk sie pc t"
    using pop_off_Ok(3) [OF p, of lk sie pc] by (simp add: hart_defs)
  ultimately show ?thesis by simp
qed

text \<open>
  C4 (refinement). Without interference the interleaved steps are the sequential functions: if
  \<open>lock\<close> returns on a free lock, the hart's own steps lead from outside to the critical section
  in exactly the state \<open>lock\<close> returned, and if \<open>unlock\<close> returns, its steps lead out again to
  the state \<open>unlock\<close> returned.
\<close>

theorem lock_unlock_solo_runs:
  "(lk_free lk s \<and> pc (this_cpu s) = Out \<and> lock lk s = Ok () t \<longrightarrow>
      (lstep (this_cpu s))\<^sup>*\<^sup>* (lk_view lk sie pc s) (goto (this_cpu s) Crit (lk_view lk sie pc t)))
   \<and> (pc (this_cpu s) = Crit \<and> unlock lk s = Ok () t \<longrightarrow>
      (lstep (this_cpu s))\<^sup>*\<^sup>* (lk_view lk sie pc s) (goto (this_cpu s) Out (lk_view lk sie pc t)))"
  using lock_solo unlock_solo by blast

theorem lock_unlock_solo_runs_witness:
  "\<exists>t. lock Mem_lock idle_locks = Ok () t \<and>
     (lstep (this_cpu idle_locks))\<^sup>*\<^sup>* (lk_view Mem_lock (\<lambda>_. False) (\<lambda>_. Out) idle_locks)
       (goto (this_cpu idle_locks) Crit (lk_view Mem_lock (\<lambda>_. False) (\<lambda>_. Out) t))"
  using lock_unlock_solo_runs [of Mem_lock idle_locks "\<lambda>_. Out" _ "\<lambda>_. False"]
  by (simp add: lock_free)

text \<open>A concrete run for the witnesses of the properties above: hart 0 takes the lock.\<close>

definition one_in :: lkproto where
  "one_in = goto 0 Crit (let s = lk_view Mem_lock (\<lambda>_. False) (\<lambda>_. Out) idle_locks
     in (push_step 0 s)\<lparr>l_obj := (l_obj s)\<lparr>lk_lock := 1, lk_cpu := Some 0\<rparr>\<rparr>)"

lemma reachable_run: "(lstep h)\<^sup>*\<^sup>* s t \<Longrightarrow> lk_reachable s \<Longrightarrow> lk_reachable t"
  by (induction rule: rtranclp_induct) (auto intro: lk_reachable.step)

lemma one_in_reachable: "lk_reachable one_in"
proof -
  let ?s = "lk_view Mem_lock (\<lambda>_. False) (\<lambda>_. Out) idle_locks"
  have "lk_start ?s"
    by (simp add: lk_start_def lk_view_def idle_locks_def idle_console_def console.defs lockst.defs
        is_interrupt_def hart_defs)
  then show ?thesis
    using reachable_run [OF solo_lock [of ?s 0]] lk_reachable.start [of ?s]
    by (simp add: one_in_def Let_def lk_start_def)
qed

lemma one_in_pc: "l_pc one_in 0 = Crit"
  by (simp add: one_in_def)

theorem spinlock_mutual_exclusion_witness: "{k. l_pc one_in k = Crit} = {0}"
  using spinlock_mutual_exclusion [OF one_in_reachable] one_in_pc by blast

theorem spinlock_holding_exact_witness:
  "lk_cpu (l_obj one_in) = Some 0 \<and> \<not> l_sie one_in 0"
  using spinlock_holding_exact [OF one_in_reachable, of 0] one_in_pc by (simp add: point_defs)

text \<open>The step of one hart as a function, and the run of hart 0 alone, which takes and gives back the lock for ever.\<close>

definition lk_next :: "nat \<Rightarrow> lkproto \<Rightarrow> lkproto" where
  "lk_next h s = (case l_pc s h of
       Out \<Rightarrow> goto h L_push s
     | L_push \<Rightarrow> goto h L_word (push_step h s)
     | L_word \<Rightarrow> goto h (if lk_lock (l_obj s) = 0 then L_swap else L_owner) s
     | L_owner \<Rightarrow> goto h (if lk_cpu (l_obj s) = Some h then Panicked else L_swap) s
     | L_swap \<Rightarrow> goto h (if lk_lock (l_obj s) = 0 then L_store else L_swap) (s\<lparr>l_obj := (l_obj s)\<lparr>lk_lock := 1\<rparr>\<rparr>)
     | L_store \<Rightarrow> goto h Crit (s\<lparr>l_obj := (l_obj s)\<lparr>lk_cpu := Some h\<rparr>\<rparr>)
     | Crit \<Rightarrow> goto h U_word s
     | U_word \<Rightarrow> goto h (if lk_lock (l_obj s) = 0 then Panicked else U_owner) s
     | U_owner \<Rightarrow> goto h (if lk_cpu (l_obj s) = Some h then U_clear else Panicked) s
     | U_clear \<Rightarrow> goto h U_swap (s\<lparr>l_obj := (l_obj s)\<lparr>lk_cpu := None\<rparr>\<rparr>)
     | U_swap \<Rightarrow> goto h U_pop (s\<lparr>l_obj := (l_obj s)\<lparr>lk_lock := 0\<rparr>\<rparr>)
     | U_pop \<Rightarrow> if l_sie s h \<or> c_depth (l_cpu s h) < 1 then goto h Panicked s else goto h Out (pop_step h s)
     | Panicked \<Rightarrow> s)"

lemma goto_same: "l_pc s h = p \<Longrightarrow> goto h p (s\<lparr>l_obj := x\<rparr>) = s\<lparr>l_obj := x\<rparr>"
  by (simp add: goto_def fun_upd_idem)

lemma lstep_next: "lstep h s t \<longleftrightarrow> l_pc s h \<noteq> Panicked \<and> t = lk_next h s"
proof
  assume "lstep h s t"
  then show "l_pc s h \<noteq> Panicked \<and> t = lk_next h s"
    by (cases rule: lstep.cases) (simp_all add: lk_next_def goto_same)
next
  assume "l_pc s h \<noteq> Panicked \<and> t = lk_next h s"
  then show "lstep h s t"
    by (cases "l_pc s h") (auto simp: lk_next_def goto_same intro: lstep.intros)
qed

lemma alone_fair:
  assumes "lk_start s"
  shows "fair_run (\<lambda>n. (lk_next h ^^ n) s) (\<lambda>_. h)"
proof -
  have reach: "lk_reachable ((lk_next h ^^ n) s) \<and> (\<forall>k. k \<noteq> h \<longrightarrow> l_pc ((lk_next h ^^ n) s) k = Out)" for n
  proof (induction n)
    case 0
    then show ?case using assms by (auto simp: lk_start_def intro: lk_reachable.start)
  next
    case (Suc n)
    let ?u = "(lk_next h ^^ n) s"
    have "l_pc ?u h \<noteq> Panicked" using reachable_inv [of ?u] Suc by (simp add: lk_inv_def)
    then have st: "lstep h ?u (lk_next h ?u)" by (simp add: lstep_next)
    then show ?case using Suc lstep_other [OF st] by (auto intro: lk_reachable.step)
  qed
  have "l_pc ((lk_next h ^^ n) s) h \<noteq> Panicked" for n
    using reach [of n] reachable_inv by (auto simp: lk_inv_def)
  moreover have "\<exists>m\<ge>n. h = k" if "l_pc ((lk_next h ^^ n) s) k \<noteq> Out" for k n
    using reach [of n] that by (metis order_refl)
  ultimately show ?thesis using reach [of 0] by (auto simp: fair_run_def lstep_next)
qed

abbreviation lone :: lkproto where
  "lone \<equiv> lk_view Mem_lock (\<lambda>_. False) (\<lambda>_. Out) idle_locks"

theorem spinlock_progress_witness:
  "(\<exists>m\<ge>1. \<exists>k. l_pc ((lk_next 0 ^^ m) lone) k \<noteq> Crit \<and> l_pc ((lk_next 0 ^^ Suc m) lone) k = Crit)"
proof -
  have "lk_start lone"
    by (simp add: lk_start_def lk_view_def idle_locks_def idle_console_def console.defs lockst.defs
        is_interrupt_def hart_defs)
  moreover have "waiting (l_pc ((lk_next 0 ^^ 1) lone) 0)"
    by (simp add: lk_next_def lk_view_def waiting_def)
  ultimately show ?thesis using spinlock_progress [OF alone_fair [of lone 0], of 1 0] by blast
qed

end
