(* ===== verification/Memory.thy ===== *)
theory Memory
  imports Spinlock
begin

text \<open>
  Physical memory as \<^verbatim>\<open>kernel/mem.c\<close> handles it: the layout constants and page rounding of
  \<^verbatim>\<open>kernel/mem.h\<close>, little-endian word access, and the block operations \<open>memset\<close>,
  \<open>memmove\<close> and \<open>memcpy\<close> as the loops of the source. Shown: rounding is rounding to page
  boundaries, \<open>memset\<close> fills exactly its block, and \<open>memmove\<close> copies a block whatever the
  overlap. \<open>in_block p n a\<close> says that the address \<open>a\<close> lies in the \<open>n\<close> bytes from \<open>p\<close>.
\<close>

section \<open>Layout\<close>

definition MEM_START :: u32 where "MEM_START = 0x80000000"
definition KERNBASE :: u32 where "KERNBASE = 0x80000000"
definition MEM_END :: u32 where "MEM_END = 0x88000000"
definition PAGE_SIZE :: u32 where "PAGE_SIZE = 4096"
definition NUM_PAGES :: nat where "NUM_PAGES = unat ((MEM_END - MEM_START) div PAGE_SIZE)"

definition PGROUNDUP :: "u32 \<Rightarrow> u32" where
  "PGROUNDUP sz = (sz + PAGE_SIZE - 1) AND NOT (PAGE_SIZE - 1)"

definition PGROUNDDOWN :: "u32 \<Rightarrow> u32" where
  "PGROUNDDOWN a = a AND NOT (PAGE_SIZE - 1)"

section \<open>Words in memory\<close>

definition load16 :: "memory \<Rightarrow> u32 \<Rightarrow> u16" where
  "load16 m a = ucast (m a) OR push_bit 8 (ucast (m (a + 1)))"

definition load32 :: "memory \<Rightarrow> u32 \<Rightarrow> u32" where
  "load32 m a = ucast (m a) OR push_bit 8 (ucast (m (a + 1))) OR push_bit 16 (ucast (m (a + 2)))
     OR push_bit 24 (ucast (m (a + 3)))"

definition store32 :: "u32 \<Rightarrow> u32 \<Rightarrow> memory \<Rightarrow> memory" where
  "store32 a v m = m(a := ucast v, a + 1 := ucast (drop_bit 8 v), a + 2 := ucast (drop_bit 16 v),
     a + 3 := ucast (drop_bit 24 v))"

section \<open>Block operations\<close>

text \<open>
  \<open>memset\<close>: the loop body runs \<open>num\<close> times. Its counter is an \<^verbatim>\<open>int\<close>, so a \<open>num\<close>
  above \<open>INT_MAX\<close> overflows it.
\<close>

fun memset_loop :: "nat \<Rightarrow> u32 \<Rightarrow> u8 \<Rightarrow> memory \<Rightarrow> memory" where
  "memset_loop 0 p v m = m"
| "memset_loop (Suc n) p v m = memset_loop n (p + 1) v (m(p := v))"

definition memset :: "u32 \<Rightarrow> u32 \<Rightarrow> u32 \<Rightarrow> 'a machine_scheme \<Rightarrow> (u32, 'a machine_scheme) res" where
  "memset p value num s =
     (if 0x7FFFFFFF < num then Undef s
      else Ok p (s\<lparr>mem := memset_loop (unat num) p (ucast value) (mem s)\<rparr>))"

fun move_down :: "nat \<Rightarrow> u32 \<Rightarrow> u32 \<Rightarrow> memory \<Rightarrow> memory" where
  "move_down 0 d s m = m"
| "move_down (Suc n) d s m = move_down n (d - 1) (s - 1) (m(d - 1 := m (s - 1)))"

fun move_up :: "nat \<Rightarrow> u32 \<Rightarrow> u32 \<Rightarrow> memory \<Rightarrow> memory" where
  "move_up 0 d s m = m"
| "move_up (Suc n) d s m = move_up n (d + 1) (s + 1) (m(d := m s))"

definition memmove :: "u32 \<Rightarrow> u32 \<Rightarrow> u32 \<Rightarrow> 'a machine_scheme \<Rightarrow> (u32, 'a machine_scheme) res" where
  "memmove dst src n s =
     (if n = 0 then Ok dst s
      else if src < dst \<and> src + n > dst
      then Ok dst (s\<lparr>mem := move_down (unat n) (dst + n) (src + n) (mem s)\<rparr>)
      else Ok dst (s\<lparr>mem := move_up (unat n) dst src (mem s)\<rparr>))"

definition memcpy :: "u32 \<Rightarrow> u32 \<Rightarrow> u32 \<Rightarrow> 'a machine_scheme \<Rightarrow> (u32, 'a machine_scheme) res" where
  "memcpy dst src n s = memmove dst src n s"

section \<open>Pages\<close>

lemma NUM_PAGES_eq [page_arith]: "NUM_PAGES = 32768"
  by (simp add: NUM_PAGES_def MEM_END_def MEM_START_def PAGE_SIZE_def)

lemma page_mask: "PAGE_SIZE - 1 = mask 12" "(0xFFF :: u32) = mask 12"
  by (simp_all add: PAGE_SIZE_def mask_eq_exp_minus_1)

lemma unat_low12 [page_arith]: "unat (a AND mask 12 :: u32) = unat a mod 4096"
  by (simp add: take_bit_eq_mask [symmetric] unsigned_take_bit_eq take_bit_eq_mod unat_mod)

lemma clear_low12: "(a AND NOT (mask 12) :: u32) = push_bit 12 (drop_bit 12 a)"
  by (rule bit_word_eqI) (auto simp: bit_simps)

lemma unat_clear_low12: "unat (a AND NOT (mask 12) :: u32) = unat a div 4096 * 4096"
  using unat_u32_lt [of a] div_times_less_eq_dividend [of "unat a" 4096]
  by (simp add: clear_low12 push_bit_eq_mult drop_bit_eq_div unat_word_ariths(2) unat_div)

lemma unat_PGROUNDDOWN [page_arith]: "unat (PGROUNDDOWN a) = unat a div 4096 * 4096"
  by (simp add: PGROUNDDOWN_def page_mask unat_clear_low12)

lemma unat_PGROUNDUP [page_arith]:
  assumes "unat a \<le> 0xFFFFF000"
  shows "unat (PGROUNDUP a) = (unat a + 4095) div 4096 * 4096"
proof -
  have "PGROUNDUP a = (a + 4095) AND NOT (mask 12)"
    by (simp add: PGROUNDUP_def page_mask(1) [symmetric] add_diff_eq [symmetric]) (simp add: PAGE_SIZE_def)
  moreover have "unat (a + 4095) = unat a + 4095"
    using assms unat_add_lt [of a 4095] by simp
  ultimately show ?thesis by (simp only: unat_clear_low12)
qed

lemma unat_mod_page [page_arith]: "unat (a mod PAGE_SIZE) = unat a mod 4096"
  by (simp add: PAGE_SIZE_def unat_mod)

text \<open>Page aligned addresses.\<close>

definition page_aligned :: "u32 \<Rightarrow> bool" where
  "page_aligned p \<longleftrightarrow> unat p mod 4096 = 0"

lemma mod_page_eq_0: "a mod PAGE_SIZE = 0 \<longleftrightarrow> page_aligned a"
  by (simp add: unat_eq_iff_u32 page_arith page_aligned_def)

lemma page_aligned_rounded [simp]: "page_aligned (PGROUNDDOWN a)"
  by (simp add: page_aligned_def page_arith)

lemma PGROUNDDOWN_aligned: "page_aligned a \<Longrightarrow> PGROUNDDOWN a = a"
  by (simp add: unat_eq_iff_u32 page_arith page_aligned_def) (simp add: div_mult_mod_eq minus_mod_eq_div_mult [symmetric])

lemma PGROUNDUP_aligned: "page_aligned a \<Longrightarrow> PGROUNDUP a = a"
proof -
  assume "page_aligned a"
  then obtain k where k: "unat a = 4096 * k" by (auto simp: page_aligned_def)
  then have "unat a \<le> 0xFFFFF000" using unat_u32_lt [of a] by simp
  with k show ?thesis by (simp add: unat_eq_iff_u32 page_arith)
qed

lemma quotient_range:
  fixes x :: nat
  assumes "0 < k"
  shows "k * q \<le> x \<and> x < k * q + k \<longleftrightarrow> x div k = q"
proof
  assume "x div k = q"
  then show "k * q \<le> x \<and> x < k * q + k"
    using div_mult_mod_eq [of x k] mod_less_divisor [OF assms, of x] by (auto simp: mult.commute)
qed (simp add: div_nat_eqI add.commute mult.commute)

text \<open>An aligned block is the set of addresses with the same quotient.\<close>

lemma in_block_aligned:
  assumes "unat p mod k = 0" "k dvd 4294967296" "0 < k"
  shows "in_block p k a \<longleftrightarrow> unat a div k = unat p div k"
proof -
  obtain q where q: "unat p = k * q" using assms(1) by auto
  obtain r where r: "4294967296 = k * r" using assms(2) by (auto simp: dvd_def)
  have "k * q < k * r" using unat_u32_lt [of p] unfolding q r .
  then have "q < r" using assms(3) by simp
  then have "k * (q + 1) \<le> k * r" by (intro mult_le_mono) auto
  then have "in_block p k a \<longleftrightarrow> unat p \<le> unat a \<and> unat a < unat p + k"
    using q r by (intro in_block_nowrap) simp
  also have "\<dots> \<longleftrightarrow> unat a div k = unat p div k"
    using assms(3) by (simp add: q quotient_range)
  finally show ?thesis .
qed

lemma in_page_iff:
  assumes "page_aligned p"
  shows "in_block p 4096 a \<longleftrightarrow> PGROUNDDOWN a = p"
proof -
  have "in_block p 4096 a \<longleftrightarrow> unat a div 4096 = unat p div 4096"
    using assms by (intro in_block_aligned) (simp_all add: page_aligned_def)
  also have "\<dots> \<longleftrightarrow> unat a div 4096 * 4096 = unat p div 4096 * 4096" by simp
  also have "\<dots> \<longleftrightarrow> PGROUNDDOWN a = p"
    using assms by (simp add: unat_eq_iff_u32 page_arith page_aligned_def minus_mod_eq_div_mult [symmetric])
  finally show ?thesis .
qed

section \<open>Loads and stores\<close>

lemma load32_store32 [mem_simps]: "load32 (store32 a v m) a = v"
proof -
  have *: "a + 1 \<noteq> a" "a + 2 \<noteq> a" "a + 3 \<noteq> a" "a + 2 \<noteq> a + 1" "a + 3 \<noteq> a + 1" "a + 3 \<noteq> a + 2" by simp_all
  show ?thesis
  proof (rule bit_word_eqI)
    fix n :: nat
    assume n: "n < LENGTH(32)"
    consider "n < 8" | "8 \<le> n \<and> n < 16" | "16 \<le> n \<and> n < 24" | "24 \<le> n" by linarith
    then show "bit (load32 (store32 a v m) a) n = bit v n"
      using n by cases (auto simp: load32_def store32_def bit_simps)
  qed
qed

lemma load32_cong:
  assumes "\<And>x. in_block a 4 x \<Longrightarrow> m x = m' x"
  shows "load32 m a = load32 m' a"
  using assms [of a] assms [of "a + 1"] assms [of "a + 2"] assms [of "a + 3"]
  by (simp add: load32_def in_block_def)

lemma store32_other [mem_simps]: "\<not> in_block a 4 x \<Longrightarrow> store32 a v m x = m x"
  by (auto simp: store32_def in_block_def)

lemma load32_store32_other [mem_simps]:
  assumes "unat a mod 4 = 0" "unat b mod 4 = 0" "a \<noteq> b"
  shows "load32 (store32 b v m) a = load32 m a"
proof (rule load32_cong)
  fix x
  assume "in_block a 4 x"
  then have "unat x div 4 = unat a div 4" using assms(1) in_block_aligned [of a 4 x] by simp
  moreover have "unat a \<noteq> unat b" using assms(3) by (simp add: unat_eq_iff_u32)
  then have "unat a div 4 \<noteq> unat b div 4" using assms(1,2)
    by (metis mod_0_imp_dvd dvd_div_mult_self)
  ultimately have "\<not> in_block b 4 x" using assms(2) in_block_aligned [of b 4 x] by simp
  then show "store32 b v m x = m x" by (rule store32_other)
qed

section \<open>Blocks\<close>

lemma in_block_Suc: "in_block p (Suc n) a \<longleftrightarrow> a = p \<or> in_block (p + 1) n a" if "n < 4294967296"
proof (cases "a = p")
  case True
  then show ?thesis by (simp add: in_block_def)
next
  case False
  then have "unat (a - p) \<noteq> 0" by (simp add: unat_eq_0)
  then have "unat (a - (p + 1)) = unat (a - p) - 1"
    using unat_minus_one [of "a - p"] False by (simp add: diff_diff_eq)
  with False \<open>unat (a - p) \<noteq> 0\<close> show ?thesis by (auto simp: in_block_def)
qed

definition fill_block :: "u32 \<Rightarrow> nat \<Rightarrow> u8 \<Rightarrow> memory \<Rightarrow> memory" where
  "fill_block p n v m = (\<lambda>a. if in_block p n a then v else m a)"

definition copy_block :: "u32 \<Rightarrow> u32 \<Rightarrow> nat \<Rightarrow> memory \<Rightarrow> memory" where
  "copy_block d s n m = (\<lambda>a. if in_block d n a then m (s + (a - d)) else m a)"

lemma memset_loop_fill: "n \<le> 4294967296 \<Longrightarrow> memset_loop n p v m = fill_block p n v m"
proof (induction n arbitrary: p m)
  case 0
  then show ?case by (simp add: fill_block_def)
next
  case (Suc n)
  then show ?case by (auto simp: fill_block_def in_block_Suc fun_eq_iff)
qed


lemma in_block_last:
  assumes "n < 4294967296"
  shows "in_block p (Suc n) a \<longleftrightarrow> in_block p n a \<or> a = p + of_nat n"
proof -
  have "unat (a - p) = n \<longleftrightarrow> a - p = of_nat n"
    using assms by (auto simp: unat_eq_iff_u32)
  then show ?thesis by (auto simp: in_block_def algebra_simps less_Suc_eq)
qed

lemma not_in_block_next: "n < 4294967296 \<Longrightarrow> \<not> in_block (p + 1) n p"
  by (simp add: in_block_def unsigned_minus_1_eq_mask mask_eq_exp_minus_1)

lemma move_up_copy: "unat (s - d) + n \<le> 4294967296 \<Longrightarrow> move_up n d s m = copy_block d s n m"
proof (induction n arbitrary: d s m)
  case 0
  then show ?case by (simp add: copy_block_def)
next
  case (Suc n)
  let ?m = "m(d := m s)"
  have n: "n < 4294967296" using Suc.prems by linarith
  have "move_up (Suc n) d s m = copy_block (d + 1) (s + 1) n ?m"
    using Suc.IH [of "s + 1" "d + 1" ?m] Suc.prems by (simp del: fun_upd_apply)
  also have "\<dots> = copy_block d s (Suc n) m"
  proof
    fix a
    have ne: "s + (a - d) \<noteq> d" if "in_block (d + 1) n a" "a \<noteq> d"
    proof
      assume "s + (a - d) = d"
      then have "(a - d) + (s - d) = 0" by (simp add: algebra_simps)
      moreover have "unat (a - d) \<le> n"
        using that n in_block_Suc [of n d a] by (simp add: in_block_def)
      then have "unat (a - d) + unat (s - d) < 4294967296" using Suc.prems by linarith
      then have "unat ((a - d) + (s - d)) = unat (a - d) + unat (s - d)"
        by (intro unat_add_lt) simp
      ultimately have "unat (a - d) = 0" by simp
      with that(2) show False by (simp add: unat_eq_0)
    qed
    show "copy_block (d + 1) (s + 1) n ?m a = copy_block d s (Suc n) m a"
    proof (cases "a = d")
      case True
      then show ?thesis using n by (simp add: copy_block_def in_block_Suc not_in_block_next)
    next
      case False
      then show ?thesis using ne n by (simp add: copy_block_def in_block_Suc diff_add_eq_diff_diff_swap)
    qed
  qed
  finally show ?case .
qed

lemma move_down_copy:
  "unat (d - s) + n \<le> 4294967296 \<Longrightarrow> move_down n (d + of_nat n) (s + of_nat n) m = copy_block d s n m"
proof (induction n arbitrary: m)
  case 0
  then show ?case by (simp add: copy_block_def)
next
  case (Suc n)
  let ?m = "m(d + of_nat n := m (s + of_nat n))"
  have n: "n < 4294967296" using Suc.prems by linarith
  have "move_down (Suc n) (d + of_nat (Suc n)) (s + of_nat (Suc n)) m = copy_block d s n ?m"
    using Suc.IH [of ?m] Suc.prems by (simp del: fun_upd_apply)
  also have "\<dots> = copy_block d s (Suc n) m"
  proof
    fix a
    have ne: "s + (a - d) \<noteq> d + of_nat n" if "in_block d n a"
    proof
      assume "s + (a - d) = d + of_nat n"
      then have "a - d = (d - s) + of_nat n" by (simp add: algebra_simps)
      moreover have "unat ((d - s) + of_nat n) = unat (d - s) + n"
        using Suc.prems n unat_add_lt [of "d - s" "of_nat n"] by simp
      ultimately have "unat (a - d) = unat (d - s) + n" by (simp only:)
      with that show False by (simp add: in_block_def)
    qed
    have "\<not> in_block d n (d + of_nat n)" using n by (simp add: in_block_def)
    then show "copy_block d s n ?m a = copy_block d s (Suc n) m a"
      using ne n by (auto simp: copy_block_def in_block_last)
  qed
  finally show ?case .
qed

lemma memset_fill:
  "num \<le> 0x7FFFFFFF \<Longrightarrow> memset p value num s = Ok p (s\<lparr>mem := fill_block p (unat num) (ucast value) (mem s)\<rparr>)"
  using unat_u32_lt [of num] by (simp add: memset_def memset_loop_fill)

lemma memmove_copy:
  assumes "unat dst + unat n \<le> 4294967296" "unat src + unat n \<le> 4294967296"
  shows "memmove dst src n s = Ok dst (s\<lparr>mem := copy_block dst src (unat n) (mem s)\<rparr>)"
proof (cases "n = 0")
  case True
  then show ?thesis by (simp add: memmove_def copy_block_def)
next
  case n: False
  show ?thesis
  proof (cases "src < dst \<and> src + n > dst")
    case True
    then have "unat (dst - src) = unat dst - unat src" by (simp add: unat_sub less_imp_le)
    then have "unat (dst - src) + unat n \<le> 4294967296" using assms(1) by linarith
    from move_down_copy [OF this, of "mem s"] True n show ?thesis
      by (simp add: memmove_def)
  next
    case False
    have "unat (src - dst) + unat n \<le> 4294967296"
    proof (cases "src < dst")
      case True
      then have lt: "unat src < unat dst" by (simp add: word_less_nat_alt)
      then have "unat (src - dst) = unat src + 4294967296 - unat dst"
        by (simp add: unat_sub_if')
      moreover have "unat src + unat n \<le> unat dst"
      proof (rule ccontr)
        assume *: "\<not> unat src + unat n \<le> unat dst"
        then have "unat src + unat n < 4294967296" using lt assms(1) by linarith
        then have "unat (src + n) = unat src + unat n" by (intro unat_add_lt) simp
        with * True False show False by (simp add: word_less_nat_alt)
      qed
      ultimately show ?thesis using unat_u32_lt [of dst] by linarith
    next
      case ge: False
      then have "unat (src - dst) = unat src - unat dst" by (simp add: unat_sub)
      then show ?thesis using assms(2) by linarith
    qed
    from move_up_copy [OF this, of "mem s"] False n show ?thesis by (auto simp: memmove_def)
  qed
qed

text \<open>
  C15 (functional). \<open>memmove\<close> copies correctly whatever the overlap of the two blocks: if neither
  runs past the end of the address space, afterwards the destination block holds the bytes the
  source block held before and no other byte has changed.
\<close>

theorem memmove_correct:
  assumes "unat dst + unat n \<le> 2 ^ 32" "unat src + unat n \<le> 2 ^ 32"
  shows "\<exists>t. memmove dst src n s = Ok dst t \<and> t = s\<lparr>mem := mem t\<rparr>
    \<and> (\<forall>i. i < unat n \<longrightarrow> mem t (dst + of_nat i) = mem s (src + of_nat i))
    \<and> (\<forall>a. \<not> in_block dst (unat n) a \<longrightarrow> mem t a = mem s a)"
proof -
  have "in_block dst (unat n) (dst + of_nat i)" if "i < unat n" for i
    using that unat_u32_lt [of n] by (simp add: in_block_def)
  then show ?thesis
    using memmove_copy [of dst n src s] assms by (auto simp: copy_block_def)
qed

text \<open>Overlapping both ways: the string \<^verbatim>\<open>abcdef\<close> moved up and down by two.\<close>

theorem memmove_correct_witness:
  "\<exists>t. memmove 0x1002 0x1000 6 (idle_console\<lparr>mem := (\<lambda>a. ucast a)\<rparr>) = Ok 0x1002 t
    \<and> mem t 0x1002 = 0 \<and> mem t 0x1007 = 5 \<and> mem t 0x1008 = 8"
proof -
  obtain t where t: "memmove 0x1002 0x1000 6 (idle_console\<lparr>mem := (\<lambda>a. ucast a)\<rparr>) = Ok 0x1002 t"
    "\<forall>i. i < unat (6 :: u32) \<longrightarrow> mem t (0x1002 + of_nat i) = ucast (0x1000 + of_nat i :: u32)"
    "\<forall>a. \<not> in_block 0x1002 (unat (6 :: u32)) a \<longrightarrow> mem t a = ucast a"
    using memmove_correct [of "0x1002" 6 "0x1000" "idle_console\<lparr>mem := (\<lambda>a. ucast a)\<rparr>"] by auto
  from t(2) [rule_format, of 0] t(2) [rule_format, of 5] t(3) [rule_format, of "0x1008"] t(1)
  show ?thesis by (auto simp: in_block_def)
qed

end
