(* ===== verification/Allocator.thy ===== *)
theory Allocator
  imports Memory "HOL-Library.Signed_Division"
begin

text \<open>
  The physical page allocator of \<^verbatim>\<open>kernel/mem.c\<close>: a byte map with one entry per page of RAM,
  1 for a free page, under \<^verbatim>\<open>mem_lock\<close>. Shown: \<open>kalloc\<close> hands out the lowest free page and
  fails exactly when there is none, \<open>kfree\<close> takes back exactly the allocated pages of the
  allocatable range and panics on every other address, allocating and freeing in any order
  neither loses nor duplicates a page, and \<open>init_bitmap\<close> makes exactly the pages above the
  kernel image free.
\<close>

section \<open>State and operations\<close>

record memst = lockst +
  mem_bitmap :: "nat \<Rightarrow> u8"
  start_page :: u32

definition page_empty :: "int \<Rightarrow> 'a memst_scheme \<Rightarrow> (u8, 'a memst_scheme) res" where
  "page_empty i s = (if 0 \<le> i \<and> i < int NUM_PAGES then Ok (mem_bitmap s (nat i)) s else Undef s)"

text \<open>The pointer difference and the division are signed.\<close>

definition page_idx :: "u32 \<Rightarrow> int" where
  "page_idx pa =
     (let addr = PGROUNDDOWN pa;
          idx = sint (addr - MEM_START) sdiv 4096
      in if idx < 0 then -1 else idx)"

definition print_mem :: "u32 \<Rightarrow> int \<Rightarrow> int \<Rightarrow> 'a memst_scheme \<Rightarrow> (unit, 'a memst_scheme) res" where
  "print_mem addr len increment s =
     (if \<not> (increment = 1 \<or> increment = 2 \<or> increment = 4) then printf ''Invalid increment'' [] s
      else kloop (\<lambda>i s.
        if i < len
        then (let curr_addr = addr + of_int i
              in kbind (printf ''%p: '' [VInt curr_addr] s) (\<lambda>_ s.
                 let val = (if increment = 1 then ucast (mem s curr_addr)
                            else if increment = 2 then ucast (load16 (mem s) curr_addr)
                            else load32 (mem s) curr_addr)
                 in kbind (printf (''%p'' @ [CHR 0x0A]) [VInt val] s) (\<lambda>_ s.
                    if i + increment > 0x7FFFFFFF then Undef s else Ok (Inl (i + increment)) s)))
        else Ok (Inr ()) s) 0 s)"

definition kfree :: "u32 \<Rightarrow> 'a memst_scheme \<Rightarrow> (unit, 'a memst_scheme) res" where
  "kfree pa s =
     (if pa mod PAGE_SIZE \<noteq> 0 then panic ''kfree: address not page aligned'' s
      else if pa < start_page s \<or> MEM_END \<le> pa
      then panic ''kfree: address outside the allocatable range'' s
      else
        let i = page_idx pa
        in kbind (memset pa 0 PAGE_SIZE s) (\<lambda>_ s.
           kbind (lock Mem_lock s) (\<lambda>_ s.
           if \<not> (0 \<le> i \<and> i < int NUM_PAGES) then Undef s
           else if mem_bitmap s (nat i) \<noteq> 0
           then kbind (unlock Mem_lock s) (\<lambda>_ s. panic ''kfree: double free'' s)
           else unlock Mem_lock (s\<lparr>mem_bitmap := (mem_bitmap s)(nat i := 1)\<rparr>))))"

text \<open>The search loop of \<open>kalloc\<close>: the first index from \<open>i\<close> on whose entry is set.\<close>

function kalloc_scan :: "nat \<Rightarrow> (nat \<Rightarrow> u8) \<Rightarrow> nat option" where
  "kalloc_scan i b =
     (if i < NUM_PAGES then if b i \<noteq> 0 then Some i else kalloc_scan (Suc i) b else None)"
  by auto
termination by (relation "measure (\<lambda>(i, b). NUM_PAGES - i)") auto

declare kalloc_scan.simps [simp del]

definition kalloc :: "'a memst_scheme \<Rightarrow> (u32, 'a memst_scheme) res" where
  "kalloc s =
     kbind (lock Mem_lock s) (\<lambda>_ s.
       case kalloc_scan 0 (mem_bitmap s) of
         Some i \<Rightarrow> kbind (unlock Mem_lock (s\<lparr>mem_bitmap := (mem_bitmap s)(i := 0)\<rparr>)) (\<lambda>_ s.
           Ok (MEM_START + of_nat i * PAGE_SIZE) s)
       | None \<Rightarrow> kbind (unlock Mem_lock s) (\<lambda>_ s. Ok 0 s))"

definition kfree_range :: "u32 \<Rightarrow> u32 \<Rightarrow> 'a memst_scheme \<Rightarrow> (unit, 'a memst_scheme) res" where
  "kfree_range start_pa end_pa s =
     kloop (\<lambda>curr s.
       if curr < PGROUNDDOWN end_pa
       then kbind (kfree curr s) (\<lambda>_ s. Ok (Inl (curr + PAGE_SIZE)) s)
       else Ok (Inr ()) s) (PGROUNDUP start_pa) s"

text \<open>\<open>end_sym\<close> is the address the linker gives the symbol \<^verbatim>\<open>end\<close>.\<close>

definition init_bitmap :: "u32 \<Rightarrow> 'a memst_scheme \<Rightarrow> (unit, 'a memst_scheme) res" where
  "init_bitmap end_sym s =
     (let s = init_lock Mem_lock ''mem'' s;
          s = s\<lparr>start_page := PGROUNDUP end_sym\<rparr>
      in if page_idx (start_page s) > int NUM_PAGES then Undef s
         else kfree_range (start_page s) MEM_END
           (s\<lparr>mem_bitmap := fold (\<lambda>i b. b(i := 0)) [0..<nat (page_idx (start_page s))] (mem_bitmap s)\<rparr>))"

section \<open>Pages and their indices\<close>

definition page_addr :: "nat \<Rightarrow> u32" where
  "page_addr i = MEM_START + of_nat i * PAGE_SIZE"

lemma unat_page_addr: "i < NUM_PAGES \<Longrightarrow> unat (page_addr i) = 0x80000000 + i * 4096"
proof -
  assume "i < NUM_PAGES"
  then have i: "i < 32768" by (simp add: page_arith)
  then have "unat (of_nat i * 4096 :: u32) = i * 4096"
    by (subst unat_mult_lem [THEN iffD1]) simp_all
  then show ?thesis
    using i unat_add_lt [of "0x80000000 :: u32" "of_nat i * 4096"]
    by (simp add: page_addr_def MEM_START_def PAGE_SIZE_def)
qed

lemma page_addr_aligned [simp]: "i < NUM_PAGES \<Longrightarrow> page_aligned (page_addr i)"
  by (simp add: page_aligned_def unat_page_addr)

lemma page_addr_nonnull [simp]: "i < NUM_PAGES \<Longrightarrow> page_addr i \<noteq> 0"
  using unat_page_addr [of i] by auto

lemma page_addr_inj: "i < NUM_PAGES \<Longrightarrow> j < NUM_PAGES \<Longrightarrow> page_addr i = page_addr j \<longleftrightarrow> i = j"
  by (auto simp: unat_eq_iff_u32 unat_page_addr)

text \<open>RAM pages, and the index of a page.\<close>

definition ram_page :: "u32 \<Rightarrow> bool" where
  "ram_page p \<longleftrightarrow> page_aligned p \<and> MEM_START \<le> p \<and> p < MEM_END"

definition page_no :: "u32 \<Rightarrow> nat" where
  "page_no p = (unat p - 0x80000000) div 4096"

lemma ram_page_unat: "ram_page p \<longleftrightarrow> (\<exists>i<NUM_PAGES. unat p = 0x80000000 + i * 4096)"
proof
  assume "ram_page p"
  then have p: "unat p mod 4096 = 0" "0x80000000 \<le> unat p" "unat p < 0x88000000"
    by (simp_all add: ram_page_def page_aligned_def MEM_START_def MEM_END_def word_le_nat_alt word_less_nat_alt)
  then obtain k where "unat p = 4096 * k" by auto
  with p have "unat p = 0x80000000 + (k - 524288) * 4096 \<and> k - 524288 < 32768" by auto
  then show "\<exists>i<NUM_PAGES. unat p = 0x80000000 + i * 4096" by (auto simp: page_arith)
qed (auto simp: ram_page_def page_aligned_def MEM_START_def MEM_END_def word_le_nat_alt word_less_nat_alt page_arith)

lemma ram_page_iff: "ram_page p \<longleftrightarrow> (\<exists>i<NUM_PAGES. p = page_addr i)"
  by (auto simp: ram_page_unat unat_eq_iff_u32 unat_page_addr)

lemma ram_page_addr [simp]: "i < NUM_PAGES \<Longrightarrow> ram_page (page_addr i)"
  by (auto simp: ram_page_iff)

lemma page_no_addr [simp]: "i < NUM_PAGES \<Longrightarrow> page_no (page_addr i) = i"
  by (simp add: page_no_def unat_page_addr)

lemma page_addr_no: "ram_page p \<Longrightarrow> page_addr (page_no p) = p"
  by (auto simp: ram_page_iff)

lemma page_no_lt: "ram_page p \<Longrightarrow> page_no p < NUM_PAGES"
  by (auto simp: ram_page_iff)

lemma page_idx_ram: "ram_page p \<Longrightarrow> page_idx p = int (page_no p)"
proof -
  assume p: "ram_page p"
  then obtain i where i: "i < NUM_PAGES" "p = page_addr i" by (auto simp: ram_page_iff)
  then have lt: "i < 32768" by (simp add: page_arith)
  have "PGROUNDDOWN p - MEM_START = of_nat i * 4096"
    using p i(2) by (simp add: ram_page_def PGROUNDDOWN_aligned) (simp add: page_addr_def PAGE_SIZE_def)
  also have "\<dots> = of_nat (i * 4096)" by simp
  finally have "sint (PGROUNDDOWN p - MEM_START) = int i * 4096"
    using lt by (simp only: signed_of_nat) (simp add: signed_take_bit_int_eq_self)
  then show ?thesis using i by (simp add: page_idx_def Let_def signed_divide_int_def sgn_if)
qed

section \<open>What the operations do\<close>

text \<open>
  \<open>alloc_wf\<close>: the allocatable range is a page-aligned part of RAM and only its pages are
  ever marked free. \<open>mem_ready\<close>: moreover the allocator can run on this hart.
\<close>

definition alloc_wf :: "'a memst_scheme \<Rightarrow> bool" where
  "alloc_wf s \<longleftrightarrow> page_aligned (start_page s) \<and> MEM_START \<le> start_page s \<and> start_page s \<le> MEM_END
     \<and> (\<forall>i. mem_bitmap s i \<noteq> 0 \<longrightarrow> i < NUM_PAGES \<and> start_page s \<le> page_addr i)"

definition mem_ready :: "'a memst_scheme \<Rightarrow> bool" where
  "mem_ready s \<longleftrightarrow> alloc_wf s \<and> kctx s \<and> lk_free Mem_lock s"

definition free_pages :: "'a memst_scheme \<Rightarrow> u32 set" where
  "free_pages s = {p. ram_page p \<and> mem_bitmap s (page_no p) \<noteq> 0}"

definition heap_page :: "'a memst_scheme \<Rightarrow> u32 \<Rightarrow> bool" where
  "heap_page s p \<longleftrightarrow> ram_page p \<and> start_page s \<le> p"

lemma noise_memst: "noise s t \<Longrightarrow> mem_bitmap t = mem_bitmap s"
  by (auto simp: noise_def)

lemma noise_start [simp]: "noise s t \<Longrightarrow> start_page t = start_page s"
  by (auto simp: noise_def)

lemma noise_upd:
  assumes "noise s t"
  shows "noise (s\<lparr>mem := m\<rparr>) (t\<lparr>mem := m\<rparr>)" "noise (s\<lparr>mem_bitmap := b\<rparr>) (t\<lparr>mem_bitmap := b\<rparr>)"
proof -
  obtain n out i where t: "t = s\<lparr>mmio_n := n, mmio_out := out, cpus := (cpus s)(this_cpu s := (cpus s (this_cpu s))
      \<lparr>c_intena := (if c_depth (cpus s (this_cpu s)) = 0 then i else c_intena (cpus s (this_cpu s)))\<rparr>)\<rparr>"
    using assms unfolding noise_def by blast
  show "noise (s\<lparr>mem := m\<rparr>) (t\<lparr>mem := m\<rparr>)" "noise (s\<lparr>mem_bitmap := b\<rparr>) (t\<lparr>mem_bitmap := b\<rparr>)"
    unfolding noise_def t by (rule exI [of _ n], rule exI [of _ out], rule exI [of _ i], simp add: hart_defs)+
qed

lemma noise_ready: "noise s t \<Longrightarrow> mem_ready t = mem_ready s" "noise s t \<Longrightarrow> free_pages t = free_pages s"
  "noise s t \<Longrightarrow> heap_page t = heap_page s"
  by (auto simp: mem_ready_def alloc_wf_def noise_lk_free noise_memst free_pages_def heap_page_def fun_eq_iff)

lemma kctx_upd [simp]: "kctx (s\<lparr>mem := m\<rparr>) = kctx s" "kctx (s\<lparr>mem_bitmap := b\<rparr>) = kctx s"
  "intr_ok (s\<lparr>mem := m\<rparr>) = intr_ok s" "lk_free lk (s\<lparr>mem := m\<rparr>) = lk_free lk s" "lk_free lk (s\<lparr>mem_bitmap := b\<rparr>) = lk_free lk s"
  by (simp_all add: kctx_def uart_live_def intr_ok_def lk_free_def is_interrupt_def hart_defs)

lemma free_pages_image: "free_pages s = page_addr ` {i. i < NUM_PAGES \<and> mem_bitmap s i \<noteq> 0}"
proof
  show "free_pages s \<subseteq> page_addr ` {i. i < NUM_PAGES \<and> mem_bitmap s i \<noteq> 0}"
    by (auto simp: free_pages_def ram_page_iff)
qed (auto simp: free_pages_def)

lemma kalloc_scan_Some:
  "kalloc_scan i b = Some j \<longleftrightarrow> i \<le> j \<and> j < NUM_PAGES \<and> b j \<noteq> 0 \<and> (\<forall>k. i \<le> k \<and> k < j \<longrightarrow> b k = 0)"
proof (induction i b rule: kalloc_scan.induct)
  case (1 i b)
  show ?case
  proof (cases "i < NUM_PAGES \<and> b i = 0")
    case True
    then show ?thesis
      using 1 by (subst kalloc_scan.simps) (auto simp: Suc_le_eq intro: le_neq_implies_less)
  next
    case False
    then show ?thesis by (subst kalloc_scan.simps) (auto intro: ccontr)
  qed
qed

lemma kalloc_scan_None: "kalloc_scan 0 b = None \<longleftrightarrow> (\<forall>i<NUM_PAGES. b i = 0)"
proof -
  have "kalloc_scan i b = None \<longleftrightarrow> (\<forall>k. i \<le> k \<and> k < NUM_PAGES \<longrightarrow> b k = 0)" for i
  proof (induction i b rule: kalloc_scan.induct)
    case (1 i b)
    show ?case
    proof (cases "i < NUM_PAGES \<and> b i = 0")
      case True
      then show ?thesis
        using 1 by (subst kalloc_scan.simps) (auto simp: Suc_le_eq intro: le_neq_implies_less)
    next
      case False
      then show ?thesis by (subst kalloc_scan.simps) auto
    qed
  qed
  from this [of 0] show ?thesis by simp
qed

lemma locked_bitmap:
  assumes "lk_free Mem_lock s" "intr_ok s"
  shows "unlock Mem_lock (enter Mem_lock s) = Ok () (touch s)"
    and "unlock Mem_lock ((enter Mem_lock s)\<lparr>mem_bitmap := b\<rparr>) = Ok () (touch (s\<lparr>mem_bitmap := b\<rparr>))"
proof -
  have "unlock Mem_lock (enter Mem_lock s) =
      Ok () ((enter Mem_lock s)\<lparr>csrs := csrs s, cpus := cpus (touch s), locks := locks s\<rparr>)"
    by (rule unlock_bracket [OF assms]) simp_all
  then show "unlock Mem_lock (enter Mem_lock s) = Ok () (touch s)"
    by (simp add: enter_eq touch_def set_cpu_def)
  have "unlock Mem_lock ((enter Mem_lock s)\<lparr>mem_bitmap := b\<rparr>) =
      Ok () ((enter Mem_lock s)\<lparr>mem_bitmap := b, csrs := csrs s, cpus := cpus (touch s), locks := locks s\<rparr>)"
    by (subst unlock_bracket [OF assms]) simp_all
  then show "unlock Mem_lock ((enter Mem_lock s)\<lparr>mem_bitmap := b\<rparr>) = Ok () (touch (s\<lparr>mem_bitmap := b\<rparr>))"
    by (simp add: enter_eq touch_def set_cpu_def hart_defs)
qed

lemma enter_memst [simp]:
  "mem_bitmap (enter lk s) = mem_bitmap s" "start_page (enter lk s) = start_page s"
  by (simp_all add: enter_eq)

lemma kalloc_closed:
  assumes "mem_ready s"
  shows "kalloc s = (case kalloc_scan 0 (mem_bitmap s) of
    Some i \<Rightarrow> Ok (page_addr i) (touch (s\<lparr>mem_bitmap := (mem_bitmap s)(i := 0)\<rparr>)) | None \<Rightarrow> Ok 0 (touch s))"
  using assms
  by (simp add: mem_ready_def kctx_def kalloc_def lock_free locked_bitmap page_addr_def split: option.splits)

lemma kfree_closed:
  assumes "mem_ready s" "heap_page s p"
  shows "kfree p s = (if mem_bitmap s (page_no p) \<noteq> 0
    then panic ''kfree: double free'' (touch (s\<lparr>mem := fill_block p 4096 0 (mem s)\<rparr>))
    else Ok () (touch (s\<lparr>mem := fill_block p 4096 0 (mem s), mem_bitmap := (mem_bitmap s)(page_no p := 1)\<rparr>)))"
proof -
  have p: "p mod PAGE_SIZE = 0" "\<not> p < start_page s" "\<not> MEM_END \<le> p" "page_idx p = int (page_no p)"
    "page_no p < NUM_PAGES"
    using assms(2) page_idx_ram [of p] page_no_lt [of p]
    by (simp_all add: heap_page_def mod_page_eq_0 ram_page_def not_less not_le)
  let ?s = "s\<lparr>mem := fill_block p 4096 0 (mem s)\<rparr>"
  have "memset p 0 PAGE_SIZE s = Ok p ?s"
    by (simp add: memset_fill PAGE_SIZE_def)
  moreover have "lk_free Mem_lock ?s" "intr_ok ?s"
    using assms(1) by (simp_all add: mem_ready_def kctx_def)
  ultimately show ?thesis
    unfolding kfree_def Let_def p(4) using p(1,2,3,5)
    by (simp add: lock_free locked_bitmap)
qed

section \<open>The allocator as an interface\<close>

text \<open>
  What the users of the allocator rely on: \<open>pool\<close> is the set of free pages, \<open>heap\<close> the set of
  all pages it manages.
\<close>

locale page_allocator =
  fixes alloc :: "'s \<Rightarrow> (u32, 's) res"
    and free :: "u32 \<Rightarrow> 's \<Rightarrow> (unit, 's) res"
    and ready :: "'s \<Rightarrow> bool"
    and pool :: "'s \<Rightarrow> u32 set"
    and heap :: "'s \<Rightarrow> u32 set"
  assumes alloc_page: "ready s \<Longrightarrow> pool s \<noteq> {} \<Longrightarrow>
      \<exists>p t. alloc s = Ok p t \<and> p \<in> pool s \<and> p \<noteq> 0 \<and> ready t \<and> pool t = pool s - {p} \<and> heap t = heap s"
    and alloc_empty: "ready s \<Longrightarrow> pool s = {} \<Longrightarrow>
      \<exists>t. alloc s = Ok 0 t \<and> ready t \<and> pool t = {} \<and> heap t = heap s"
    and free_page: "ready s \<Longrightarrow> p \<in> heap s - pool s \<Longrightarrow>
      \<exists>t. free p s = Ok () t \<and> ready t \<and> pool t = insert p (pool s) \<and> heap t = heap s"
    and pool_heap: "ready s \<Longrightarrow> pool s \<subseteq> heap s \<and> finite (heap s)"

text \<open>Sequences of calls.\<close>

fun alloc_many :: "('s \<Rightarrow> (u32, 's) res) \<Rightarrow> nat \<Rightarrow> 's \<Rightarrow> (u32 list, 's) res" where
  "alloc_many alloc 0 s = Ok [] s"
| "alloc_many alloc (Suc n) s =
     kbind (alloc s) (\<lambda>p s. kbind (alloc_many alloc n s) (\<lambda>ps s. Ok (p # ps) s))"

fun free_all :: "(u32 \<Rightarrow> 's \<Rightarrow> (unit, 's) res) \<Rightarrow> u32 list \<Rightarrow> 's \<Rightarrow> (unit, 's) res" where
  "free_all free [] s = Ok () s"
| "free_all free (p # ps) s = kbind (free p s) (\<lambda>_ s. free_all free ps s)"

context page_allocator
begin

lemma alloc_many_distinct:
  "ready s \<Longrightarrow> n \<le> card (pool s) \<Longrightarrow>
    \<exists>ps t. alloc_many alloc n s = Ok ps t \<and> length ps = n \<and> distinct ps \<and> set ps \<subseteq> pool s \<and> 0 \<notin> set ps
      \<and> ready t \<and> pool t = pool s - set ps \<and> heap t = heap s"
proof (induction n arbitrary: s)
  case 0
  then show ?case by auto
next
  case (Suc n)
  then have "pool s \<noteq> {}" by auto
  then obtain p t where p: "alloc s = Ok p t" "p \<in> pool s" "p \<noteq> 0" "ready t" "pool t = pool s - {p}"
    "heap t = heap s"
    using alloc_page Suc.prems(1) by blast
  have "finite (pool s)" using pool_heap [OF Suc.prems(1)] finite_subset by blast
  then have "n \<le> card (pool t)" using p(2,5) Suc.prems(2) by simp
  then obtain ps u where "alloc_many alloc n t = Ok ps u" "length ps = n" "distinct ps" "set ps \<subseteq> pool t"
    "0 \<notin> set ps" "ready u" "pool u = pool t - set ps" "heap u = heap t"
    using Suc.IH [OF p(4)] by blast
  with p show ?case by (intro exI [of _ "p # ps"] exI [of _ u]) auto
qed

lemma free_all_restores:
  "ready s \<Longrightarrow> distinct ps \<Longrightarrow> set ps \<subseteq> heap s - pool s \<Longrightarrow>
    \<exists>t. free_all free ps s = Ok () t \<and> ready t \<and> pool t = pool s \<union> set ps \<and> heap t = heap s"
proof (induction ps arbitrary: s)
  case Nil
  then show ?case by simp
next
  case (Cons p ps)
  then obtain t where t: "free p s = Ok () t" "ready t" "pool t = insert p (pool s)" "heap t = heap s"
    using free_page [of s p] by auto
  then obtain u where "free_all free ps t = Ok () u" "ready u" "pool u = pool t \<union> set ps" "heap u = heap t"
    using Cons.IH [of t] Cons.prems by auto
  with t show ?case by auto
qed

lemma alloc_free_any_order:
  assumes "ready s" "n \<le> card (pool s)"
  shows "\<exists>ps t. alloc_many alloc n s = Ok ps t \<and> length ps = n \<and> distinct ps \<and> set ps \<subseteq> pool s
    \<and> pool t = pool s - set ps
    \<and> (\<forall>qs. distinct qs \<and> set qs = set ps \<longrightarrow> (\<exists>u. free_all free qs t = Ok () u \<and> pool u = pool s))"
proof -
  obtain ps t where ps: "alloc_many alloc n s = Ok ps t" "length ps = n" "distinct ps" "set ps \<subseteq> pool s"
    "ready t" "pool t = pool s - set ps" "heap t = heap s"
    using alloc_many_distinct [OF assms] by blast
  have "\<exists>u. free_all free qs t = Ok () u \<and> pool u = pool s" if q: "distinct qs" "set qs = set ps" for qs
  proof -
    have "set qs \<subseteq> heap t - pool t" using q ps(4,6,7) pool_heap [OF assms(1)] by auto
    then obtain u where "free_all free qs t = Ok () u" "pool u = pool t \<union> set qs"
      using free_all_restores [OF ps(5) q(1)] by blast
    with q(2) ps(4,6) show ?thesis by auto
  qed
  with ps show ?thesis by blast
qed

end

section \<open>The bitmap implements the interface\<close>

lemma page_no_inj: "ram_page p \<Longrightarrow> ram_page q \<Longrightarrow> page_no p = page_no q \<longleftrightarrow> p = q"
  using page_addr_no by metis

lemma free_pages_upd:
  "ram_page p \<Longrightarrow> free_pages (s\<lparr>mem_bitmap := (mem_bitmap s)(page_no p := 0)\<rparr>) = free_pages s - {p}"
  "ram_page p \<Longrightarrow> v \<noteq> 0 \<Longrightarrow>
    free_pages (s\<lparr>mem := m, mem_bitmap := (mem_bitmap s)(page_no p := v)\<rparr>) = insert p (free_pages s)"
  by (auto simp: free_pages_def page_no_inj)

lemma free_pages_heap: "mem_ready s \<Longrightarrow> p \<in> free_pages s \<Longrightarrow> heap_page s p"
  by (auto simp: mem_ready_def alloc_wf_def free_pages_def heap_page_def page_addr_no)

lemma kalloc_spec:
  assumes "mem_ready s"
  shows "free_pages s \<noteq> {} \<Longrightarrow> \<exists>t. kalloc s = Ok (Min (free_pages s)) t
      \<and> noise (s\<lparr>mem_bitmap := (mem_bitmap s)(page_no (Min (free_pages s)) := 0)\<rparr>) t"
    and "free_pages s = {} \<Longrightarrow> \<exists>t. kalloc s = Ok 0 t \<and> noise s t"
proof -
  let ?b = "mem_bitmap s" and ?p = "Min (free_pages s)"
  assume "free_pages s \<noteq> {}"
  then have p: "?p \<in> free_pages s" by (intro Min_in) auto
  then have i: "page_no ?p < NUM_PAGES" "?b (page_no ?p) \<noteq> 0" "ram_page ?p"
    by (auto simp: free_pages_def page_no_lt)
  have "?b k = 0" if k: "k < page_no ?p" for k
  proof (rule ccontr)
    assume "?b k \<noteq> 0"
    then have "page_addr k \<in> free_pages s"
      using k i(1) by (simp add: free_pages_def)
    then have "unat ?p \<le> unat (page_addr k)" by (simp add: word_le_nat_alt [symmetric])
    also have "\<dots> < unat (page_addr (page_no ?p))" using k i(1) by (simp add: unat_page_addr)
    finally show False using i(3) by (simp add: page_addr_no)
  qed
  then have "kalloc_scan 0 ?b = Some (page_no ?p)" using i by (simp add: kalloc_scan_Some)
  then show "\<exists>t. kalloc s = Ok ?p t \<and> noise (s\<lparr>mem_bitmap := ?b(page_no ?p := 0)\<rparr>) t"
    using i(3) by (simp add: kalloc_closed [OF assms] page_addr_no noise_touch)
next
  assume e: "free_pages s = {}"
  have "mem_bitmap s k = 0" if "k < NUM_PAGES" for k
  proof (rule ccontr)
    assume "mem_bitmap s k \<noteq> 0"
    then have "page_addr k \<in> free_pages s" using that by (simp add: free_pages_def)
    with e show False by simp
  qed
  then have "kalloc_scan 0 (mem_bitmap s) = None" by (simp add: kalloc_scan_None)
  then show "\<exists>t. kalloc s = Ok 0 t \<and> noise s t"
    by (simp add: kalloc_closed [OF assms] noise_touch)
qed

lemma kfree_spec:
  assumes "mem_ready s" "heap_page s p" "p \<notin> free_pages s"
  shows "\<exists>t. kfree p s = Ok () t
    \<and> noise (s\<lparr>mem := fill_block p 4096 0 (mem s), mem_bitmap := (mem_bitmap s)(page_no p := 1)\<rparr>) t"
  using assms(3) kfree_closed [OF assms(1,2)] assms(2)
  by (auto simp: free_pages_def heap_page_def noise_touch)

lemma alloc_wf_upd:
  assumes "mem_ready s"
  shows "mem_ready (s\<lparr>mem_bitmap := (mem_bitmap s)(i := 0)\<rparr>)"
    and "heap_page s p \<Longrightarrow> mem_ready (s\<lparr>mem := m, mem_bitmap := (mem_bitmap s)(page_no p := 1)\<rparr>)"
  using assms by (auto simp: mem_ready_def alloc_wf_def heap_page_def page_addr_no page_no_lt)

lemma heap_page_upd [simp]: "heap_page (s\<lparr>mem_bitmap := b\<rparr>) = heap_page s"
  "heap_page (s\<lparr>mem := m\<rparr>) = heap_page s"
  by (auto simp: heap_page_def fun_eq_iff)

interpretation kheap: page_allocator kalloc kfree mem_ready free_pages "\<lambda>s. {p. heap_page s p}"
proof
  fix s :: "'a memst_scheme"
  assume s: "mem_ready s"
  let ?p = "Min (free_pages s)"
  show "free_pages s \<subseteq> {p. heap_page s p} \<and> finite {p. heap_page s p}"
    using free_pages_heap [OF s] by auto
  show "\<exists>t. kalloc s = Ok 0 t \<and> mem_ready t \<and> free_pages t = {} \<and> {p. heap_page t p} = {p. heap_page s p}"
    if "free_pages s = {}"
    using kalloc_spec(2) [OF s that] s that by (auto simp: noise_ready)
  show "\<exists>p t. kalloc s = Ok p t \<and> p \<in> free_pages s \<and> p \<noteq> 0 \<and> mem_ready t
      \<and> free_pages t = free_pages s - {p} \<and> {p. heap_page t p} = {p. heap_page s p}" if ne: "free_pages s \<noteq> {}"
  proof -
    obtain t where t: "kalloc s = Ok ?p t" "noise (s\<lparr>mem_bitmap := (mem_bitmap s)(page_no ?p := 0)\<rparr>) t"
      using kalloc_spec(1) [OF s ne] by blast
    have p: "?p \<in> free_pages s" using ne by (intro Min_in) auto
    then have "ram_page ?p" by (simp add: free_pages_def)
    moreover from this have "?p \<noteq> 0" by (auto simp: ram_page_iff)
    ultimately show ?thesis
      using t p alloc_wf_upd(1) [OF s] by (auto simp: noise_ready free_pages_upd)
  qed
  fix p
  assume p: "p \<in> {p. heap_page s p} - free_pages s"
  then show "\<exists>t. kfree p s = Ok () t \<and> mem_ready t \<and> free_pages t = insert p (free_pages s)
      \<and> {p. heap_page t p} = {p. heap_page s p}"
    using kfree_spec [OF s, of p] alloc_wf_upd(2) [OF s, of p]
    by (auto simp: noise_ready free_pages_upd heap_page_def)
qed

section \<open>Properties\<close>

text \<open>
  C16 (functional). \<open>kalloc\<close> returns the lowest free page, marks only that page as taken and
  leaves memory alone; it returns \<open>NULL\<close> exactly when no page is free. Either way the allocator
  stays consistent.
\<close>

theorem kalloc_lowest_free:
  assumes "mem_ready s"
  shows "\<exists>p t. kalloc s = Ok p t \<and> mem_ready t \<and> mem t = mem s \<and> locks t = locks s \<and> csrs t = csrs s
    \<and> p = (if free_pages s = {} then 0 else Min (free_pages s)) \<and> (p = 0 \<longleftrightarrow> free_pages s = {})
    \<and> free_pages t = free_pages s - {p}"
proof (cases "free_pages s = {}")
  case True
  then show ?thesis
    using kalloc_spec(2) [OF assms True] assms by (auto simp: noise_ready noise_fields)
next
  case False
  let ?p = "Min (free_pages s)"
  obtain t where t: "kalloc s = Ok ?p t" "noise (s\<lparr>mem_bitmap := (mem_bitmap s)(page_no ?p := 0)\<rparr>) t"
    using kalloc_spec(1) [OF assms False] by blast
  have "?p \<in> free_pages s" using False by (intro Min_in) auto
  then have "ram_page ?p" by (simp add: free_pages_def)
  moreover from this have "?p \<noteq> 0" by (auto simp: ram_page_iff)
  ultimately show ?thesis
    using t False alloc_wf_upd(1) [OF assms] by (auto simp: noise_ready noise_fields free_pages_upd)
qed

text \<open>A small system for concrete runs: the kernel image ends at 0x87FFD000, three pages are free.\<close>

definition small_mem :: memst where
  "small_mem = lockst.extend idle_locks
     (memst.fields (\<lambda>i. if i = 32765 \<or> i = 32766 \<or> i = 32767 then 1 else 0) 0x87FFD000)"

lemma small_mem_ready: "mem_ready small_mem"
proof -
  have "alloc_wf small_mem"
    by (auto simp: small_mem_def alloc_wf_def lockst.defs memst.defs page_aligned_def MEM_START_def MEM_END_def
        page_arith page_addr_def PAGE_SIZE_def)
  moreover have "kctx small_mem" "lk_free Mem_lock small_mem"
    using idle_locks_simps(3) [of Mem_lock] idle_locks_simps(4)
    by (simp_all add: small_mem_def kctx_def lk_free_def lockst.defs uart_live_def intr_ok_def is_interrupt_def hart_defs)
  ultimately show ?thesis by (simp add: mem_ready_def)
qed

lemma small_mem_free: "free_pages small_mem = {0x87FFD000, 0x87FFE000, 0x87FFF000}"
proof -
  have "free_pages small_mem = page_addr ` {32765, 32766, 32767}"
    unfolding free_pages_image by (rule arg_cong [of _ _ "image page_addr"])
      (auto simp: small_mem_def lockst.defs memst.defs page_arith split: if_splits)
  then show ?thesis by (simp add: page_addr_def MEM_START_def PAGE_SIZE_def)
qed

lemma small_mem_start: "start_page small_mem = 0x87FFD000"
  by (simp add: small_mem_def memst.defs lockst.defs)

theorem kalloc_lowest_free_witness:
  "\<exists>t. kalloc small_mem = Ok 0x87FFD000 t \<and> free_pages t = {0x87FFE000, 0x87FFF000}"
  using kalloc_lowest_free [OF small_mem_ready] by (auto simp: small_mem_free)

text \<open>
  C17 (error). \<open>kfree\<close> on every input: an allocated page of the allocatable range is zeroed and
  becomes free; an address that is not page aligned, lies outside the range or is free already
  makes the kernel panic with the message for that case.
\<close>

theorem kfree_outcomes:
  assumes "mem_ready s"
  shows "if \<not> page_aligned p then \<exists>t. kfree p s = Panic ''kfree: address not page aligned'' t
    else if p < start_page s \<or> MEM_END \<le> p
    then \<exists>t. kfree p s = Panic ''kfree: address outside the allocatable range'' t
    else if p \<in> free_pages s then \<exists>t. kfree p s = Panic ''kfree: double free'' t
    else \<exists>t. kfree p s = Ok () t \<and> mem_ready t \<and> free_pages t = insert p (free_pages s)
      \<and> mem t = fill_block p 4096 0 (mem s)"
proof -
  have live: "uart_live s" using assms by (simp add: mem_ready_def kctx_def)
  have h: "heap_page s p" if "page_aligned p" "\<not> (p < start_page s \<or> MEM_END \<le> p)"
    using that assms by (auto simp: heap_page_def ram_page_def mem_ready_def alloc_wf_def)
  have dbl: "\<exists>t. kfree p s = Panic ''kfree: double free'' t" if "heap_page s p" "p \<in> free_pages s"
  proof -
    let ?s = "touch (s\<lparr>mem := fill_block p 4096 0 (mem s)\<rparr>)"
    have "uart_live ?s" using live by (simp add: uart_live_def touch_def)
    then show ?thesis
      using kfree_closed [OF assms that(1)] that(2) panic_panics [of "''kfree: double free''" ?s]
      by (auto simp: free_pages_def)
  qed
  show ?thesis
    using panic_panics [OF _ live, of "''kfree: address not page aligned''"]
      panic_panics [OF _ live, of "''kfree: address outside the allocatable range''"]
      h dbl kfree_spec [OF assms, of p] alloc_wf_upd(2) [OF assms, of p]
    by (auto simp: kfree_def mod_page_eq_0 noise_ready noise_fields free_pages_upd heap_page_def)
qed

theorem kfree_outcomes_witness:
  "(\<exists>t. kfree 0x87FFE000 small_mem = Panic ''kfree: double free'' t)
    \<and> (\<exists>t. kfree 0x80000000 small_mem = Panic ''kfree: address outside the allocatable range'' t)
    \<and> (\<exists>t. kfree 0x87FFE001 small_mem = Panic ''kfree: address not page aligned'' t)"
  using kfree_outcomes [OF small_mem_ready, of "0x87FFE000"] kfree_outcomes [OF small_mem_ready, of "0x80000000"]
    kfree_outcomes [OF small_mem_ready, of "0x87FFE001"]
  by (simp add: small_mem_free small_mem_start page_aligned_def MEM_END_def)

text \<open>
  C18 (safety). Taking any number of pages that are available yields that many distinct free
  pages, and giving them back in any order restores the free set: nothing is lost, nothing is
  handed out twice.
\<close>

theorem kalloc_kfree_any_order:
  assumes "mem_ready s" "n \<le> card (free_pages s)"
  shows "\<exists>ps t. alloc_many kalloc n s = Ok ps t \<and> length ps = n \<and> distinct ps \<and> set ps \<subseteq> free_pages s
    \<and> free_pages t = free_pages s - set ps
    \<and> (\<forall>qs. distinct qs \<and> set qs = set ps \<longrightarrow> (\<exists>u. free_all kfree qs t = Ok () u \<and> free_pages u = free_pages s))"
  using assms by (rule kheap.alloc_free_any_order)

theorem kalloc_kfree_any_order_witness:
  "\<exists>ps t. alloc_many kalloc 3 small_mem = Ok ps t \<and> distinct ps \<and> length ps = 3 \<and> free_pages t = {}
    \<and> (\<exists>u. free_all kfree (rev ps) t = Ok () u \<and> free_pages u = free_pages small_mem)"
proof -
  obtain ps t where "alloc_many kalloc 3 small_mem = Ok ps t" "length ps = 3" "distinct ps"
    "set ps \<subseteq> free_pages small_mem" "free_pages t = free_pages small_mem - set ps"
    "\<forall>qs. distinct qs \<and> set qs = set ps \<longrightarrow> (\<exists>u. free_all kfree qs t = Ok () u \<and> free_pages u = free_pages small_mem)"
    using kalloc_kfree_any_order [OF small_mem_ready, of 3] by (auto simp: small_mem_free)
  moreover from this have "set ps = free_pages small_mem"
    by (intro card_subset_eq) (simp_all add: small_mem_free distinct_card)
  ultimately show ?thesis by (intro exI [of _ ps] exI [of _ t]) (simp add: small_mem_free)
qed

text \<open>
  \<open>kfree_range\<close> up to the end of memory: one iteration of the loop per page.
\<close>

lemma page_addr_Suc: "page_addr (Suc i) = page_addr i + PAGE_SIZE"
  by (simp add: page_addr_def algebra_simps)

lemma page_addr_end: "page_addr NUM_PAGES = MEM_END"
  by (simp add: page_addr_def NUM_PAGES_eq MEM_START_def MEM_END_def PAGE_SIZE_def)

lemma page_addr_less_end: "i < NUM_PAGES \<Longrightarrow> page_addr i < MEM_END"
  using ram_page_addr [of i] by (simp add: ram_page_def)

lemma kfree_range_up:
  assumes "mem_ready s" "i \<le> NUM_PAGES" "\<And>j. i \<le> j \<Longrightarrow> j < NUM_PAGES \<Longrightarrow> start_page s \<le> page_addr j"
    and "\<And>j. i \<le> j \<Longrightarrow> j < NUM_PAGES \<Longrightarrow> page_addr j \<notin> free_pages s"
  shows "\<exists>t. kloop (\<lambda>curr s. if curr < MEM_END
       then kbind (kfree curr s) (\<lambda>_ s. Ok (Inl (curr + PAGE_SIZE)) s) else Ok (Inr ()) s) (page_addr i) s = Ok () t
    \<and> mem_ready t \<and> start_page t = start_page s \<and> free_pages t = free_pages s \<union> page_addr ` {i..<NUM_PAGES}"
  (is "\<exists>t. kloop ?body _ _ = _ \<and> _")
  using assms
proof (induction "NUM_PAGES - i" arbitrary: i s)
  case 0
  then have "i = NUM_PAGES" by simp
  then show ?case using 0 by (simp add: kloop_exit page_addr_end)
next
  case (Suc k)
  then have i: "i < NUM_PAGES" by simp
  have h: "heap_page s (page_addr i)" using Suc.prems(3) i by (simp add: heap_page_def)
  obtain t where t: "kfree (page_addr i) s = Ok () t" "mem_ready t"
    "free_pages t = insert (page_addr i) (free_pages s)" "{p. heap_page t p} = {p. heap_page s p}"
    "start_page t = start_page s"
    using kheap.free_page [OF Suc.prems(1), of "page_addr i"] kfree_spec [OF Suc.prems(1) h] h Suc.prems(4) [of i] i
    by fastforce
  have "\<exists>u. kloop ?body (page_addr (Suc i)) t = Ok () u \<and> mem_ready u \<and> start_page u = start_page t
      \<and> free_pages u = free_pages t \<union> page_addr ` {Suc i..<NUM_PAGES}"
  proof (rule Suc.hyps(1))
    show "page_addr j \<notin> free_pages t" if "Suc i \<le> j" "j < NUM_PAGES" for j
      using Suc.prems(4) [of j] that i by (simp add: t(3) page_addr_inj)
    show "start_page t \<le> page_addr j" if "Suc i \<le> j" "j < NUM_PAGES" for j
      using Suc.prems(3) [of j] that t(5) by simp
  qed (use Suc i t in auto)
  moreover have "?body (page_addr i) s = Ok (Inl (page_addr (Suc i))) t"
    using t i by (simp add: page_addr_Suc page_addr_less_end)
  moreover have "{i..<NUM_PAGES} = insert i {Suc i..<NUM_PAGES}" using i by auto
  ultimately show ?case using kloop_step [of ?body "page_addr i" s] t(3,5) by auto
qed

lemma fold_clear: "fold (\<lambda>i b. b(i := 0)) is (\<lambda>_. 0 :: u8) = (\<lambda>_. 0)"
  by (induction "is") (simp_all add: fun_upd_def)

lemma page_idx_end: "page_idx MEM_END = int NUM_PAGES"
  by (simp add: page_idx_def PGROUNDDOWN_def MEM_END_def MEM_START_def PAGE_SIZE_def NUM_PAGES_eq signed_divide_int_def sgn_if)

lemma page_round_range:
  assumes "MEM_START \<le> e" "e \<le> MEM_END"
  obtains i where "i \<le> NUM_PAGES" "PGROUNDUP e = page_addr i" "page_aligned (PGROUNDUP e)"
    "MEM_START \<le> PGROUNDUP e" "PGROUNDUP e \<le> MEM_END" "page_idx (PGROUNDUP e) \<le> int NUM_PAGES"
    "\<And>j. j < NUM_PAGES \<Longrightarrow> PGROUNDUP e \<le> page_addr j \<longleftrightarrow> e \<le> page_addr j"
proof -
  have e: "0x80000000 \<le> unat e" "unat e \<le> 0x88000000"
    using assms by (simp_all add: MEM_START_def MEM_END_def word_le_nat_alt)
  let ?i = "(unat e + 4095) div 4096 - 524288"
  have u: "unat (PGROUNDUP e) = 0x80000000 + ?i * 4096" and i: "?i \<le> 32768"
    using e by (simp_all add: unat_PGROUNDUP)
  have pa: "unat (page_addr j) = 0x80000000 + j * 4096" if "j \<le> 32768" for j
    using that unat_page_addr [of j] page_addr_end
    by (cases "j = 32768") (simp_all add: page_arith MEM_END_def)
  have eq: "PGROUNDUP e = page_addr ?i" using u pa [OF i] by (simp add: unat_eq_iff_u32)
  have "page_idx (PGROUNDUP e) \<le> int NUM_PAGES"
  proof (cases "?i = 32768")
    case True
    then show ?thesis using eq page_addr_end page_idx_end by (simp add: page_arith)
  next
    case False
    then have "?i < NUM_PAGES" using i by (simp add: page_arith)
    then show ?thesis using eq by (simp add: page_idx_ram)
  qed
  moreover have "PGROUNDUP e \<le> page_addr j \<longleftrightarrow> e \<le> page_addr j" if "j < NUM_PAGES" for j
  proof -
    have j: "j < 32768" using that by (simp add: page_arith)
    have "(unat e + 4095) div 4096 \<le> 524288 + j \<longleftrightarrow> unat e \<le> (524288 + j) * 4096"
      by (auto simp: less_eq_div_iff_mult_less_eq)
    then show ?thesis using j pa [of j] u e by (auto simp: word_le_nat_alt)
  qed
  ultimately show ?thesis
    using that [of ?i] eq i u by (simp add: page_arith page_aligned_def MEM_START_def MEM_END_def word_le_nat_alt)
qed

text \<open>
  C19 (functional). At boot \<open>init_bitmap\<close> returns with a consistent allocator in which exactly
  the whole pages between the end of the kernel image and the end of RAM are free.
\<close>

theorem init_bitmap_frees_rest:
  assumes "kctx s" "mem_bitmap s = (\<lambda>_. 0)" "MEM_START \<le> end_sym" "end_sym \<le> MEM_END"
  shows "\<exists>t. init_bitmap end_sym s = Ok () t \<and> mem_ready t
    \<and> free_pages t = {p. page_aligned p \<and> end_sym \<le> p \<and> p < MEM_END}"
proof -
  obtain i where i: "i \<le> NUM_PAGES" "PGROUNDUP end_sym = page_addr i" "page_aligned (PGROUNDUP end_sym)"
    "MEM_START \<le> PGROUNDUP end_sym" "PGROUNDUP end_sym \<le> MEM_END" "page_idx (PGROUNDUP end_sym) \<le> int NUM_PAGES"
    "\<And>j. j < NUM_PAGES \<Longrightarrow> PGROUNDUP end_sym \<le> page_addr j \<longleftrightarrow> end_sym \<le> page_addr j"
    using page_round_range [OF assms(3,4)] by blast
  let ?s = "(init_lock Mem_lock ''mem'' s)\<lparr>start_page := PGROUNDUP end_sym, mem_bitmap := (\<lambda>_. 0)\<rparr>"
  have b: "init_bitmap end_sym s = kfree_range (PGROUNDUP end_sym) MEM_END ?s"
    using i(6) assms(2) by (simp add: init_bitmap_def Let_def init_lock_def fold_clear set_lock_def)
  have r: "mem_ready ?s"
    using assms(1) i(3,4,5)
    by (simp add: mem_ready_def alloc_wf_def init_lock_def set_lock_def kctx_def uart_live_def intr_ok_def
        lk_free_def is_interrupt_def hart_defs)
  have e: "PGROUNDDOWN MEM_END = MEM_END" "PGROUNDUP (PGROUNDUP end_sym) = page_addr i"
    using i(2,3) by (simp_all add: PGROUNDUP_aligned) (simp add: PGROUNDDOWN_def MEM_END_def PAGE_SIZE_def)
  have f: "free_pages ?s = {}" by (simp add: free_pages_def)
  have sp: "start_page ?s \<le> page_addr j" if "i \<le> j" "j < NUM_PAGES" for j
    using that i(1,2) by (cases "i = NUM_PAGES") (simp_all add: word_le_nat_alt unat_page_addr)
  obtain t where t: "init_bitmap end_sym s = Ok () t" "mem_ready t" "start_page t = PGROUNDUP end_sym"
    "free_pages t = page_addr ` {i..<NUM_PAGES}"
    using kfree_range_up [OF r i(1) sp] f by (auto simp: b kfree_range_def e)
  have "end_sym \<le> page_addr j \<longleftrightarrow> i \<le> j" if j: "j < NUM_PAGES" for j
  proof -
    have "i \<le> j \<longleftrightarrow> page_addr i \<le> page_addr j"
    proof (cases "i = NUM_PAGES")
      case True
      then show ?thesis using j page_addr_less_end [OF j] by (simp add: page_addr_end)
    next
      case False
      then show ?thesis using i(1) j by (simp add: word_le_nat_alt unat_page_addr)
    qed
    then show ?thesis using i(2) i(7) [OF j] by simp
  qed
  then have "page_addr ` {i..<NUM_PAGES} = {p. ram_page p \<and> end_sym \<le> p}"
    by (auto simp: ram_page_iff)
  also have "\<dots> = {p. page_aligned p \<and> end_sym \<le> p \<and> p < MEM_END}"
    using assms(3) by (auto simp: ram_page_def)
  finally show ?thesis using t by blast
qed

theorem init_bitmap_frees_rest_witness:
  "\<exists>t. init_bitmap 0x80012345 (small_mem\<lparr>mem_bitmap := (\<lambda>_. 0)\<rparr>) = Ok () t
    \<and> 0x80013000 \<in> free_pages t \<and> 0x80012000 \<notin> free_pages t"
  using init_bitmap_frees_rest [of "small_mem\<lparr>mem_bitmap := (\<lambda>_. 0)\<rparr>" "0x80012345"] small_mem_ready
  by (auto simp: mem_ready_def MEM_START_def MEM_END_def page_aligned_def)

end
