(* ===== verification/Paging.thy ===== *)
theory Paging
  imports Allocator
begin

text \<open>
  Sv32 page tables (\<^verbatim>\<open>kernel/vm.c\<close>, \<^verbatim>\<open>kernel/vm.h\<close>): the entry macros, \<open>find_pte\<close>,
  \<open>mappage\<close>, \<open>mappages\<close>, table creation, the kernel page table and the \<^verbatim>\<open>satp\<close> register.
  The specification is the translation function \<open>walk\<close> of the Sv32 scheme for two-level
  4 KB mappings, read off memory. Shown: mapping pages changes the translation at exactly the
  pages mapped, keeps the page table well formed, and touches no memory besides the tables
  of the page table at hand and pages taken from the allocator.
\<close>

section \<open>Entries and addresses\<close>

definition PTE_V :: u32 where "PTE_V = 1"
definition PTE_R :: u32 where "PTE_R = 2"
definition PTE_W :: u32 where "PTE_W = 4"
definition PTE_X :: u32 where "PTE_X = 8"
definition PTE_U :: u32 where "PTE_U = 16"

definition PTE2PA :: "u32 \<Rightarrow> u32" where
  "PTE2PA pte = push_bit 12 (drop_bit 10 pte)"

definition PA2PTE :: "u32 \<Rightarrow> u32" where
  "PA2PTE pa = push_bit 10 (drop_bit 12 pa)"

definition PTE_FLAGS :: "u32 \<Rightarrow> u32" where
  "PTE_FLAGS pte = pte AND 0x3FF"

definition MAX_VA_ADDR :: u32 where "MAX_VA_ADDR = 0xFFFFFFFF"
definition USER_BASE :: u32 where "USER_BASE = 0x1000"
definition TRAMPOLINE :: u32 where "TRAMPOLINE = MAX_VA_ADDR - PAGE_SIZE + 1"
definition TRAPFRAME :: u32 where "TRAPFRAME = TRAMPOLINE - PAGE_SIZE"
definition USER_STACK_TOP :: u32 where "USER_STACK_TOP = TRAPFRAME - PAGE_SIZE"

definition MAKE_SATP :: "u32 \<Rightarrow> u32" where
  "MAKE_SATP pa = 0x80000000 OR (drop_bit 12 pa AND 0x003FFFFF)"

text \<open>The two table indices of an address, and the address of an entry (\<^verbatim>\<open>&pt[i]\<close>).\<close>

definition vpn1 :: "u32 \<Rightarrow> u32" where "vpn1 va = drop_bit 22 va AND 0x3ff"
definition vpn0 :: "u32 \<Rightarrow> u32" where "vpn0 va = drop_bit 12 va AND 0x3ff"
definition slot :: "u32 \<Rightarrow> u32 \<Rightarrow> u32" where "slot pt i = pt + 4 * i"

section \<open>Operations\<close>

record vmst = memst +
  kptable :: u32

definition find_pte :: "u32 \<Rightarrow> u32 \<Rightarrow> bool \<Rightarrow> 'a memst_scheme \<Rightarrow> (u32, 'a memst_scheme) res" where
  "find_pte pt va alloc s =
     (let pte1 = slot pt (vpn1 va)
      in if load32 (mem s) pte1 AND PTE_V \<noteq> 0
         then Ok (slot (PTE2PA (load32 (mem s) pte1)) (vpn0 va)) s
         else if \<not> alloc then Ok 0 s
         else kbind (kalloc s) (\<lambda>pt s.
           if pt = 0 then kbind (error ''find_pte: NULL address'' s) (\<lambda>_ s. Ok 0 s)
           else kbind (memset pt 0 PAGE_SIZE s) (\<lambda>_ s.
             Ok (slot pt (vpn0 va)) (s\<lparr>mem := store32 pte1 (PA2PTE pt OR PTE_V) (mem s)\<rparr>))))"

definition mappage :: "u32 \<Rightarrow> u32 \<Rightarrow> u32 \<Rightarrow> u32 \<Rightarrow> 'a memst_scheme \<Rightarrow> (u32, 'a memst_scheme) res" where
  "mappage pt va pa flags s =
     (if va mod PAGE_SIZE \<noteq> 0 then panic ''mappage: va not aligned'' s
      else if pa mod PAGE_SIZE \<noteq> 0 then panic ''mappage: pa not aligned'' s
      else kbind (find_pte pt va True s) (\<lambda>pte s.
        if pte = 0 then Ok 0 s
        else if load32 (mem s) pte AND PTE_V \<noteq> 0
        then panic ''mappage: remap of an already-mapped va'' s
        else Ok pte (s\<lparr>mem := store32 pte (PA2PTE pa OR flags OR PTE_V) (mem s)\<rparr>)))"

definition mappages :: "u32 \<Rightarrow> u32 \<Rightarrow> u32 \<Rightarrow> u32 \<Rightarrow> u32 \<Rightarrow> 'a memst_scheme \<Rightarrow> (int, 'a memst_scheme) res" where
  "mappages pt va pa sz flags s =
     (if va mod PAGE_SIZE \<noteq> 0 then kbind (error ''mappages: va not aligned'' s) (\<lambda>_ s. Ok (-1) s)
      else if pa mod PAGE_SIZE \<noteq> 0 then kbind (error ''mappages: pa not aligned'' s) (\<lambda>_ s. Ok (-1) s)
      else if sz mod PAGE_SIZE \<noteq> 0 then kbind (error ''mappages: size not aligned'' s) (\<lambda>_ s. Ok (-1) s)
      else if sz = 0 then kbind (error ''mappages: size 0'' s) (\<lambda>_ s. Ok (-1) s)
      else kloop (\<lambda>(curr_va, pa) s.
        if curr_va \<noteq> va + sz
        then kbind (mappage pt curr_va pa flags s) (\<lambda>pte s.
          if pte = 0 then kbind (error ''mappages: failed to map va to pa'' s) (\<lambda>_ s. Ok (Inr (-1)) s)
          else Ok (Inl (curr_va + PAGE_SIZE, pa + PAGE_SIZE)) s)
        else Ok (Inr 0) s) (va, pa) s)"

definition ptcreate :: "'a memst_scheme \<Rightarrow> (u32, 'a memst_scheme) res" where
  "ptcreate s =
     kbind (kalloc s) (\<lambda>pt s. if pt = 0 then Ok 0 s else kbind (memset pt 0 PAGE_SIZE s) (\<lambda>_ s. Ok pt s))"

text \<open>
  \<open>etext_sym\<close> is the address of the linker symbol \<^verbatim>\<open>_etext\<close>. The page \<open>kalloc\<close> returns is
  used without a test for \<open>NULL\<close>.
\<close>

definition kptable_make :: "u32 \<Rightarrow> 'a memst_scheme \<Rightarrow> (u32, 'a memst_scheme) res" where
  "kptable_make etext_sym s =
     kbind (kalloc s) (\<lambda>kpt s.
     if kpt = 0 then Undef s
     else kbind (memset kpt 0 PAGE_SIZE s) (\<lambda>_ s.
     kbind (mappages kpt UART_0 UART_0 PAGE_SIZE (PTE_R OR PTE_W) s) (\<lambda>_ s.
     let etext_aligned = PGROUNDUP etext_sym;
         text_size = etext_aligned - KERNBASE
     in kbind (mappages kpt KERNBASE KERNBASE text_size (PTE_R OR PTE_X) s) (\<lambda>_ s.
        kbind (mappages kpt etext_aligned etext_aligned (MEM_END - etext_aligned) (PTE_R OR PTE_W) s) (\<lambda>_ s.
        Ok kpt s)))))"

definition init_kptable :: "u32 \<Rightarrow> 'a vmst_scheme \<Rightarrow> (unit, 'a vmst_scheme) res" where
  "init_kptable etext_sym s = kbind (kptable_make etext_sym s) (\<lambda>kpt s. Ok () (s\<lparr>kptable := kpt\<rparr>))"

definition set_satp :: "u32 \<Rightarrow> 'a machine_scheme \<Rightarrow> 'a machine_scheme" where
  "set_satp pt s =
     (let root_ppn = drop_bit 12 pt AND 0x003FFFFF
      in w_satp (0x80000000 OR root_ppn) s)"

definition init_kvmhart :: "'a vmst_scheme \<Rightarrow> 'a vmst_scheme" where
  "init_kvmhart s = set_satp (kptable s) s"

definition paging_status :: "'a machine_scheme \<Rightarrow> u32" where
  "paging_status s = drop_bit 31 (r_satp s) AND 1"

definition va2pa :: "u32 \<Rightarrow> u32 \<Rightarrow> 'a memst_scheme \<Rightarrow> (unit, 'a memst_scheme) res" where
  "va2pa pt va s =
     (let table = push_bit 12 (drop_bit 10 (load32 (mem s) (slot pt (vpn1 va))));
          mapped_pa = push_bit 12 (drop_bit 10 (load32 (mem s) (slot table (vpn0 va))))
      in printf (''mapping of va %p to pa %p'' @ [CHR 0x0A]) [VInt va, VInt mapped_pa] s)"

section \<open>Arithmetic of addresses and entries\<close>

lemma unat_and_low10: "unat (x AND 0x3ff :: u32) = unat x mod 1024"
proof -
  have "x AND 0x3ff = take_bit 10 x" by (simp add: take_bit_eq_mask mask_eq_exp_minus_1)
  then show ?thesis by (simp add: unsigned_take_bit_eq take_bit_eq_mod unat_mod)
qed

lemma unat_vpn1: "unat (vpn1 va) = unat va div 4194304"
  using unat_u32_lt [of va] by (simp add: vpn1_def unat_and_low10 drop_bit_eq_div unat_div)

lemma unat_vpn0: "unat (vpn0 va) = unat va div 4096 mod 1024"
  by (simp add: vpn0_def unat_and_low10 drop_bit_eq_div unat_div)

lemma vpn_less [simp]: "unat (vpn1 va) < 1024" "unat (vpn0 va) < 1024"
  using unat_u32_lt [of va] by (simp_all add: unat_vpn1 unat_vpn0)

text \<open>Two addresses have the same indices exactly when they lie in the same page.\<close>

lemma vpn_eq_iff: "vpn1 va = vpn1 va' \<and> vpn0 va = vpn0 va' \<longleftrightarrow> PGROUNDDOWN va = PGROUNDDOWN va'"
proof -
  have split: "x div 4096 = y div 4096 \<longleftrightarrow> x div 4194304 = y div 4194304 \<and> x div 4096 mod 1024 = y div 4096 mod 1024"
    for x y :: nat
  proof -
    have "x div 4194304 = x div 4096 div 1024" for x :: nat by (simp add: div_mult2_eq [symmetric])
    then show ?thesis by (metis div_mult_mod_eq)
  qed
  show ?thesis by (simp add: unat_eq_iff_u32 unat_vpn1 unat_vpn0 page_arith split)
qed

lemma unat_slot:
  assumes "page_aligned pt" "unat i < 1024"
  shows "unat (slot pt i) = unat pt + 4 * unat i"
proof -
  obtain k where k: "unat pt = 4096 * k" using assms(1) by (auto simp: page_aligned_def)
  then have "k < 1048576" using unat_u32_lt [of pt] by simp
  moreover have "unat (4 * i) = 4 * unat i"
    using assms(2) by (simp add: unat_word_ariths(2))
  ultimately show ?thesis
    using assms(2) k unat_add_lt [of pt "4 * i"] by (simp add: slot_def)
qed

lemma slot_aligned [simp]: "page_aligned pt \<Longrightarrow> unat i < 1024 \<Longrightarrow> unat (slot pt i) mod 4 = 0"
  by (auto simp: unat_slot page_aligned_def)

lemma slot_page [simp]: "page_aligned pt \<Longrightarrow> unat i < 1024 \<Longrightarrow> PGROUNDDOWN (slot pt i) = pt"
  by (auto simp: unat_eq_iff_u32 page_arith unat_slot page_aligned_def)

lemma slot_inj:
  assumes "page_aligned p" "page_aligned q" "unat i < 1024" "unat j < 1024"
  shows "slot p i = slot q j \<longleftrightarrow> p = q \<and> i = j"
proof
  assume eq: "slot p i = slot q j"
  then have "p = q" using assms slot_page by metis
  then show "p = q \<and> i = j" using eq assms by (simp add: unat_eq_iff_u32 unat_slot)
qed simp

lemma slot_nonzero: "page_aligned pt \<Longrightarrow> pt \<noteq> 0 \<Longrightarrow> unat i < 1024 \<Longrightarrow> slot pt i \<noteq> 0"
  by (auto simp: unat_eq_iff_u32 unat_slot)

lemma PTE2PA_aligned [simp]: "page_aligned (PTE2PA e)"
proof -
  have "PTE2PA e AND mask 12 = 0"
    by (rule bit_word_eqI) (auto simp: PTE2PA_def bit_simps)
  then have "unat (PTE2PA e) mod 4096 = 0" by (simp add: unat_low12 [symmetric])
  then show ?thesis by (simp add: page_aligned_def)
qed

text \<open>Flag words that fit below the page number.\<close>

definition flag_bits :: "u32 \<Rightarrow> bool" where
  "flag_bits f \<longleftrightarrow> f AND 0x3FF = f"

lemma low10_mask: "(0x3FF :: u32) = mask 10"
  by (simp add: mask_eq_exp_minus_1)

lemma page_aligned_low: "page_aligned pa \<longleftrightarrow> pa AND mask 12 = 0"
  by (simp add: unat_eq_iff_u32 [of _ 0] page_aligned_def unat_low12 del: unat_eq_zero)

lemma PTE2PA_make:
  assumes "page_aligned pa" "flag_bits f"
  shows "PTE2PA (PA2PTE pa OR f) = pa" "PTE_FLAGS (PA2PTE pa OR f) = f"
proof -
  have lo: "\<not> bit pa n" if "n < 12" for n
  proof -
    have "\<not> bit (pa AND mask 12) n" using assms(1) by (simp add: page_aligned_low)
    then show ?thesis using that by (simp add: bit_simps)
  qed
  have hi: "\<not> bit f n" if "10 \<le> n" for n
  proof -
    have "bit f n = bit (f AND mask 10) n" using assms(2) by (simp add: flag_bits_def low10_mask)
    then show ?thesis using that by (simp add: bit_simps)
  qed
  show "PTE2PA (PA2PTE pa OR f) = pa"
  proof (rule bit_word_eqI)
    fix n :: nat
    assume "n < LENGTH(32)"
    then show "bit (PTE2PA (PA2PTE pa OR f)) n = bit pa n"
      using lo [of n] hi [of "n - 2"] by (cases "n < 12") (auto simp: PTE2PA_def PA2PTE_def bit_simps)
  qed
  have "PA2PTE pa AND 0x3FF = 0"
    unfolding PA2PTE_def low10_mask by (rule bit_word_eqI) (auto simp: bit_simps)
  then show "PTE_FLAGS (PA2PTE pa OR f) = f"
    using assms(2) by (simp add: PTE_FLAGS_def flag_bits_def bit.conj_disj_distrib2)
qed

section \<open>Specification: the translation a page table stands for\<close>

definition valid :: "u32 \<Rightarrow> bool" where
  "valid e \<longleftrightarrow> e AND PTE_V \<noteq> 0"

definition entry :: "memory \<Rightarrow> u32 \<Rightarrow> u32 \<Rightarrow> u32" where
  "entry m p i = load32 m (slot p i)"

text \<open>The leaf entry the hardware finds for \<open>va\<close>, if both levels are valid.\<close>

definition walk :: "memory \<Rightarrow> u32 \<Rightarrow> u32 \<Rightarrow> u32 option" where
  "walk m pt va =
     (let e1 = entry m pt (vpn1 va)
      in if \<not> valid e1 then None
         else let e = entry m (PTE2PA e1) (vpn0 va) in if valid e then Some e else None)"

text \<open>The pages that hold the tables of \<open>pt\<close>.\<close>

definition tables :: "memory \<Rightarrow> u32 \<Rightarrow> u32 set" where
  "tables m pt = insert pt {PTE2PA (entry m pt i) |i. unat i < 1024 \<and> valid (entry m pt i)}"

text \<open>
  The root and its second-level tables form a tree: every valid root entry is a pointer entry
  (its flags are just the valid bit), and the tables are distinct.
\<close>

definition pt_tree :: "memory \<Rightarrow> u32 \<Rightarrow> bool" where
  "pt_tree m pt \<longleftrightarrow> page_aligned pt
     \<and> (\<forall>i. unat i < 1024 \<and> valid (entry m pt i) \<longrightarrow>
          PTE2PA (entry m pt i) \<noteq> pt \<and> PTE_FLAGS (entry m pt i) = PTE_V)
     \<and> (\<forall>i j. unat i < 1024 \<and> unat j < 1024 \<and> valid (entry m pt i) \<and> valid (entry m pt j)
          \<and> PTE2PA (entry m pt i) = PTE2PA (entry m pt j) \<longrightarrow> i = j)"

definition pt_wf :: "'a memst_scheme \<Rightarrow> u32 \<Rightarrow> bool" where
  "pt_wf s pt \<longleftrightarrow> pt_tree (mem s) pt
     \<and> (\<forall>p\<in>tables (mem s) pt. heap_page s p \<and> p \<notin> free_pages s)"

text \<open>The root indices in use.\<close>

definition roots :: "memory \<Rightarrow> u32 \<Rightarrow> u32 set" where
  "roots m pt = {i. unat i < 1024 \<and> valid (entry m pt i)}"

lemma tables_roots: "tables m pt = insert pt ((\<lambda>i. PTE2PA (entry m pt i)) ` roots m pt)"
  by (auto simp: tables_def roots_def)

lemma tables_root [simp]: "pt \<in> tables m pt"
  by (simp add: tables_def)

lemma tables_sub: "unat i < 1024 \<Longrightarrow> valid (entry m pt i) \<Longrightarrow> PTE2PA (entry m pt i) \<in> tables m pt"
  by (auto simp: tables_def)

lemma tables_aligned: "page_aligned pt \<Longrightarrow> p \<in> tables m pt \<Longrightarrow> page_aligned p"
  by (auto simp: tables_def)

lemma pt_treeD:
  assumes "pt_tree m pt"
  shows "page_aligned pt"
    and "unat i < 1024 \<Longrightarrow> valid (entry m pt i) \<Longrightarrow> PTE2PA (entry m pt i) \<noteq> pt"
    and "unat i < 1024 \<Longrightarrow> valid (entry m pt i) \<Longrightarrow> PTE_FLAGS (entry m pt i) = PTE_V"
    and "unat i < 1024 \<Longrightarrow> unat j < 1024 \<Longrightarrow> valid (entry m pt i) \<Longrightarrow> valid (entry m pt j)
      \<Longrightarrow> PTE2PA (entry m pt i) = PTE2PA (entry m pt j) \<longleftrightarrow> i = j"
  using assms unfolding pt_tree_def by blast+

section \<open>Entries after writes\<close>

lemma in_word_page: "unat a mod 4 = 0 \<Longrightarrow> in_block a 4 x \<Longrightarrow> PGROUNDDOWN x = PGROUNDDOWN a"
proof -
  assume "unat a mod 4 = 0" "in_block a 4 x"
  then have "unat x div 4 = unat a div 4" by (simp add: in_block_aligned)
  then have "unat x div 4 div 1024 = unat a div 4 div 1024" by simp
  then show ?thesis by (simp add: unat_eq_iff_u32 page_arith div_mult2_eq [symmetric])
qed

lemma entry_cong:
  assumes "page_aligned p" "unat i < 1024" "\<And>x. PGROUNDDOWN x = p \<Longrightarrow> m x = m' x"
  shows "entry m p i = entry m' p i"
  unfolding entry_def using assms in_word_page [of "slot p i"] by (intro load32_cong) simp

lemma entry_store [mem_simps]:
  assumes "page_aligned p" "page_aligned q" "unat i < 1024" "unat j < 1024"
  shows "entry (store32 (slot p i) e m) q j = (if p = q \<and> i = j then e else entry m q j)"
  using assms by (auto simp: entry_def mem_simps slot_inj)

lemma store_slot_page:
  "page_aligned p \<Longrightarrow> unat i < 1024 \<Longrightarrow> PGROUNDDOWN x \<noteq> p \<Longrightarrow> store32 (slot p i) e m x = m x"
  using in_word_page [of "slot p i" x] by (auto intro: store32_other)

lemma fill_page: "page_aligned p \<Longrightarrow> fill_block p 4096 v m x = (if PGROUNDDOWN x = p then v else m x)"
  by (simp add: fill_block_def in_page_iff)

lemma load32_zero: "(\<And>x. in_block a 4 x \<Longrightarrow> m x = 0) \<Longrightarrow> load32 m a = 0"
  using load32_cong [of a m "\<lambda>_. 0"] by (simp add: load32_def)

lemma entry_fill [mem_simps]:
  assumes "page_aligned p" "page_aligned q" "unat j < 1024"
  shows "entry (fill_block p 4096 0 m) q j = (if p = q then 0 else entry m q j)"
proof (cases "p = q")
  case True
  have "in_block (slot q j) 4 x \<Longrightarrow> fill_block p 4096 0 m x = 0" for x
    using True assms in_word_page [of "slot q j" x] by (simp add: fill_page)
  then show ?thesis using True by (simp add: entry_def load32_zero)
next
  case False
  then show ?thesis using assms by (auto intro!: entry_cong simp: fill_page)
qed

lemma not_valid_0 [simp]: "\<not> valid 0"
  by (simp add: valid_def)

lemma valid_bit: "valid e \<longleftrightarrow> bit e 0"
  by (simp add: valid_def PTE_V_def and_one_eq bit_0 even_iff_mod_2_eq_zero)

lemma valid_OR [simp]: "valid (e OR PTE_V)" "valid (e OR f OR PTE_V)"
  by (simp_all add: valid_bit PTE_V_def bit_simps)

section \<open>Frame\<close>

text \<open>The translation only depends on the pages of the tables.\<close>

lemma walk_cong:
  assumes pt: "page_aligned pt" and same: "\<And>x. PGROUNDDOWN x \<in> tables m pt \<Longrightarrow> m' x = m x"
  shows "unat i < 1024 \<Longrightarrow> entry m' pt i = entry m pt i"
    and "tables m' pt = tables m pt" and "pt_tree m' pt = pt_tree m pt" and "walk m' pt = walk m pt"
proof -
  have root: "entry m' pt i = entry m pt i" if "unat i < 1024" for i
    using pt that same by (intro entry_cong) auto
  then show "unat i < 1024 \<Longrightarrow> entry m' pt i = entry m pt i" .
  have "(p = PTE2PA (entry m' pt i) \<and> unat i < 1024 \<and> valid (entry m' pt i)) =
      (p = PTE2PA (entry m pt i) \<and> unat i < 1024 \<and> valid (entry m pt i))" for p i
    using root by auto
  then show "tables m' pt = tables m pt"
    by (simp only: tables_def)
  show "pt_tree m' pt = pt_tree m pt"
    using root by (simp add: pt_tree_def cong: conj_cong)
  show "walk m' pt = walk m pt"
  proof
    fix va
    have "entry m' (PTE2PA (entry m pt (vpn1 va))) (vpn0 va) = entry m (PTE2PA (entry m pt (vpn1 va))) (vpn0 va)"
      if "valid (entry m pt (vpn1 va))"
      using that same tables_sub [of "vpn1 va" m pt] by (intro entry_cong) auto
    then show "walk m' pt va = walk m pt va" by (simp add: walk_def root Let_def)
  qed
qed

section \<open>The two ways a page table changes\<close>

definition new_table :: "u32 \<Rightarrow> u32 \<Rightarrow> u32 \<Rightarrow> memory \<Rightarrow> memory" where
  "new_table pt va p m = store32 (slot pt (vpn1 va)) (PA2PTE p OR PTE_V) (fill_block p 4096 0 m)"

lemma flag_bits_V [simp]: "flag_bits PTE_V"
  by (simp add: flag_bits_def PTE_V_def)

lemma new_table:
  assumes tree: "pt_tree m pt" and p: "page_aligned p" "p \<notin> tables m pt"
    and inv: "\<not> valid (entry m pt (vpn1 va))"
  defines "m' \<equiv> new_table pt va p m"
  shows "unat j < 1024 \<Longrightarrow> entry m' p j = 0"
    and "entry m' pt (vpn1 va) = PA2PTE p OR PTE_V"
    and "tables m' pt = insert p (tables m pt)" and "pt_tree m' pt" and "walk m' pt = walk m pt"
    and "PGROUNDDOWN x \<noteq> p \<Longrightarrow> PGROUNDDOWN x \<noteq> pt \<Longrightarrow> m' x = m x"
    and "roots m' pt = insert (vpn1 va) (roots m pt)"
proof -
  have pt: "page_aligned pt" using tree by (rule pt_treeD)
  have ne: "p \<noteq> pt" using p(2) by auto
  have sub: "q \<noteq> p" "q \<noteq> pt" "page_aligned q" if "unat i < 1024" "valid (entry m pt i)" "q = PTE2PA (entry m pt i)" for q i
    using that p(2) tables_sub [of i m pt] pt_treeD(2) [OF tree] by auto
  have root: "entry m' pt i = (if i = vpn1 va then PA2PTE p OR PTE_V else entry m pt i)" if "unat i < 1024" for i
    using that pt p ne by (auto simp: m'_def new_table_def mem_simps)
  have mk: "PTE2PA (PA2PTE p OR PTE_V) = p" "PTE_FLAGS (PA2PTE p OR PTE_V) = PTE_V"
    using p by (simp_all add: PTE2PA_make)
  show new0: "entry m' p j = 0" if "unat j < 1024" for j
    using that pt p ne by (auto simp: m'_def new_table_def mem_simps)
  show "entry m' pt (vpn1 va) = PA2PTE p OR PTE_V" using root by simp
  show "roots m' pt = insert (vpn1 va) (roots m pt)" using root inv by (auto simp: roots_def)
  have v: "(q = PTE2PA (entry m' pt i) \<and> unat i < 1024 \<and> valid (entry m' pt i)) \<longleftrightarrow>
      (i = vpn1 va \<and> q = p) \<or> (q = PTE2PA (entry m pt i) \<and> unat i < 1024 \<and> valid (entry m pt i))" for q i
    using root [of i] inv mk by (cases "i = vpn1 va") auto
  then have "{PTE2PA (entry m' pt i) |i. unat i < 1024 \<and> valid (entry m' pt i)} =
      insert p {PTE2PA (entry m pt i) |i. unat i < 1024 \<and> valid (entry m pt i)}"
    by blast
  then show "tables m' pt = insert p (tables m pt)" by (auto simp: tables_def)
  show "pt_tree m' pt"
    unfolding pt_tree_def
  proof (intro conjI allI impI)
    show "page_aligned pt" by (rule pt)
  next
    fix i
    assume "unat i < 1024 \<and> valid (entry m' pt i)"
    then show "PTE2PA (entry m' pt i) \<noteq> pt" "PTE_FLAGS (entry m' pt i) = PTE_V"
      using root [of i] mk ne pt_treeD(2,3) [OF tree, of i] by (auto split: if_splits)
  next
    fix i j
    assume "unat i < 1024 \<and> unat j < 1024 \<and> valid (entry m' pt i) \<and> valid (entry m' pt j)
      \<and> PTE2PA (entry m' pt i) = PTE2PA (entry m' pt j)"
    then show "i = j"
      using root [of i] root [of j] mk sub(1) [of i] sub(1) [of j] pt_treeD(4) [OF tree, of i j]
      by (auto split: if_splits)
  qed
  show "PGROUNDDOWN x \<noteq> p \<Longrightarrow> PGROUNDDOWN x \<noteq> pt \<Longrightarrow> m' x = m x" for x
    using pt p by (simp add: m'_def new_table_def store_slot_page fill_page)
  then have other: "entry m' q i = entry m q i" if "page_aligned q" "q \<noteq> p" "q \<noteq> pt" "unat i < 1024" for q i
    using that by (intro entry_cong) auto
  show "walk m' pt = walk m pt"
  proof
    fix va'
    show "walk m' pt va' = walk m pt va'"
      using root [of "vpn1 va'"] mk new0 [of "vpn0 va'"] inv other [of "PTE2PA (entry m pt (vpn1 va'))" "vpn0 va'"]
        sub [of "vpn1 va'"]
      by (auto simp: walk_def Let_def)
  qed
qed

text \<open>Writing a leaf entry through the second-level table of \<open>va\<close>.\<close>

definition leaf :: "memory \<Rightarrow> u32 \<Rightarrow> u32 \<Rightarrow> u32" where
  "leaf m pt va = slot (PTE2PA (entry m pt (vpn1 va))) (vpn0 va)"

lemma set_leaf:
  fixes e :: u32
  assumes tree: "pt_tree m pt" and val: "valid (entry m pt (vpn1 va))"
  defines "m' \<equiv> store32 (leaf m pt va) e m"
  shows "tables m' pt = tables m pt" and "pt_tree m' pt"
    and "walk m' pt va' = (if PGROUNDDOWN va' = PGROUNDDOWN va then if valid e then Some e else None else walk m pt va')"
    and "PGROUNDDOWN x \<notin> tables m pt \<Longrightarrow> m' x = m x" and "roots m' pt = roots m pt"
proof -
  let ?q = "PTE2PA (entry m pt (vpn1 va))"
  have pt: "page_aligned pt" and q: "?q \<noteq> pt" "?q \<in> tables m pt"
    using pt_treeD(1,2) [OF tree] val tables_sub by auto
  have root: "entry m' pt i = entry m pt i" if "unat i < 1024" for i
    using that q(1) pt by (simp add: m'_def leaf_def mem_simps)
  show rt: "roots m' pt = roots m pt" using root by (auto simp: roots_def)
  have "(\<lambda>i. PTE2PA (entry m' pt i)) ` roots m pt = (\<lambda>i. PTE2PA (entry m pt i)) ` roots m pt"
    using root by (auto simp: roots_def)
  then show "tables m' pt = tables m pt" by (simp add: tables_roots rt)
  show "pt_tree m' pt"
    using root tree by (simp add: pt_tree_def cong: conj_cong)
  show "PGROUNDDOWN x \<notin> tables m pt \<Longrightarrow> m' x = m x" for x
  proof -
    assume "PGROUNDDOWN x \<notin> tables m pt"
    then have "PGROUNDDOWN x \<noteq> ?q" using q(2) by auto
    then show ?thesis by (simp add: m'_def leaf_def store_slot_page)
  qed
  let ?e1 = "entry m pt (vpn1 va')"
  have "entry m' (PTE2PA ?e1) (vpn0 va') = (if ?q = PTE2PA ?e1 \<and> vpn0 va = vpn0 va' then e else entry m (PTE2PA ?e1) (vpn0 va'))"
    by (simp add: m'_def leaf_def mem_simps)
  moreover have "?q = PTE2PA ?e1 \<longleftrightarrow> vpn1 va = vpn1 va'" if "valid ?e1"
    using pt_treeD(4) [OF tree, of "vpn1 va" "vpn1 va'"] val that by simp
  ultimately show "walk m' pt va' = (if PGROUNDDOWN va' = PGROUNDDOWN va then if valid e then Some e else None else walk m pt va')"
    using val by (auto simp: walk_def root Let_def vpn_eq_iff [symmetric])
qed

section \<open>What the operations do to a well-formed page table\<close>

text \<open>
  \<open>pt_grow s t pt\<close>: from \<open>s\<close> to \<open>t\<close> only the tables of \<open>pt\<close> were written, they grew by exactly
  the pages taken from the allocator, and \<open>pt\<close> is still well formed.
\<close>

definition pt_grow :: "'a memst_scheme \<Rightarrow> 'a memst_scheme \<Rightarrow> u32 \<Rightarrow> bool" where
  "pt_grow s t pt \<longleftrightarrow> noise (s\<lparr>mem := mem t, mem_bitmap := mem_bitmap t\<rparr>) t
     \<and> mem_ready t \<and> pt_wf t pt \<and> free_pages t \<subseteq> free_pages s
     \<and> tables (mem t) pt = tables (mem s) pt \<union> (free_pages s - free_pages t)
     \<and> (\<forall>x. PGROUNDDOWN x \<notin> tables (mem t) pt \<longrightarrow> mem t x = mem s x)"

lemma upd_commute: "s\<lparr>mem_bitmap := b, mem := m\<rparr> = s\<lparr>mem := m, mem_bitmap := b\<rparr>"
  by simp

lemma noise_upd_mem:
  "noise (s\<lparr>mem_bitmap := b\<rparr>) t \<Longrightarrow> noise (s\<lparr>mem := m, mem_bitmap := b\<rparr>) (t\<lparr>mem := m\<rparr>)"
  using noise_upd(1) [of "s\<lparr>mem_bitmap := b\<rparr>" t m] by (simp only: upd_commute)

lemma noise_upd_both: "noise s t \<Longrightarrow> noise (s\<lparr>mem := m, mem_bitmap := b\<rparr>) (t\<lparr>mem := m, mem_bitmap := b\<rparr>)"
  by (intro noise_upd)

lemma pt_grow_trans: "pt_grow s t pt \<Longrightarrow> pt_grow t u pt \<Longrightarrow> pt_grow s u pt"
proof -
  assume st: "pt_grow s t pt" and tu: "pt_grow t u pt"
  have "noise (s\<lparr>mem := mem u, mem_bitmap := mem_bitmap u\<rparr>) (t\<lparr>mem := mem u, mem_bitmap := mem_bitmap u\<rparr>)"
    using st noise_upd_both [of "s\<lparr>mem := mem t, mem_bitmap := mem_bitmap t\<rparr>" t "mem_bitmap u" "mem u"]
    by (simp add: pt_grow_def)
  moreover have "noise (t\<lparr>mem := mem u, mem_bitmap := mem_bitmap u\<rparr>) u" using tu by (simp add: pt_grow_def)
  ultimately have "noise (s\<lparr>mem := mem u, mem_bitmap := mem_bitmap u\<rparr>) u" by (rule noise_trans)
  moreover have "tables (mem u) pt = tables (mem s) pt \<union> (free_pages s - free_pages u)"
    "free_pages u \<subseteq> free_pages s"
    using st tu unfolding pt_grow_def by blast+
  moreover have "mem u x = mem s x" if "PGROUNDDOWN x \<notin> tables (mem u) pt" for x
    using that st tu unfolding pt_grow_def by (metis Un_iff)
  moreover have "mem_ready u" "pt_wf u pt" using tu by (simp_all add: pt_grow_def)
  ultimately show ?thesis unfolding pt_grow_def by blast
qed

lemma noise_eq_upd: "noise s t \<Longrightarrow> s\<lparr>mem := mem t, mem_bitmap := mem_bitmap t\<rparr> = s"
  by (simp add: noise_fields noise_memst)

lemma pt_wf_noise: "noise s t \<Longrightarrow> pt_wf t pt = pt_wf s pt"
  by (simp add: pt_wf_def noise_ready noise_fields)

lemma pt_grow_noise: "noise s t \<Longrightarrow> mem_ready s \<Longrightarrow> pt_wf s pt \<Longrightarrow> pt_grow s t pt"
  by (simp add: pt_grow_def noise_eq_upd noise_ready noise_fields noise_memst pt_wf_noise)

lemma pt_wfD:
  assumes "pt_wf s pt"
  shows "pt_tree (mem s) pt" "page_aligned pt" "p \<in> tables (mem s) pt \<Longrightarrow> heap_page s p"
    "p \<in> tables (mem s) pt \<Longrightarrow> p \<notin> free_pages s"
  using assms pt_treeD(1) by (auto simp: pt_wf_def)

lemma heap_page_facts: "heap_page s p \<Longrightarrow> mem_ready s \<Longrightarrow> page_aligned p \<and> p \<noteq> 0"
  by (auto simp: heap_page_def ram_page_def MEM_START_def word_le_nat_alt)

lemma find_pte_valid:
  "valid (entry (mem s) pt (vpn1 va)) \<Longrightarrow> find_pte pt va a s = Ok (leaf (mem s) pt va) s"
  by (simp add: find_pte_def entry_def leaf_def valid_def)

lemma find_pte_invalid: "\<not> valid (entry (mem s) pt (vpn1 va)) \<Longrightarrow> find_pte pt va False s = Ok 0 s"
  by (simp add: find_pte_def entry_def valid_def)

lemma leaf_nonzero:
  assumes "mem_ready s" "pt_wf s pt" "valid (entry (mem s) pt (vpn1 va))"
  shows "leaf (mem s) pt va \<noteq> 0"
proof -
  have "PTE2PA (entry (mem s) pt (vpn1 va)) \<in> tables (mem s) pt" using assms(3) by (simp add: tables_sub)
  then have "heap_page s (PTE2PA (entry (mem s) pt (vpn1 va)))" using assms(2) by (simp add: pt_wfD)
  from heap_page_facts [OF this assms(1)] show ?thesis by (simp add: leaf_def slot_nonzero)
qed

text \<open>The allocating walk: afterwards the second-level table exists, or memory is exhausted.\<close>

lemma find_pte_alloc:
  assumes s: "mem_ready s" and wf: "pt_wf s pt"
  shows "\<exists>r t. find_pte pt va True s = Ok r t \<and> pt_grow s t pt \<and> walk (mem t) pt = walk (mem s) pt
    \<and> roots (mem t) pt \<subseteq> insert (vpn1 va) (roots (mem s) pt)
    \<and> (if valid (entry (mem s) pt (vpn1 va)) \<or> free_pages s \<noteq> {}
       then r = leaf (mem t) pt va \<and> r \<noteq> 0 \<and> valid (entry (mem t) pt (vpn1 va))
       else r = 0 \<and> free_pages t = {})"
proof (cases "valid (entry (mem s) pt (vpn1 va))")
  case True
  then show ?thesis
    using find_pte_valid [OF True] leaf_nonzero [OF s wf True] pt_grow_noise [OF noise_refl s wf] by auto
next
  case inv: False
  show ?thesis
  proof (cases "free_pages s = {}")
    case True
    obtain t where t: "kalloc s = Ok 0 t" "noise s t" using kalloc_spec(2) [OF s True] by blast
    have "kctx t" using s t(2) by (simp add: mem_ready_def)
    then obtain u where u: "error ''find_pte: NULL address'' t = Ok () u" "noise t u"
      using error_noise [of "''find_pte: NULL address''" t] by auto
    have "find_pte pt va True s = Ok 0 u"
      using inv t(1) u(1) by (simp add: find_pte_def entry_def valid_def)
    then show ?thesis
      using pt_grow_noise [OF noise_trans [OF t(2) u(2)] s wf] True inv noise_trans [OF t(2) u(2)]
      by (auto simp: noise_ready noise_fields)
  next
    case False
    let ?p = "Min (free_pages s)" and ?b = "(mem_bitmap s)(page_no (Min (free_pages s)) := 0)"
    obtain t where t: "kalloc s = Ok ?p t" "noise (s\<lparr>mem_bitmap := ?b\<rparr>) t"
      using kalloc_spec(1) [OF s False] by blast
    have p: "?p \<in> free_pages s" using False by (intro Min_in) auto
    then have r: "ram_page ?p" "heap_page s ?p" using free_pages_heap [OF s] by (auto simp: free_pages_def)
    then have al: "page_aligned ?p" "?p \<noteq> 0" using heap_page_facts [OF _ s] by blast+
    have nt: "?p \<notin> tables (mem s) pt" using pt_wfD(4) [OF wf] p by blast
    let ?m = "new_table pt va ?p (mem s)"
    note new = new_table [OF pt_wfD(1) [OF wf] al(1) nt inv]
    let ?t = "t\<lparr>mem := ?m\<rparr>"
    have f: "find_pte pt va True s = Ok (slot ?p (vpn0 va)) ?t"
      using inv t(1) al noise_fields(3) [OF t(2)]
      by (simp add: find_pte_def entry_def valid_def memset_fill PAGE_SIZE_def new_table_def)
    have n: "noise (s\<lparr>mem := ?m, mem_bitmap := ?b\<rparr>) ?t"
      by (rule noise_upd_mem [OF t(2)])
    have fp: "free_pages ?t = free_pages s - {?p}"
      using noise_ready(2) [OF t(2)] free_pages_upd(1) [OF r(1), of s] by (simp add: free_pages_def)
    have rd: "mem_ready t" using alloc_wf_upd(1) [OF s] noise_ready(1) [OF t(2)] by simp
    then have rd': "mem_ready ?t" by (simp add: mem_ready_def alloc_wf_def)
    have "heap_page ?t = heap_page s" using noise_ready(3) [OF n] by simp
    then have "pt_wf ?t pt"
      using new(3,4) wf r(2) fp by (auto simp: pt_wf_def)
    moreover have "?m x = mem s x" if "PGROUNDDOWN x \<notin> tables ?m pt" for x
      using that tables_root [of pt "mem s"] by (intro new(6)) (auto simp: new(3))
    moreover have "tables ?m pt = tables (mem s) pt \<union> (free_pages s - free_pages ?t)"
      using new(3) fp p by auto
    moreover have "mem_bitmap t = ?b" using noise_memst [OF t(2)] by simp
    ultimately have "pt_grow s ?t pt"
      unfolding pt_grow_def using n rd' fp by simp
    moreover have "slot ?p (vpn0 va) = leaf ?m pt va" "valid (entry ?m pt (vpn1 va))"
      using new(2) al by (simp_all add: leaf_def PTE2PA_make)
    ultimately show ?thesis
      using f False new(5,7) slot_nonzero [OF al, of "vpn0 va"] by simp
  qed
qed

text \<open>Writing a leaf entry of a well-formed page table.\<close>

lemma pt_grow_leaf:
  assumes s: "mem_ready s" and wf: "pt_wf s pt" and val: "valid (entry (mem s) pt (vpn1 va))"
  shows "pt_grow s (s\<lparr>mem := store32 (leaf (mem s) pt va) e (mem s)\<rparr>) pt"
proof -
  let ?t = "s\<lparr>mem := store32 (leaf (mem s) pt va) e (mem s)\<rparr>"
  note sl = set_leaf [OF pt_wfD(1) [OF wf] val, where e = e]
  have fp: "free_pages ?t = free_pages s" by (simp add: free_pages_def)
  moreover have "mem_ready ?t" using s by (simp add: mem_ready_def alloc_wf_def)
  moreover have "pt_wf ?t pt" using wf sl(1,2) fp by (simp add: pt_wf_def)
  moreover have "s\<lparr>mem := mem ?t, mem_bitmap := mem_bitmap ?t\<rparr> = ?t" by simp
  ultimately show ?thesis
    unfolding pt_grow_def using sl(1,4) by simp
qed

lemma walk_invalid: "\<not> valid (entry m pt (vpn1 va)) \<Longrightarrow> walk m pt va = None"
  by (simp add: walk_def)

lemma walk_leaf:
  "valid (entry m pt (vpn1 va)) \<Longrightarrow>
    walk m pt va = (if valid (load32 m (leaf m pt va)) then Some (load32 m (leaf m pt va)) else None)"
  by (simp add: walk_def leaf_def entry_def Let_def)

text \<open>The translation after mapping one page.\<close>

definition map_page :: "(u32 \<Rightarrow> u32 option) \<Rightarrow> u32 \<Rightarrow> u32 \<Rightarrow> (u32 \<Rightarrow> u32 option)" where
  "map_page w va e = (\<lambda>va'. if PGROUNDDOWN va' = va then Some e else w va')"

lemma mappage_spec:
  assumes s: "mem_ready s" and wf: "pt_wf s pt" and al: "page_aligned va" "page_aligned pa"
    and un: "walk (mem s) pt va = None"
  shows "\<exists>r t. mappage pt va pa flags s = Ok r t \<and> pt_grow s t pt
    \<and> (if r = 0 then walk (mem t) pt = walk (mem s) pt \<and> free_pages t = {}
       else walk (mem t) pt = map_page (walk (mem s) pt) va (PA2PTE pa OR flags OR PTE_V))
    \<and> (r = 0 \<longleftrightarrow> \<not> valid (entry (mem s) pt (vpn1 va)) \<and> free_pages s = {})
    \<and> roots (mem t) pt \<subseteq> insert (vpn1 va) (roots (mem s) pt)"
proof -
  obtain r t where r: "find_pte pt va True s = Ok r t" "pt_grow s t pt" "walk (mem t) pt = walk (mem s) pt"
    "roots (mem t) pt \<subseteq> insert (vpn1 va) (roots (mem s) pt)"
    "if valid (entry (mem s) pt (vpn1 va)) \<or> free_pages s \<noteq> {}
       then r = leaf (mem t) pt va \<and> r \<noteq> 0 \<and> valid (entry (mem t) pt (vpn1 va))
       else r = 0 \<and> free_pages t = {}"
    using find_pte_alloc [OF s wf, of va] by blast
  have m: "mappage pt va pa flags s = (if r = 0 then Ok 0 t
      else if load32 (mem t) r AND PTE_V \<noteq> 0 then panic ''mappage: remap of an already-mapped va'' t
      else Ok r (t\<lparr>mem := store32 r (PA2PTE pa OR flags OR PTE_V) (mem t)\<rparr>))"
    using al r(1) by (simp add: mappage_def mod_page_eq_0)
  show ?thesis
  proof (cases "valid (entry (mem s) pt (vpn1 va)) \<or> free_pages s \<noteq> {}")
    case True
    then have rr: "r = leaf (mem t) pt va" "r \<noteq> 0" "valid (entry (mem t) pt (vpn1 va))" using r(5) by auto
    have "\<not> valid (load32 (mem t) r)"
      using walk_leaf [OF rr(3)] un r(3) rr(1) by (auto split: if_splits)
    then have eq: "mappage pt va pa flags s = Ok r (t\<lparr>mem := store32 r (PA2PTE pa OR flags OR PTE_V) (mem t)\<rparr>)"
      using m rr(2) by (simp add: valid_def)
    have tr: "mem_ready t" "pt_wf t pt" using r(2) by (simp_all add: pt_grow_def)
    let ?u = "t\<lparr>mem := store32 r (PA2PTE pa OR flags OR PTE_V) (mem t)\<rparr>"
    have "pt_grow s ?u pt"
      using pt_grow_trans [OF r(2)] pt_grow_leaf [OF tr rr(3)] rr(1) by simp
    moreover have "walk (mem ?u) pt = map_page (walk (mem s) pt) va (PA2PTE pa OR flags OR PTE_V)"
      using set_leaf(3) [OF pt_wfD(1) [OF tr(2)] rr(3)] rr(1) r(3) al(1)
      by (auto simp: map_page_def fun_eq_iff PGROUNDDOWN_aligned)
    moreover have "roots (mem ?u) pt = roots (mem t) pt"
      using set_leaf(5) [OF pt_wfD(1) [OF tr(2)] rr(3)] rr(1) by simp
    ultimately show ?thesis using eq rr(2) True r(4) by auto
  next
    case False
    then show ?thesis using r m by auto
  qed
qed

text \<open>
  Mapping a page that is mapped already is a kernel bug, and the kernel says so.
\<close>

lemma mappage_remap:
  assumes s: "mem_ready s" and al: "page_aligned va" "page_aligned pa"
    and wf: "pt_wf s pt" and "walk (mem s) pt va = Some e"
  shows "\<exists>t. mappage pt va pa flags s = Panic ''mappage: remap of an already-mapped va'' t"
proof -
  have v: "valid (entry (mem s) pt (vpn1 va))" using assms(5) walk_invalid by (metis option.distinct(1))
  then have "valid (load32 (mem s) (leaf (mem s) pt va))"
    using assms(5) walk_leaf [OF v] by (auto split: if_splits)
  moreover have "uart_live s" using s by (simp add: mem_ready_def kctx_def)
  ultimately show ?thesis
    using find_pte_valid [OF v, of True] leaf_nonzero [OF s wf v] al
      panic_panics [of "''mappage: remap of an already-mapped va''" s]
    by (auto simp: mappage_def mod_page_eq_0 valid_def)
qed

section \<open>Ranges of pages\<close>

text \<open>
  The translation after mapping the first \<open>k\<close> pages of a range at \<open>va\<close> to the pages from \<open>pa\<close>
  on. Addresses count modulo the address space, as in the code.
\<close>

definition map_range :: "(u32 \<Rightarrow> u32 option) \<Rightarrow> u32 \<Rightarrow> u32 \<Rightarrow> nat \<Rightarrow> u32 \<Rightarrow> (u32 \<Rightarrow> u32 option)" where
  "map_range w va pa k flags = (\<lambda>va'. if in_block va (4096 * k) va'
     then Some (PA2PTE (pa + PGROUNDDOWN (va' - va)) OR flags OR PTE_V) else w va')"

lemma map_range_0: "map_range w va pa 0 flags = w"
  by (simp add: map_range_def)

lemma PGROUNDDOWN_minus: "PGROUNDDOWN x = x - take_bit 12 x"
proof -
  have l: "unat (take_bit 12 x) = unat x mod 4096"
    using unat_low12 [of x] by (simp add: take_bit_eq_mask)
  then have "unat (x - take_bit 12 x) = unat x - unat x mod 4096"
    by (simp add: unat_sub word_le_nat_alt)
  then show ?thesis by (simp add: unat_eq_iff_u32 page_arith minus_mod_eq_div_mult)
qed

lemma take_bit_add_aligned:
  assumes "page_aligned p"
  shows "take_bit 12 (x + p) = take_bit 12 x"
proof -
  have l: "unat (take_bit 12 y) = unat y mod 4096" for y :: u32
    using unat_low12 [of y] by (simp add: take_bit_eq_mask)
  have "(unat x + unat p) mod 4294967296 mod 4096 = (unat x + unat p) mod 4096"
    by (rule mod_mod_cancel) simp
  also have "\<dots> = unat x mod 4096" using assms by (auto simp: page_aligned_def)
  finally show ?thesis by (simp add: unat_eq_iff_u32 l unat_word_ariths(1))
qed

lemma PGROUNDDOWN_add: "page_aligned p \<Longrightarrow> PGROUNDDOWN (x + p) = PGROUNDDOWN x + p"
  by (simp add: PGROUNDDOWN_minus take_bit_add_aligned)

lemma PGROUNDDOWN_diff: "page_aligned p \<Longrightarrow> PGROUNDDOWN (x - p) = PGROUNDDOWN x - p"
  using PGROUNDDOWN_add [of p "x - p"] by simp

lemma page_aligned_iff: "page_aligned p \<longleftrightarrow> PGROUNDDOWN p = p"
  using PGROUNDDOWN_aligned page_aligned_rounded by metis

lemma page_aligned_add [simp]: "page_aligned p \<Longrightarrow> page_aligned q \<Longrightarrow> page_aligned (p + q)"
  using PGROUNDDOWN_add [of q p] by (simp add: page_aligned_iff)

lemma unat_pages: "k < 1048576 \<Longrightarrow> unat (of_nat k * 4096 :: u32) = k * 4096"
  by (subst unat_mult_lem [THEN iffD1]) simp_all

lemma page_aligned_pages [simp]: "page_aligned (of_nat k * 4096)"
proof -
  have "unat (of_nat k * 4096 :: u32) = (k * 4096) mod 4294967296"
    using unat_of_nat [of "k * 4096", where 'a = 32] by simp
  then show ?thesis by (simp add: page_aligned_def mod_mod_cancel)
qed

text \<open>The \<open>k\<close>-th page of a range at \<open>va\<close>.\<close>

lemma page_step_iff:
  assumes va: "page_aligned va" and k: "k < 1048576"
  shows "PGROUNDDOWN va' = va + of_nat k * 4096 \<longleftrightarrow> unat (va' - va) div 4096 = k"
proof -
  have "PGROUNDDOWN va' = va + of_nat k * 4096 \<longleftrightarrow> PGROUNDDOWN (va' - va) = of_nat k * 4096"
    using PGROUNDDOWN_diff [OF va, of va'] by (auto simp: algebra_simps)
  also have "\<dots> \<longleftrightarrow> unat (va' - va) div 4096 * 4096 = k * 4096"
    using k by (simp add: unat_eq_iff_u32 [of "PGROUNDDOWN _"] page_arith unat_pages)
  finally show ?thesis by simp
qed

lemma map_range_Suc:
  assumes "page_aligned va" "k < 1048576"
  shows "map_page (map_range w va pa k flags) (va + of_nat k * 4096) (PA2PTE (pa + of_nat k * 4096) OR flags OR PTE_V) =
    map_range w va pa (Suc k) flags"
proof
  fix va'
  let ?d = "unat (va' - va)"
  have "PGROUNDDOWN (va' - va) = of_nat k * 4096" if "?d div 4096 = k"
    using page_step_iff [OF assms, of va'] that PGROUNDDOWN_diff [OF assms(1), of va'] by simp
  moreover have "in_block va (4096 * k) va' \<longleftrightarrow> ?d div 4096 < k" "in_block va (4096 * Suc k) va' \<longleftrightarrow> ?d div 4096 < Suc k"
    unfolding in_block_def by (auto simp: div_less_iff_less_mult algebra_simps)
  ultimately show "map_page (map_range w va pa k flags) (va + of_nat k * 4096)
      (PA2PTE (pa + of_nat k * 4096) OR flags OR PTE_V) va' = map_range w va pa (Suc k) flags va'"
    using page_step_iff [OF assms, of va'] by (auto simp: map_page_def map_range_def)
qed

lemma page_count:
  assumes "page_aligned sz"
  obtains n where "sz = of_nat n * 4096" "unat sz = 4096 * n" "n < 1048576"
proof -
  obtain n where n: "unat sz = 4096 * n" using assms by (auto simp: page_aligned_def)
  moreover have lt: "n < 1048576" using n unat_u32_lt [of sz] by simp
  moreover have "sz = of_nat n * 4096" using n unat_pages [OF lt] by (simp add: unat_eq_iff_u32)
  ultimately show ?thesis using that by blast
qed

lemma of_nat_pages_eq: "k < 1048576 \<Longrightarrow> n < 1048576 \<Longrightarrow> (of_nat k * 4096 :: u32) = of_nat n * 4096 \<longleftrightarrow> k = n"
  by (simp add: unat_eq_iff_u32 unat_pages)

lemma mappages_spec:
  assumes s: "mem_ready s" and wf: "pt_wf s pt" and al: "page_aligned va" "page_aligned pa"
    and sz: "sz = of_nat n * 4096" "n < 1048576" "n \<noteq> 0"
    and un: "\<And>va'. in_block va (4096 * n) va' \<Longrightarrow> walk (mem s) pt va' = None"
  shows "\<exists>r t. mappages pt va pa sz flags s = Ok r t \<and>
    (\<exists>k\<le>n. r = (if k = n then 0 else -1) \<and> pt_grow s t pt \<and> (k < n \<longrightarrow> free_pages t = {})
      \<and> walk (mem t) pt = map_range (walk (mem s) pt) va pa k flags
      \<and> roots (mem t) pt \<subseteq> roots (mem s) pt \<union> vpn1 ` {va'. in_block va (4096 * n) va'})"
proof -
  let ?R = "roots (mem s) pt \<union> vpn1 ` {va'. in_block va (4096 * n) va'}"
  let ?body = "\<lambda>(curr_va, pa) s. if curr_va \<noteq> va + sz
        then kbind (mappage pt curr_va pa flags s) (\<lambda>pte s.
          if pte = 0 then kbind (error ''mappages: failed to map va to pa'' s) (\<lambda>_ s. Ok (Inr (-1)) s)
          else Ok (Inl (curr_va + PAGE_SIZE, pa + PAGE_SIZE)) s)
        else Ok (Inr 0) s"
  let ?Q = "\<lambda>r t. \<exists>k\<le>n. r = (if k = n then 0 else -1 :: int) \<and> pt_grow s t pt \<and> (k < n \<longrightarrow> free_pages t = {})
      \<and> walk (mem t) pt = map_range (walk (mem s) pt) va pa k flags \<and> roots (mem t) pt \<subseteq> ?R"
  let ?I = "\<lambda>i x t. \<exists>k. k + i = n \<and> x = (va + of_nat k * 4096, pa + of_nat k * 4096) \<and> pt_grow s t pt
      \<and> walk (mem t) pt = map_range (walk (mem s) pt) va pa k flags \<and> roots (mem t) pt \<subseteq> ?R"
  have "sz mod PAGE_SIZE = 0" "sz \<noteq> 0"
    using sz of_nat_pages_eq [of n 0] by (simp_all add: mod_page_eq_0)
  then have m: "mappages pt va pa sz flags s = kloop ?body (va, pa) s"
    using al by (simp add: mappages_def mod_page_eq_0)
  have "\<exists>r t. kloop ?body (va, pa) s = Ok r t \<and> ?Q r t"
  proof (rule kloop_count [where I = ?I])
    show "?I n (va, pa) s"
      using pt_grow_noise [OF noise_refl s wf] by (intro exI [of _ 0]) (simp add: map_range_0)
  next
    fix x t
    assume "?I 0 x t"
    then show "\<exists>r u. ?body x t = Ok (Inr r) u \<and> ?Q r u" using sz by auto
  next
    fix i x t
    assume "?I (Suc i) x t"
    then obtain k where k: "k + Suc i = n" and x: "x = (va + of_nat k * 4096, pa + of_nat k * 4096)"
      and g: "pt_grow s t pt" and w: "walk (mem t) pt = map_range (walk (mem s) pt) va pa k flags"
      and rt: "roots (mem t) pt \<subseteq> ?R"
      by blast
    have kn: "k < n" "k < 1048576" using k sz by auto
    have tr: "mem_ready t" "pt_wf t pt" using g by (simp_all add: pt_grow_def)
    let ?va = "va + of_nat k * 4096" and ?pa = "pa + of_nat k * 4096"
    have ne: "?va \<noteq> va + sz" using kn sz by (simp add: of_nat_pages_eq)
    have ib: "in_block va (4096 * n) ?va" using kn by (simp add: in_block_def unat_pages)
    have u: "walk (mem t) pt ?va = None"
      using kn un [OF ib] by (simp add: w map_range_def in_block_def unat_pages)
    obtain r v where r: "mappage pt ?va ?pa flags t = Ok r v" "pt_grow t v pt"
      "if r = 0 then walk (mem v) pt = walk (mem t) pt \<and> free_pages v = {}
       else walk (mem v) pt = map_page (walk (mem t) pt) ?va (PA2PTE ?pa OR flags OR PTE_V)"
      "roots (mem v) pt \<subseteq> insert (vpn1 ?va) (roots (mem t) pt)"
      using mappage_spec [OF tr _ _ u, of ?pa flags] al by auto
    have rv: "roots (mem v) pt \<subseteq> ?R" using r(4) rt ib by blast
    have gv: "pt_grow s v pt" using pt_grow_trans [OF g r(2)] .
    show "(\<exists>y u. ?body x t = Ok (Inl y) u \<and> ?I i y u) \<or> (\<exists>r u. ?body x t = Ok (Inr r) u \<and> ?Q r u)"
    proof (cases "r = 0")
      case True
      have "kctx v" using gv by (simp add: pt_grow_def mem_ready_def)
      then obtain u where u: "error ''mappages: failed to map va to pa'' v = Ok () u" "noise v u"
        using error_noise [of "''mappages: failed to map va to pa''" v] by auto
      have "pt_grow s u pt"
        using pt_grow_trans [OF gv pt_grow_noise [OF u(2)]] gv by (simp add: pt_grow_def)
      then have "?Q (-1) u"
        using kn True r(3) w u(2) rv by (intro exI [of _ k]) (simp add: noise_fields noise_ready)
      then show ?thesis using x ne r(1) True u(1) by (intro disjI2 exI [of _ "-1"] exI [of _ u]) simp
    next
      case False
      then have "walk (mem v) pt = map_range (walk (mem s) pt) va pa (Suc k) flags"
        using r(3) w map_range_Suc [OF al(1) kn(2)] by simp
      then have "?I i (?va + PAGE_SIZE, ?pa + PAGE_SIZE) v"
        using k gv rv by (intro exI [of _ "Suc k"]) (simp add: PAGE_SIZE_def algebra_simps)
      then show ?thesis using x ne r(1) False
        by (intro disjI1 exI [of _ "(?va + PAGE_SIZE, ?pa + PAGE_SIZE)"] exI [of _ v]) simp
    qed
  qed
  then show ?thesis using m by simp
qed

section \<open>Translation of addresses\<close>

text \<open>What the hardware makes of a virtual address: the physical address and the flags.\<close>

definition translate :: "memory \<Rightarrow> u32 \<Rightarrow> u32 \<Rightarrow> (u32 \<times> u32) option" where
  "translate m pt va = map_option (\<lambda>e. (PTE2PA e + (va AND 0xFFF), PTE_FLAGS e)) (walk m pt va)"

lemma flag_bits_OR: "flag_bits f \<Longrightarrow> flag_bits g \<Longrightarrow> flag_bits (f OR g)"
  by (simp add: flag_bits_def bit.conj_disj_distrib2)

lemma offset_take_bit: "(va AND 0xFFF :: u32) = take_bit 12 va"
  by (simp add: take_bit_eq_mask page_mask)

lemma page_plus_offset: "PGROUNDDOWN va + (va AND 0xFFF) = va"
  by (simp add: PGROUNDDOWN_minus offset_take_bit)

lemma translate_range:
  assumes "page_aligned va" "page_aligned pa" "flag_bits flags"
  shows "map_option (\<lambda>e. (PTE2PA e + (va' AND 0xFFF), PTE_FLAGS e)) (map_range w va pa k flags va') =
    (if in_block va (4096 * k) va' then Some (pa + (va' - va), flags OR PTE_V)
     else map_option (\<lambda>e. (PTE2PA e + (va' AND 0xFFF), PTE_FLAGS e)) (w va'))"
proof -
  have f: "flag_bits (flags OR PTE_V)" using assms(3) by (simp add: flag_bits_OR)
  have "page_aligned (pa + PGROUNDDOWN (va' - va))" using assms(2) by simp
  note mk = PTE2PA_make [OF this f]
  have "pa + PGROUNDDOWN (va' - va) + (va' AND 0xFFF) = pa + (va' - va)"
    using page_plus_offset [of va'] by (simp add: PGROUNDDOWN_diff [OF assms(1)] algebra_simps)
  then show ?thesis using mk by (simp add: map_range_def or.assoc)
qed

text \<open>Another well-formed page table does not notice.\<close>

lemma pt_grow_other:
  assumes g: "pt_grow s t pt" and wf: "pt_wf s pt'" and dj: "tables (mem s) pt \<inter> tables (mem s) pt' = {}"
  shows "walk (mem t) pt' = walk (mem s) pt'" "tables (mem t) pt' = tables (mem s) pt'" "pt_wf t pt'"
    "tables (mem t) pt \<inter> tables (mem t) pt' = {}"
proof -
  have "tables (mem t) pt \<inter> tables (mem s) pt' = {}"
    using g dj pt_wfD(4) [OF wf] unfolding pt_grow_def by blast
  moreover from this have same: "mem t x = mem s x" if "PGROUNDDOWN x \<in> tables (mem s) pt'" for x
    using that g unfolding pt_grow_def by blast
  note c = walk_cong [OF pt_wfD(2) [OF wf], of "mem s" "mem t", OF same]
  show "walk (mem t) pt' = walk (mem s) pt'" "tables (mem t) pt' = tables (mem s) pt'" using c(2,4) by blast+
  moreover have "heap_page t = heap_page s"
    using g noise_ready(3) [of "s\<lparr>mem := mem t, mem_bitmap := mem_bitmap t\<rparr>" t] by (simp add: pt_grow_def)
  ultimately show "pt_wf t pt'" "tables (mem t) pt \<inter> tables (mem t) pt' = {}"
    using wf g c(3) \<open>tables (mem t) pt \<inter> tables (mem s) pt' = {}\<close>
    unfolding pt_wf_def pt_grow_def by (auto simp del: not_None_eq)
qed

text \<open>Every page taken from the allocator is one more root index in use.\<close>

lemma card_tables:
  assumes "pt_tree m pt"
  shows "card (tables m pt) = Suc (card (roots m pt))"
proof -
  have "inj_on (\<lambda>i. PTE2PA (entry m pt i)) (roots m pt)"
    using pt_treeD(4) [OF assms] by (auto simp: inj_on_def roots_def)
  moreover have "pt \<notin> (\<lambda>i. PTE2PA (entry m pt i)) ` roots m pt"
    using pt_treeD(2) [OF assms, THEN not_sym] by (auto simp: roots_def)
  ultimately show ?thesis by (simp add: tables_roots card_image)
qed

lemma pt_grow_count:
  assumes g: "pt_grow s t pt" and wf: "pt_wf s pt"
  shows "card (free_pages t) + card (roots (mem t) pt) = card (free_pages s) + card (roots (mem s) pt)"
proof -
  have "tables (mem s) pt \<inter> (free_pages s - free_pages t) = {}" using pt_wfD(4) [OF wf] by blast
  moreover have "tables (mem t) pt = tables (mem s) pt \<union> (free_pages s - free_pages t)"
    and sub: "free_pages t \<subseteq> free_pages s" using g by (simp_all add: pt_grow_def)
  ultimately have "card (tables (mem t) pt) = card (tables (mem s) pt) + card (free_pages s - free_pages t)"
    by (simp add: card_Un_disjoint)
  moreover have "pt_tree (mem t) pt" "pt_tree (mem s) pt" using g wf by (auto simp: pt_grow_def pt_wf_def)
  moreover have "card (free_pages s - free_pages t) + card (free_pages t) = card (free_pages s)"
    using sub card_mono [OF _ sub] by (simp add: card_Diff_subset)
  ultimately show ?thesis by (simp add: card_tables)
qed

lemma enough_pages:
  assumes g: "pt_grow s t pt" and wf: "pt_wf s pt" and "roots (mem t) pt \<subseteq> roots (mem s) pt \<union> A"
    and "card A < card (free_pages s)"
  shows "free_pages t \<noteq> {}"
proof
  assume "free_pages t = {}"
  then have "card (roots (mem t) pt) = card (free_pages s) + card (roots (mem s) pt)"
    using pt_grow_count [OF g wf] by simp
  moreover have "card (roots (mem t) pt) \<le> card (roots (mem s) pt) + card A"
    using card_mono [OF _ assms(3)] card_Un_le [of "roots (mem s) pt" A] by simp
  ultimately show False using assms(4) by linarith
qed

text \<open>
  C20 (functional). \<open>mappages\<close> on a range that is unmapped so far, also one that ends at the top
  of the address space: it returns 0 with the whole range mapped linearly with the given
  flags, or -1 with a first part of it mapped and memory exhausted, which cannot happen when
  there are more free pages than the range needs second-level tables. No other translation of
  the page table changes, no byte outside its tables changes, and it stays well formed.
\<close>

theorem mappages_maps_range:
  assumes "mem_ready s" "pt_wf s pt" "page_aligned va" "page_aligned pa" "page_aligned sz" "sz \<noteq> 0" "flag_bits flags"
    and "\<forall>va'. in_block va (unat sz) va' \<longrightarrow> translate (mem s) pt va' = None"
  shows "\<exists>r t k. mappages pt va pa sz flags s = Ok r t \<and> mem_ready t \<and> pt_wf t pt \<and> 4096 * k \<le> unat sz
    \<and> r = (if 4096 * k = unat sz then 0 else -1) \<and> (r = -1 \<longrightarrow> free_pages t = {})
    \<and> (card (vpn1 ` {va'. in_block va (unat sz) va'}) < card (free_pages s) \<longrightarrow> r = 0)
    \<and> (\<forall>va'. translate (mem t) pt va' =
        (if in_block va (4096 * k) va' then Some (pa + (va' - va), flags OR PTE_V) else translate (mem s) pt va'))
    \<and> (\<forall>x. PGROUNDDOWN x \<notin> tables (mem t) pt \<longrightarrow> mem t x = mem s x)"
proof -
  obtain n where n: "sz = of_nat n * 4096" "unat sz = 4096 * n" "n < 1048576"
    using page_count [OF assms(5)] .
  have "n \<noteq> 0" using n(1) assms(6) by (cases n) auto
  moreover have "walk (mem s) pt va' = None" if "in_block va (4096 * n) va'" for va'
    using assms(8) that n(2) by (simp add: translate_def)
  ultimately obtain r t k where r: "mappages pt va pa sz flags s = Ok r t" "k \<le> n"
    "r = (if k = n then 0 else -1)" "pt_grow s t pt" "k < n \<longrightarrow> free_pages t = {}"
    "walk (mem t) pt = map_range (walk (mem s) pt) va pa k flags"
    "roots (mem t) pt \<subseteq> roots (mem s) pt \<union> vpn1 ` {va'. in_block va (4096 * n) va'}"
    using mappages_spec [OF assms(1-4) n(1,3)] by blast
  show ?thesis
    using r n(2) enough_pages [OF r(4) assms(2) r(7)] translate_range [OF assms(3,4,7)]
    by (intro exI [of _ r] exI [of _ t] exI [of _ k]) (auto simp: translate_def pt_grow_def)
qed

lemma fill_fresh_wf:
  assumes "mem_ready s" "heap_page s p" "p \<notin> free_pages s" "mem s = fill_block p 4096 0 m"
  shows "pt_wf s p" "walk (mem s) p = (\<lambda>_. None)" "roots (mem s) p = {}" "tables (mem s) p = {p}"
proof -
  have p: "page_aligned p" using heap_page_facts [OF assms(2,1)] by simp
  have e: "entry (mem s) p i = 0" if "unat i < 1024" for i using that p assms(4) by (simp add: mem_simps)
  then show r: "roots (mem s) p = {}" by (auto simp: roots_def)
  then show "tables (mem s) p = {p}" by (simp add: tables_roots)
  then show "pt_wf s p" using assms(2,3) p e by (auto simp: pt_wf_def pt_tree_def)
  show "walk (mem s) p = (\<lambda>_. None)" using e by (auto simp: walk_def fun_eq_iff)
qed

lemma mem_only [simp]: "mem_ready (s\<lparr>mem := m\<rparr>) = mem_ready s" "free_pages (s\<lparr>mem := m\<rparr>) = free_pages s"
  by (simp_all add: mem_ready_def alloc_wf_def free_pages_def)

lemma kalloc_page:
  assumes "mem_ready s" "free_pages s \<noteq> {}"
  obtains p t where "kalloc s = Ok p t" "p \<noteq> 0" "p \<in> free_pages s" "heap_page s p"
    "noise (s\<lparr>mem_bitmap := mem_bitmap t\<rparr>) t" "mem_ready t" "heap_page t = heap_page s"
    "free_pages t = free_pages s - {p}"
proof -
  let ?p = "Min (free_pages s)"
  obtain t where t: "kalloc s = Ok ?p t" "noise (s\<lparr>mem_bitmap := (mem_bitmap s)(page_no ?p := 0)\<rparr>) t"
    using kalloc_spec(1) [OF assms] by blast
  have p: "?p \<in> free_pages s" using assms(2) by (intro Min_in) auto
  then have h: "heap_page s ?p" "ram_page ?p" using free_pages_heap [OF assms(1)] by (auto simp: free_pages_def)
  have "mem_ready t" using alloc_wf_upd(1) [OF assms(1)] noise_ready(1) [OF t(2)] by simp
  moreover have "free_pages t = free_pages s - {?p}"
    using noise_ready(2) [OF t(2)] free_pages_upd(1) [OF h(2), of s] by simp
  moreover have "heap_page t = heap_page s" using noise_ready(3) [OF t(2)] by simp
  moreover have "noise (s\<lparr>mem_bitmap := mem_bitmap t\<rparr>) t"
    using t(2) noise_memst [OF t(2)] by simp
  ultimately show ?thesis using that t(1) p h(1) heap_page_facts [OF h(1) assms(1)] by blast
qed

lemma ptcreate_spec:
  assumes "mem_ready s"
  shows "free_pages s = {} \<Longrightarrow> \<exists>t. ptcreate s = Ok 0 t \<and> noise s t"
    and "free_pages s \<noteq> {} \<Longrightarrow> \<exists>pt t. ptcreate s = Ok pt t \<and> pt \<noteq> 0 \<and> pt \<in> free_pages s \<and> mem_ready t
      \<and> pt_wf t pt \<and> walk (mem t) pt = (\<lambda>_. None) \<and> tables (mem t) pt = {pt} \<and> roots (mem t) pt = {}
      \<and> free_pages t = free_pages s - {pt} \<and> mem t = fill_block pt 4096 0 (mem s)
      \<and> noise (s\<lparr>mem := mem t, mem_bitmap := mem_bitmap t\<rparr>) t"
proof -
  show "\<exists>t. ptcreate s = Ok 0 t \<and> noise s t" if "free_pages s = {}"
    using kalloc_spec(2) [OF assms that] by (auto simp: ptcreate_def)
  assume ne: "free_pages s \<noteq> {}"
  show "\<exists>pt t. ptcreate s = Ok pt t \<and> pt \<noteq> 0 \<and> pt \<in> free_pages s \<and> mem_ready t
      \<and> pt_wf t pt \<and> walk (mem t) pt = (\<lambda>_. None) \<and> tables (mem t) pt = {pt} \<and> roots (mem t) pt = {}
      \<and> free_pages t = free_pages s - {pt} \<and> mem t = fill_block pt 4096 0 (mem s)
      \<and> noise (s\<lparr>mem := mem t, mem_bitmap := mem_bitmap t\<rparr>) t"
  proof -
    obtain p t where t: "kalloc s = Ok p t" "p \<noteq> 0" "p \<in> free_pages s" "heap_page s p"
      "noise (s\<lparr>mem_bitmap := mem_bitmap t\<rparr>) t" "mem_ready t" "heap_page t = heap_page s"
      "free_pages t = free_pages s - {p}"
      using kalloc_page [OF assms ne] .
    let ?t = "t\<lparr>mem := fill_block p 4096 0 (mem s)\<rparr>"
    have "ptcreate s = Ok p ?t"
      using t(1,2) noise_fields(3) [OF t(5)] by (simp add: ptcreate_def memset_fill PAGE_SIZE_def)
    moreover have "noise (s\<lparr>mem := mem ?t, mem_bitmap := mem_bitmap ?t\<rparr>) ?t"
      using noise_upd_mem [OF t(5), of "mem ?t"] by simp
    ultimately show ?thesis
      using fill_fresh_wf [of ?t p "mem s"] t by (intro exI [of _ p] exI [of _ ?t]) simp
  qed
qed

text \<open>A page table created in the small system, for concrete runs.\<close>

lemma small_pt:
  obtains pt s where "ptcreate small_mem = Ok pt s" "mem_ready s" "pt_wf s pt" "walk (mem s) pt = (\<lambda>_. None)"
    "card (free_pages s) = 2" "pt \<in> {0x87FFD000, 0x87FFE000, 0x87FFF000}" "tables (mem s) pt = {pt}"
    "free_pages s = {0x87FFD000, 0x87FFE000, 0x87FFF000} - {pt}"
proof -
  obtain pt s where "ptcreate small_mem = Ok pt s" "pt \<in> free_pages small_mem" "mem_ready s" "pt_wf s pt"
    "walk (mem s) pt = (\<lambda>_. None)" "free_pages s = free_pages small_mem - {pt}" "tables (mem s) pt = {pt}"
    using ptcreate_spec(2) [OF small_mem_ready] by (auto simp: small_mem_free)
  then show ?thesis using that [of pt s] by (auto simp: small_mem_free)
qed

theorem mappages_maps_range_witness:
  "\<exists>pt s t. ptcreate small_mem = Ok pt s \<and> mappages pt 0xFFFFE000 0x80000000 0x2000 (PTE_R OR PTE_X) s = Ok 0 t
    \<and> translate (mem t) pt 0xFFFFF123 = Some (0x80001123, PTE_R OR PTE_X OR PTE_V)
    \<and> translate (mem t) pt 0x1000 = None"
proof -
  obtain pt s where s: "ptcreate small_mem = Ok pt s" "mem_ready s" "pt_wf s pt" "walk (mem s) pt = (\<lambda>_. None)"
    "card (free_pages s) = 2" "pt \<in> {0x87FFD000, 0x87FFE000, 0x87FFF000}" "tables (mem s) pt = {pt}"
    "free_pages s = {0x87FFD000, 0x87FFE000, 0x87FFF000} - {pt}"
    using small_pt .
  have im: "vpn1 ` {va'. in_block 0xFFFFE000 (unat (0x2000 :: u32)) va'} \<subseteq> {0x3FF}"
    by (auto simp: unat_eq_iff_u32 unat_vpn1 in_block_nowrap)
  have c: "card (vpn1 ` {va'. in_block 0xFFFFE000 (unat (0x2000 :: u32)) va'}) < card (free_pages s)"
    using card_mono [OF _ im] s(5) by simp
  have al: "page_aligned 0xFFFFE000" "page_aligned 0x80000000" "page_aligned 0x2000" "(0x2000 :: u32) \<noteq> 0"
    and f: "flag_bits (PTE_R OR PTE_X)"
    by (simp_all add: page_aligned_def flag_bits_def PTE_R_def PTE_X_def)
  have un: "\<forall>va'. in_block 0xFFFFE000 (unat (0x2000 :: u32)) va' \<longrightarrow> translate (mem s) pt va' = None"
    using s(4) by (simp add: translate_def)
  obtain t k where t: "mappages pt 0xFFFFE000 0x80000000 0x2000 (PTE_R OR PTE_X) s = Ok 0 t" "4096 * k = unat (0x2000 :: u32)"
    "\<forall>va'. translate (mem t) pt va' = (if in_block 0xFFFFE000 (4096 * k) va'
        then Some (0x80000000 + (va' - 0xFFFFE000), (PTE_R OR PTE_X) OR PTE_V) else translate (mem s) pt va')"
    using mappages_maps_range [OF s(2,3) al f un] c by (auto split: if_splits)
  have "k = 2" using t(2) by simp
  with t(3) have "translate (mem t) pt 0xFFFFF123 = Some (0x80001123, PTE_R OR PTE_X OR PTE_V)"
    "translate (mem t) pt 0x1000 = translate (mem s) pt 0x1000"
    by (simp_all add: in_block_nowrap or.assoc)
  moreover have "translate (mem s) pt 0x1000 = None" using s(4) by (simp add: translate_def)
  ultimately show ?thesis using s(1) t(1) by auto
qed

end
