(* ===== verification/Kernel_Map.thy ===== *)
theory Kernel_Map
  imports Paging
begin

text \<open>
  The kernel's own address space and the isolation of page tables from each other
  (\<^verbatim>\<open>kernel/vm.c\<close>: \<open>kptable_make\<close>, \<open>set_satp\<close>). Shown: mapping pages in one page table leaves
  every other one as it was, the kernel page table maps the device page, the kernel text
  (not writable) and the rest of RAM (not executable) one to one and nothing else, and what
  is written to \<^verbatim>\<open>satp\<close> makes the hardware use that table.
\<close>

section \<open>Isolation\<close>

text \<open>
  C21 (safety). Mapping pages in one page table does not disturb another: if their tables are
  disjoint before, the other one has the same translation afterwards, is still well formed, and
  the tables are still disjoint.
\<close>

theorem mappages_isolated:
  assumes "mem_ready s" "pt_wf s pt" "pt_wf s pt'" "tables (mem s) pt \<inter> tables (mem s) pt' = {}"
    and "page_aligned va" "page_aligned pa" "page_aligned sz" "sz \<noteq> 0"
    and "\<forall>va'. in_block va (unat sz) va' \<longrightarrow> translate (mem s) pt va' = None"
  shows "\<exists>r t. mappages pt va pa sz flags s = Ok r t \<and> translate (mem t) pt' = translate (mem s) pt'
    \<and> pt_wf t pt' \<and> tables (mem t) pt \<inter> tables (mem t) pt' = {}"
proof -
  obtain n where n: "sz = of_nat n * 4096" "unat sz = 4096 * n" "n < 1048576"
    using page_count [OF assms(7)] .
  have "n \<noteq> 0" using n(1) assms(8) by (cases n) auto
  moreover have "walk (mem s) pt va' = None" if "in_block va (4096 * n) va'" for va'
    using assms(9) that n(2) by (simp add: translate_def)
  ultimately obtain r t where "mappages pt va pa sz flags s = Ok r t" "pt_grow s t pt"
    using mappages_spec [OF assms(1,2,5,6) n(1,3)] by blast
  with pt_grow_other [OF _ assms(3,4)] show ?thesis
    by (intro exI [of _ r] exI [of _ t]) (simp add: translate_def fun_eq_iff)
qed

theorem mappages_isolated_witness:
  "\<exists>pt s pt' s' r t. ptcreate small_mem = Ok pt s \<and> ptcreate s = Ok pt' s'
    \<and> mappages pt 0x1000 0x80000000 0x1000 PTE_R s' = Ok r t \<and> translate (mem t) pt' = translate (mem s') pt'"
proof -
  obtain pt s where s: "ptcreate small_mem = Ok pt s" "mem_ready s" "pt_wf s pt" "walk (mem s) pt = (\<lambda>_. None)"
    "card (free_pages s) = 2" "pt \<in> {0x87FFD000, 0x87FFE000, 0x87FFF000}" "tables (mem s) pt = {pt}"
    "free_pages s = {0x87FFD000, 0x87FFE000, 0x87FFF000} - {pt}"
    using small_pt .
  then have "free_pages s \<noteq> {}" by auto
  then obtain pt' s' where s': "ptcreate s = Ok pt' s'" "pt' \<in> free_pages s" "mem_ready s'" "pt_wf s' pt'"
    "tables (mem s') pt' = {pt'}" "mem s' = fill_block pt' 4096 0 (mem s)"
    "free_pages s' = free_pages s - {pt'}" "noise (s\<lparr>mem := mem s', mem_bitmap := mem_bitmap s'\<rparr>) s'"
    using ptcreate_spec(2) [OF s(2)] by blast
  have ne: "pt \<noteq> pt'" using s(8) s'(2) by auto
  have same: "mem s' x = mem s x" if "PGROUNDDOWN x \<in> tables (mem s) pt" for x
    using that ne pt_wfD(2) [OF s'(4)] s(7) by (simp add: s'(6) fill_page)
  note c = walk_cong [OF pt_wfD(2) [OF s(3)], of "mem s" "mem s'", OF same]
  have "heap_page s' = heap_page s" using noise_ready(3) [OF s'(8)] by simp
  then have wf: "pt_wf s' pt" using s(3) c(2,3) s'(7) by (auto simp: pt_wf_def)
  have "tables (mem s') pt \<inter> tables (mem s') pt' = {}" using c(2) s(7) s'(5) ne by simp
  moreover have "\<forall>va'. in_block 0x1000 (unat (0x1000 :: u32)) va' \<longrightarrow> translate (mem s') pt va' = None"
    using c(4) s(4) by (simp add: translate_def)
  moreover have "page_aligned 0x1000" "page_aligned 0x80000000" by (simp_all add: page_aligned_def)
  ultimately have "\<exists>r t. mappages pt 0x1000 0x80000000 0x1000 PTE_R s' = Ok r t \<and> translate (mem t) pt' = translate (mem s') pt'"
    using mappages_isolated [OF s'(3) wf s'(4), of "0x1000" "0x80000000" "0x1000" PTE_R] by auto
  with s(1) s'(1) show ?thesis by blast
qed

section \<open>The root register\<close>

text \<open>
  C22 (roundtrip). After \<open>set_satp\<close> translation is on, the value is the one the macro
  \<open>MAKE_SATP\<close> describes, and the root page the hardware reads from the register is the page
  table given, for every page-aligned address.
\<close>

theorem set_satp_roundtrip:
  assumes "page_aligned pt"
  shows "paging_status (set_satp pt s) = 1 \<and> r_satp (set_satp pt s) = MAKE_SATP pt
    \<and> push_bit 12 (r_satp (set_satp pt s) AND 0x003FFFFF) = pt"
proof -
  have s: "r_satp (set_satp pt s) = 0x80000000 OR (drop_bit 12 pt AND 0x003FFFFF)"
    by (simp add: set_satp_def r_satp_def w_satp_def csrr_def csrw_def)
  have m: "(0x003FFFFF :: u32) = mask 22" by (simp add: mask_eq_exp_minus_1)
  have h: "(0x80000000 :: u32) = push_bit 31 1" by simp
  have "drop_bit 31 (0x80000000 OR (drop_bit 12 pt AND mask 22) :: u32) AND 1 = 1"
    unfolding h by (rule bit_word_eqI) (auto simp: bit_simps)
  then have "paging_status (set_satp pt s) = 1" using s m by (simp add: paging_status_def)
  moreover have "push_bit 12 (r_satp (set_satp pt s) AND 0x003FFFFF) = pt"
  proof -
    have d: "drop_bit 12 pt AND mask 22 = drop_bit 12 pt"
      by (rule bit_word_eqI) (auto simp: bit_simps dest: bit_imp_le_length)
    have "(0x80000000 :: u32) AND mask 22 = 0" by (simp add: mask_eq_exp_minus_1)
    then have "r_satp (set_satp pt s) AND 0x003FFFFF = drop_bit 12 pt"
      unfolding s m d by (simp only: bit.conj_disj_distrib2 d or.left_neutral)
    moreover have "push_bit 12 (drop_bit 12 pt) = pt"
      using PGROUNDDOWN_aligned [OF assms] by (simp only: PGROUNDDOWN_def page_mask clear_low12)
    ultimately show ?thesis by (simp only:)
  qed
  ultimately show ?thesis using s by (simp add: MAKE_SATP_def)
qed

theorem set_satp_roundtrip_witness:
  "push_bit 12 (r_satp (set_satp 0x87FFD000 small_mem) AND 0x003FFFFF) = 0x87FFD000"
proof -
  have "page_aligned 0x87FFD000" by (simp add: page_aligned_def)
  from set_satp_roundtrip [OF this, of small_mem] show ?thesis by (elim conjE)
qed

section \<open>The kernel page table\<close>

text \<open>The mapping the kernel runs under.\<close>

definition kernel_map :: "u32 \<Rightarrow> u32 \<Rightarrow> (u32 \<times> u32) option" where
  "kernel_map etext va =
     (if UART_0 \<le> va \<and> va < UART_0 + PAGE_SIZE then Some (va, PTE_R OR PTE_W OR PTE_V)
      else if KERNBASE \<le> va \<and> va < PGROUNDUP etext then Some (va, PTE_R OR PTE_X OR PTE_V)
      else if PGROUNDUP etext \<le> va \<and> va < MEM_END then Some (va, PTE_R OR PTE_W OR PTE_V)
      else None)"

lemma kptable_make_ptcreate:
  "kptable_make e s = kbind (ptcreate s) (\<lambda>kpt s. if kpt = 0 then Undef s else
     kbind (mappages kpt UART_0 UART_0 PAGE_SIZE (PTE_R OR PTE_W) s) (\<lambda>_ s.
     kbind (mappages kpt KERNBASE KERNBASE (PGROUNDUP e - KERNBASE) (PTE_R OR PTE_X) s) (\<lambda>_ s.
     kbind (mappages kpt (PGROUNDUP e) (PGROUNDUP e) (MEM_END - PGROUNDUP e) (PTE_R OR PTE_W) s) (\<lambda>_ s. Ok kpt s))))"
  by (cases "kalloc s") (auto simp: kptable_make_def ptcreate_def memset_fill PAGE_SIZE_def Let_def)

lemma vpn1_image:
  assumes "unat va + k \<le> 4294967296"
  shows "vpn1 ` {va'. in_block va k va'} \<subseteq> of_nat ` {unat va div 4194304..<(unat va + k + 4194303) div 4194304}"
proof
  fix i
  assume "i \<in> vpn1 ` {va'. in_block va k va'}"
  then obtain va' where va': "i = vpn1 va'" "unat va \<le> unat va'" "unat va' < unat va + k"
    using assms by (auto simp: in_block_nowrap)
  have "of_nat (unat i) = i" by simp
  moreover have "unat va div 4194304 \<le> unat i"
    using va' div_le_mono [of "unat va" "unat va'" 4194304] by (simp add: unat_vpn1)
  moreover have "unat i < (unat va + k + 4194303) div 4194304"
    using va' by (simp add: unat_vpn1 less_eq_Suc_le less_eq_div_iff_mult_less_eq div_less_iff_less_mult)
  ultimately show "i \<in> of_nat ` {unat va div 4194304..<(unat va + k + 4194303) div 4194304}"
    by (metis atLeastLessThan_iff image_eqI)
qed

text \<open>The three ranges, in bytes.\<close>

lemma etext_range:
  assumes "MEM_START < e" "e \<le> MEM_END - PAGE_SIZE"
  obtains n where "unat (PGROUNDUP e) = 0x80000000 + 4096 * n" "0 < n" "n < 32768"
proof -
  have e: "0x80000000 < unat e" "unat e \<le> 0x87FFF000"
    using assms by (simp_all add: MEM_START_def MEM_END_def PAGE_SIZE_def word_less_nat_alt word_le_nat_alt)
  let ?n = "(unat e + 4095) div 4096 - 524288"
  have "unat (PGROUNDUP e) = 0x80000000 + 4096 * ?n" "0 < ?n" "?n < 32768"
    using e by (simp_all add: unat_PGROUNDUP)
  then show ?thesis using that by blast
qed

text \<open>
  One more range mapped one to one, when the pages left since \<open>s0\<close> suffice for all root indices
  in \<open>A\<close>.
\<close>

lemma map_identity:
  assumes s0: "pt_wf s0 pt" "card A < card (free_pages s0)" and g: "pt_grow s0 s pt"
    and A: "roots (mem s0) pt = {}" "roots (mem s) pt \<subseteq> A" "vpn1 ` {va'. in_block va (4096 * n) va'} \<subseteq> A"
    and va: "page_aligned va" "unat sz = 4096 * n" "n \<noteq> 0"
    and un: "\<And>va'. in_block va (4096 * n) va' \<Longrightarrow> walk (mem s) pt va' = None"
  shows "\<exists>r t. mappages pt va va sz flags s = Ok r t \<and> pt_grow s0 t pt \<and> roots (mem t) pt \<subseteq> A
    \<and> walk (mem t) pt = map_range (walk (mem s) pt) va va n flags"
proof -
  have n: "n < 1048576" using va(2) unat_u32_lt [of sz] by linarith
  then have sz: "sz = of_nat n * 4096" using va(2) by (simp add: unat_eq_iff_u32 unat_pages)
  have rd: "mem_ready s" "pt_wf s pt" using g by (simp_all add: pt_grow_def)
  obtain r t k where t: "mappages pt va va sz flags s = Ok r t" "k \<le> n" "pt_grow s t pt"
    "k < n \<longrightarrow> free_pages t = {}" "walk (mem t) pt = map_range (walk (mem s) pt) va va k flags"
    "roots (mem t) pt \<subseteq> roots (mem s) pt \<union> vpn1 ` {va'. in_block va (4096 * n) va'}"
    using mappages_spec [OF rd va(1,1) sz n va(3) un] by blast
  have r: "roots (mem t) pt \<subseteq> A" using t(6) A by blast
  have g': "pt_grow s0 t pt" using pt_grow_trans [OF g t(3)] .
  have "free_pages t \<noteq> {}" by (rule enough_pages [OF g' s0(1) _ s0(2)]) (use r in blast)
  then have "k = n" using t(2,4) by auto
  then show ?thesis using t(1,5) r g' by blast
qed

lemma kernel_roots:
  defines "A \<equiv> of_nat ` {64..<65} \<union> of_nat ` {512..<544} :: u32 set"
  shows "card A \<le> 33"
    and "vpn1 ` {va'. in_block UART_0 4096 va'} \<subseteq> A"
    and "unat va + k \<le> 0x88000000 \<Longrightarrow> 0x80000000 \<le> unat va \<Longrightarrow> vpn1 ` {va'. in_block va k va'} \<subseteq> A"
proof -
  have "card (of_nat ` {64..<65} :: u32 set) \<le> 1" "card (of_nat ` {512..<544} :: u32 set) \<le> 32"
    using card_image_le [of "{64..<65}" "of_nat :: nat \<Rightarrow> u32"] card_image_le [of "{512..<544}" "of_nat :: nat \<Rightarrow> u32"]
    by simp_all
  then show "card A \<le> 33"
    unfolding A_def using card_Un_le [of "of_nat ` {64..<65} :: u32 set" "of_nat ` {512..<544}"] by linarith
  have "vpn1 ` {va'. in_block UART_0 4096 va'} \<subseteq> of_nat ` {64..<65}"
    using vpn1_image [of UART_0 4096] by (simp add: UART_0_def)
  then show "vpn1 ` {va'. in_block UART_0 4096 va'} \<subseteq> A" by (auto simp: A_def)
  assume b: "unat va + k \<le> 0x88000000" "0x80000000 \<le> unat va"
  then have "vpn1 ` {va'. in_block va k va'} \<subseteq> of_nat ` {unat va div 4194304..<(unat va + k + 4194303) div 4194304}"
    by (intro vpn1_image) simp
  also have "512 \<le> unat va div 4194304" using b(2) by (simp add: less_eq_div_iff_mult_less_eq)
  then have "{unat va div 4194304..<(unat va + k + 4194303) div 4194304} \<subseteq> {512..<544}"
    using b(1) by (auto simp: div_less_iff_less_mult less_le_trans)
  then have "(of_nat :: nat \<Rightarrow> u32) ` {unat va div 4194304..<(unat va + k + 4194303) div 4194304} \<subseteq> A"
    by (auto simp: A_def)
  finally show "vpn1 ` {va'. in_block va k va'} \<subseteq> A" .
qed

text \<open>
  C23 (functional). With at least 35 free pages at boot, \<open>kptable_make\<close> builds a well-formed
  page table whose translation is exactly the intended one: the UART page and the RAM above the
  kernel text readable and writable, the kernel text readable and executable, all one to one,
  and nothing else mapped.
\<close>

theorem kptable_make_maps_kernel:
  assumes "mem_ready s" "MEM_START < e" "e \<le> MEM_END - PAGE_SIZE" "34 < card (free_pages s)"
  shows "\<exists>kpt t. kptable_make e s = Ok kpt t \<and> mem_ready t \<and> pt_wf t kpt \<and> translate (mem t) kpt = kernel_map e"
proof -
  let ?A = "of_nat ` {64..<65} \<union> of_nat ` {512..<544} :: u32 set"
  obtain n where n: "unat (PGROUNDUP e) = 0x80000000 + 4096 * n" "0 < n" "n < 32768"
    using etext_range [OF assms(2,3)] .
  let ?E = "PGROUNDUP e"
  have al: "page_aligned UART_0" "page_aligned KERNBASE" "page_aligned ?E"
    by (simp_all add: page_aligned_def UART_0_def KERNBASE_def n(1))
  have fl: "flag_bits (PTE_R OR PTE_W)" "flag_bits (PTE_R OR PTE_X)"
    by (simp_all add: flag_bits_def PTE_R_def PTE_W_def PTE_X_def)
  have sz: "unat PAGE_SIZE = 4096 * 1" "unat (?E - KERNBASE) = 4096 * n" "unat (MEM_END - ?E) = 4096 * (32768 - n)"
    using n by (simp_all add: PAGE_SIZE_def KERNBASE_def MEM_END_def unat_sub word_le_nat_alt)
  have blk: "in_block UART_0 (4096 * 1) va \<longleftrightarrow> 0x10000000 \<le> unat va \<and> unat va < 0x10001000"
    "in_block KERNBASE (4096 * n) va \<longleftrightarrow> 0x80000000 \<le> unat va \<and> unat va < 0x80000000 + 4096 * n"
    "in_block ?E (4096 * (32768 - n)) va \<longleftrightarrow> 0x80000000 + 4096 * n \<le> unat va \<and> unat va < 0x88000000" for va
    using n by (auto simp: in_block_nowrap UART_0_def KERNBASE_def)
  have "free_pages s \<noteq> {}" using assms(4) by auto
  then obtain kpt s0 where s0: "ptcreate s = Ok kpt s0" "kpt \<noteq> 0" "kpt \<in> free_pages s" "mem_ready s0" "pt_wf s0 kpt"
    "walk (mem s0) kpt = (\<lambda>_. None)" "roots (mem s0) kpt = {}" "free_pages s0 = free_pages s - {kpt}"
    using ptcreate_spec(2) [OF assms(1)] by blast
  have c0: "card ?A < card (free_pages s0)" using s0(3,8) assms(4) kernel_roots(1) by simp
  note g0 = pt_grow_noise [OF noise_refl s0(4,5)]
  note step = map_identity [OF s0(5) c0 _ s0(7)]
  have i1: "roots (mem s0) kpt \<subseteq> ?A" "vpn1 ` {va'. in_block UART_0 (4096 * 1) va'} \<subseteq> ?A"
    unfolding mult_1_right s0(7) using kernel_roots(2) by blast+
  have "walk (mem s0) kpt va = None" for va by (simp add: s0(6))
  then obtain r1 t1 where t1: "mappages kpt UART_0 UART_0 PAGE_SIZE (PTE_R OR PTE_W) s0 = Ok r1 t1" "pt_grow s0 t1 kpt"
    "roots (mem t1) kpt \<subseteq> ?A" and w1: "walk (mem t1) kpt = map_range (\<lambda>_. None) UART_0 UART_0 1 (PTE_R OR PTE_W)"
    using step [OF g0 i1 al(1) sz(1) one_neq_zero] unfolding s0(6) by blast
  have i2: "vpn1 ` {va'. in_block KERNBASE (4096 * n) va'} \<subseteq> ?A"
    using n(3) by (intro kernel_roots(3)) (simp_all add: KERNBASE_def)
  have "walk (mem t1) kpt va = None" if "in_block KERNBASE (4096 * n) va" for va
    using that by (simp add: w1 map_range_def blk blk(1) [unfolded mult_1_right])
  then obtain r2 t2 where t2: "mappages kpt KERNBASE KERNBASE (?E - KERNBASE) (PTE_R OR PTE_X) t1 = Ok r2 t2"
    "pt_grow s0 t2 kpt" "roots (mem t2) kpt \<subseteq> ?A"
    and w2: "walk (mem t2) kpt = map_range (walk (mem t1) kpt) KERNBASE KERNBASE n (PTE_R OR PTE_X)"
    using step [OF t1(2,3) i2 al(2) sz(2), of "PTE_R OR PTE_X"] n(2) by blast
  have i3: "vpn1 ` {va'. in_block ?E (4096 * (32768 - n)) va'} \<subseteq> ?A"
    using n by (intro kernel_roots(3)) simp_all
  have "walk (mem t2) kpt va = None" if "in_block ?E (4096 * (32768 - n)) va" for va
    using that by (simp add: w1 w2 map_range_def blk blk(1) [unfolded mult_1_right])
  moreover have "32768 - n \<noteq> 0" using n(3) by simp
  ultimately obtain r3 t3 where t3: "mappages kpt ?E ?E (MEM_END - ?E) (PTE_R OR PTE_W) t2 = Ok r3 t3" "pt_grow s0 t3 kpt"
    and w3: "walk (mem t3) kpt = map_range (walk (mem t2) kpt) ?E ?E (32768 - n) (PTE_R OR PTE_W)"
    using step [OF t2(2,3) i3 al(3) sz(3), of "PTE_R OR PTE_W"] by blast
  have "translate (mem t3) kpt va = kernel_map e va" for va
    unfolding translate_def w3 w2 w1 translate_range [OF al(3,3) fl(1)] translate_range [OF al(2,2) fl(2)]
      translate_range [OF al(1,1) fl(1)] blk
    using n by (auto simp: kernel_map_def UART_0_def KERNBASE_def PAGE_SIZE_def MEM_END_def word_le_nat_alt
        word_less_nat_alt or.assoc)
  moreover have "kptable_make e s = Ok kpt t3"
    using s0(1,2) t1(1) t2(1) t3(1) by (simp add: kptable_make_ptcreate)
  ultimately show ?thesis using t3(2) by (intro exI [of _ kpt] exI [of _ t3]) (simp add: pt_grow_def fun_eq_iff)
qed

text \<open>A larger system for concrete runs: everything above the first 16 pages of RAM is free.\<close>

definition large_mem :: memst where
  "large_mem = small_mem\<lparr>mem_bitmap := (\<lambda>i. if 16 \<le> i \<and> i < NUM_PAGES then 1 else 0), start_page := 0x80010000\<rparr>"

lemma large_mem_ready: "mem_ready large_mem"
proof -
  have "alloc_wf large_mem"
    by (auto simp: large_mem_def alloc_wf_def page_aligned_def MEM_START_def MEM_END_def word_le_nat_alt
        unat_page_addr split: if_splits)
  moreover have "kctx large_mem" "lk_free Mem_lock large_mem"
    using small_mem_ready
    by (simp_all add: large_mem_def mem_ready_def kctx_def lk_free_def uart_live_def intr_ok_def is_interrupt_def hart_defs)
  ultimately show ?thesis by (simp add: mem_ready_def)
qed

lemma large_mem_free: "card (free_pages large_mem) = 32752"
proof -
  have "{i. i < NUM_PAGES \<and> mem_bitmap large_mem i \<noteq> 0} = {16..<NUM_PAGES}"
    by (auto simp: large_mem_def)
  then have "free_pages large_mem = page_addr ` {16..<NUM_PAGES}"
    by (simp add: free_pages_image)
  moreover have "inj_on page_addr {16..<NUM_PAGES}" by (auto simp: inj_on_def page_addr_inj)
  ultimately show ?thesis by (simp add: card_image page_arith)
qed

theorem kptable_make_maps_kernel_witness:
  "\<exists>kpt t. kptable_make 0x80008123 large_mem = Ok kpt t
    \<and> translate (mem t) kpt 0x80008FFF = Some (0x80008FFF, PTE_R OR PTE_X OR PTE_V)
    \<and> translate (mem t) kpt 0x80009000 = Some (0x80009000, PTE_R OR PTE_W OR PTE_V)
    \<and> translate (mem t) kpt 0x88000000 = None"
proof -
  have "PGROUNDUP 0x80008123 = 0x80009000" by (simp add: PGROUNDUP_def PAGE_SIZE_def)
  moreover obtain kpt t where "kptable_make 0x80008123 large_mem = Ok kpt t" "translate (mem t) kpt = kernel_map 0x80008123"
    using kptable_make_maps_kernel [OF large_mem_ready, of "0x80008123"]
    by (auto simp: large_mem_free MEM_START_def MEM_END_def PAGE_SIZE_def)
  ultimately show ?thesis
    by (intro exI [of _ kpt] exI [of _ t]) (simp add: kernel_map_def UART_0_def KERNBASE_def PAGE_SIZE_def MEM_END_def)
qed

end
