(* ===== verification/User_Copy.thy ===== *)
theory User_Copy
  imports Paging
begin

text \<open>
  Access to user memory from the kernel (\<^verbatim>\<open>kernel/vm.c\<close>: \<open>find_user_pa\<close>, \<open>find_pa\<close>, \<open>copyin\<close>,
  \<open>copyout\<close>, \<open>copyinstr\<close>; \<^verbatim>\<open>kernel/exec.c\<close>: \<open>load_segment\<close>). The specification of user memory
  is \<open>user_addr\<close>: where a user address with given rights lies in physical memory. Shown: the
  copies move exactly the bytes of the range, page by page, succeed exactly when every byte of
  the range is accessible with the right asked for, and write nowhere else.
\<close>

section \<open>Operations\<close>

definition find_user_pa :: "u32 \<Rightarrow> u32 \<Rightarrow> u32 \<Rightarrow> 'a memst_scheme \<Rightarrow> (u32, 'a memst_scheme) res" where
  "find_user_pa pt va need s =
     kbind (find_pte pt va False s) (\<lambda>pte s.
       if pte = 0 then Ok 0 s
       else if load32 (mem s) pte AND (PTE_V OR PTE_U OR need) \<noteq> (PTE_V OR PTE_U OR need) then Ok 0 s
       else Ok (PTE2PA (load32 (mem s) pte) + (va AND 0xFFF)) s)"

definition find_pa :: "u32 \<Rightarrow> u32 \<Rightarrow> 'a memst_scheme \<Rightarrow> (u32, 'a memst_scheme) res" where
  "find_pa pt va s = find_user_pa pt va 0 s"

text \<open>One iteration of each copy loop, then the function. The loop variables are passed on.\<close>

fun copyin_body :: "u32 \<Rightarrow> u32 \<times> u32 \<times> u32 \<Rightarrow> 'a memst_scheme \<Rightarrow> (u32 \<times> u32 \<times> u32 + int, 'a memst_scheme) res" where
  "copyin_body pt (dst, src_va, len) s =
     (if len > 0
      then kbind (find_user_pa pt src_va PTE_R s) (\<lambda>src_pa s.
        if src_pa = 0 then Ok (Inr (-1)) s
        else let offset = src_pa mod PAGE_SIZE;
                 n = PAGE_SIZE - offset;
                 n = (if n > len then len else n)
             in kbind (memmove dst src_pa n s) (\<lambda>_ s. Ok (Inl (dst + n, src_va + n, len - n)) s))
      else Ok (Inr 0) s)"

definition copyin :: "u32 \<Rightarrow> u32 \<Rightarrow> u32 \<Rightarrow> u32 \<Rightarrow> 'a memst_scheme \<Rightarrow> (int, 'a memst_scheme) res" where
  "copyin pt dst src_va len s = kloop (copyin_body pt) (dst, src_va, len) s"

fun copyout_body :: "u32 \<Rightarrow> u32 \<times> u32 \<times> u32 \<Rightarrow> 'a memst_scheme \<Rightarrow> (u32 \<times> u32 \<times> u32 + int, 'a memst_scheme) res" where
  "copyout_body pt (dst_va, src, len) s =
     (if len > 0
      then kbind (find_user_pa pt dst_va PTE_W s) (\<lambda>dst_pa s.
        if dst_pa = 0 then Ok (Inr (-1)) s
        else let offset = dst_pa mod PAGE_SIZE;
                 n = PAGE_SIZE - offset;
                 n = (if n > len then len else n)
             in kbind (memmove dst_pa src n s) (\<lambda>_ s. Ok (Inl (dst_va + n, src + n, len - n)) s))
      else Ok (Inr 0) s)"

definition copyout :: "u32 \<Rightarrow> u32 \<Rightarrow> u32 \<Rightarrow> u32 \<Rightarrow> 'a memst_scheme \<Rightarrow> (int, 'a memst_scheme) res" where
  "copyout pt dst_va src len s = kloop (copyout_body pt) (dst_va, src, len) s"

fun load_segment_body :: "u32 \<Rightarrow> u32 \<times> u32 \<times> u32 \<Rightarrow> 'a memst_scheme \<Rightarrow> (u32 \<times> u32 \<times> u32 + int, 'a memst_scheme) res" where
  "load_segment_body pt (va, img, sz) s =
     (if sz > 0
      then kbind (find_pa pt va s) (\<lambda>pa s.
        if pa = 0 then Ok (Inr (-1)) s
        else let pgoff = pa mod PAGE_SIZE;
                 n = PAGE_SIZE - pgoff;
                 n = (if n > sz then sz else n)
             in kbind (memmove pa img n s) (\<lambda>_ s. Ok (Inl (va + n, img + n, sz - n)) s))
      else Ok (Inr 0) s)"

definition load_segment :: "u32 \<Rightarrow> u32 \<Rightarrow> u32 \<Rightarrow> u32 \<Rightarrow> u32 \<Rightarrow> 'a memst_scheme \<Rightarrow> (int, 'a memst_scheme) res" where
  "load_segment pt va img offset sz s = kloop (load_segment_body pt) (va, img + offset, sz) s"

text \<open>
  The inner loop of \<open>copyinstr\<close>: at most \<open>n\<close> bytes of one page. It gives back whether it met the
  NUL, and the advanced \<open>dst\<close> and remaining \<open>maxn\<close>.
\<close>

fun copystr_page :: "nat \<Rightarrow> u32 \<Rightarrow> u32 \<Rightarrow> u32 \<Rightarrow> memory \<Rightarrow> (bool \<times> u32 \<times> u32) \<times> memory" where
  "copystr_page 0 p dst maxn m = ((False, dst, maxn), m)"
| "copystr_page (Suc n) p dst maxn m =
     (if m p = 0 then ((True, dst, maxn), m(dst := 0))
      else copystr_page n (p + 1) (dst + 1) (maxn - 1) (m(dst := m p)))"

fun copyinstr_body :: "u32 \<Rightarrow> bool \<times> u32 \<times> u32 \<times> u32 \<Rightarrow> 'a memst_scheme \<Rightarrow>
    (bool \<times> u32 \<times> u32 \<times> u32 + int, 'a memst_scheme) res" where
  "copyinstr_body pt (null, dst, src_va, maxn) s =
     (if \<not> null \<and> maxn > 0
      then kbind (find_user_pa pt src_va PTE_R s) (\<lambda>src_pa s.
        if src_pa = 0 then Ok (Inr (-1)) s
        else let offset = src_pa mod PAGE_SIZE;
                 n = PAGE_SIZE - offset;
                 n = (if n > maxn then maxn else n);
                 src_va = src_va + n;
                 ((null, dst, maxn), m) = copystr_page (unat n) src_pa dst maxn (mem s)
             in Ok (Inl (null, dst, src_va, maxn)) (s\<lparr>mem := m\<rparr>))
      else Ok (Inr (if null then 0 else -1)) s)"

definition copyinstr :: "u32 \<Rightarrow> u32 \<Rightarrow> u32 \<Rightarrow> u32 \<Rightarrow> 'a memst_scheme \<Rightarrow> (int, 'a memst_scheme) res" where
  "copyinstr pt dst src_va maxn s = kloop (copyinstr_body pt) (False, dst, src_va, maxn) s"

section \<open>Specification: where user memory is\<close>

text \<open>The frame behind a user address, if its page is valid, user accessible and has the rights \<open>need\<close>.\<close>

definition rights :: "u32 \<Rightarrow> u32" where
  "rights need = PTE_V OR PTE_U OR need"

definition user_frame :: "memory \<Rightarrow> u32 \<Rightarrow> u32 \<Rightarrow> u32 \<Rightarrow> u32 option" where
  "user_frame m pt need va =
     (case walk m pt va of
        None \<Rightarrow> None
      | Some e \<Rightarrow> if e AND rights need = rights need then Some (PTE2PA e) else None)"

definition user_addr :: "memory \<Rightarrow> u32 \<Rightarrow> u32 \<Rightarrow> u32 \<Rightarrow> u32 option" where
  "user_addr m pt need va = map_option (\<lambda>f. f + (va AND 0xFFF)) (user_frame m pt need va)"

text \<open>
  A user address space: its user pages are allocated frames of their own, apart from the
  tables, and no two pages share a frame.
\<close>

definition user_wf :: "'a memst_scheme \<Rightarrow> u32 \<Rightarrow> bool" where
  "user_wf s pt \<longleftrightarrow> pt_wf s pt
     \<and> (\<forall>va f. user_frame (mem s) pt 0 va = Some f \<longrightarrow>
          heap_page s f \<and> f \<notin> free_pages s \<and> f \<notin> tables (mem s) pt)
     \<and> (\<forall>va va' f. user_frame (mem s) pt 0 va = Some f \<and> user_frame (mem s) pt 0 va' = Some f \<longrightarrow>
          PGROUNDDOWN va = PGROUNDDOWN va')"

lemma and_weaken: "(e :: u32) AND (a OR b) = a OR b \<Longrightarrow> e AND a = a"
proof -
  assume "e AND (a OR b) = a OR b"
  then have "(e AND (a OR b)) AND a = (a OR b) AND a" by simp
  then show ?thesis by (simp add: and.assoc bit.conj_disj_distrib2 or.commute)
qed

lemma user_frame_weaken: "user_frame m pt need va = Some f \<Longrightarrow> user_frame m pt 0 va = Some f"
  using and_weaken [of _ "PTE_V OR PTE_U" need]
  by (auto simp: user_frame_def rights_def or.assoc split: option.splits if_splits)

lemma user_frame_page: "PGROUNDDOWN va = PGROUNDDOWN va' \<Longrightarrow> user_frame m pt need va = user_frame m pt need va'"
  using vpn_eq_iff [of va va'] by (simp add: user_frame_def walk_def Let_def)

lemma user_frame_cong: "walk m' pt = walk m pt \<Longrightarrow> user_frame m' pt = user_frame m pt"
  by (simp add: user_frame_def fun_eq_iff)

lemma user_wfD:
  assumes "user_wf s pt" "user_frame (mem s) pt need va = Some f"
  shows "heap_page s f" "f \<notin> free_pages s" "f \<notin> tables (mem s) pt"
    and "user_frame (mem s) pt need' va' = Some f \<Longrightarrow> PGROUNDDOWN va' = PGROUNDDOWN va"
  using assms user_frame_weaken unfolding user_wf_def by blast+

text \<open>\<open>find_user_pa\<close> finds the address, with 0 for none.\<close>

lemma valid_rights: "e AND rights need = rights need \<Longrightarrow> valid e"
proof -
  assume "e AND rights need = rights need"
  then have "e AND PTE_V = PTE_V" unfolding rights_def by (rule and_weaken)
  then show ?thesis by (simp add: valid_def PTE_V_def)
qed

lemma find_user_pa_eq:
  assumes "mem_ready s" "pt_wf s pt"
  shows "find_user_pa pt va need s = Ok (case user_addr (mem s) pt need va of None \<Rightarrow> 0 | Some a \<Rightarrow> a) s"
proof (cases "valid (entry (mem s) pt (vpn1 va))")
  case True
  then show ?thesis
    using leaf_nonzero [OF assms True] valid_rights
    by (auto simp: find_user_pa_def find_pte_valid user_addr_def user_frame_def walk_leaf rights_def)
next
  case False
  then show ?thesis
    by (simp add: find_user_pa_def find_pte_invalid user_addr_def user_frame_def walk_invalid)
qed

lemma user_addr_nonzero:
  assumes "mem_ready s" "user_wf s pt" "user_addr (mem s) pt need va = Some a"
  shows "a \<noteq> 0" "PGROUNDDOWN a \<notin> tables (mem s) pt"
    "user_frame (mem s) pt need va = Some (PGROUNDDOWN a)" "a AND 0xFFF = va AND 0xFFF"
proof -
  obtain f where f: "user_frame (mem s) pt need va = Some f" "a = f + (va AND 0xFFF)"
    using assms(3) by (auto simp: user_addr_def)
  have al: "page_aligned f" "f \<noteq> 0"
    using heap_page_facts [OF user_wfD(1) [OF assms(2) f(1)] assms(1)] by auto
  have z: "PGROUNDDOWN (va AND 0xFFF) = 0"
    by (simp add: PGROUNDDOWN_minus offset_take_bit)
  have a: "PGROUNDDOWN a = f" using PGROUNDDOWN_add [OF al(1), of "va AND 0xFFF"] z f(2) by (simp add: add.commute)
  then show "a \<noteq> 0" using al(2) by (auto simp: PGROUNDDOWN_def)
  show "PGROUNDDOWN a \<notin> tables (mem s) pt" using user_wfD(3) [OF assms(2) f(1)] a by simp
  show "user_frame (mem s) pt need va = Some (PGROUNDDOWN a)" using f(1) a by simp
  show "a AND 0xFFF = va AND 0xFFF"
    using f(2) take_bit_add_aligned [OF al(1), of "va AND 0xFFF"] by (simp add: offset_take_bit add.commute)
qed

section \<open>Page-wise copying\<close>

text \<open>Inside a page the physical address runs along with the user address.\<close>

lemma unat_offset: "unat (va AND 0xFFF :: u32) = unat va mod 4096"
  using unat_low12 [of va] by (simp add: page_mask)

lemma offset_eq: "(x AND 0xFFF :: u32) = x - PGROUNDDOWN x"
  by (simp add: PGROUNDDOWN_minus offset_take_bit)

lemma same_page_add:
  assumes "unat (va AND 0xFFF) + i < 4096"
  shows "PGROUNDDOWN (va + of_nat i) = PGROUNDDOWN va" "(va + of_nat i) AND 0xFFF = (va AND 0xFFF) + of_nat i"
proof -
  let ?o = "va AND 0xFFF"
  have u: "unat (?o + of_nat i) = unat ?o + i"
    using assms unat_add_lt [of ?o "of_nat i"] by simp
  have z: "PGROUNDDOWN (?o + of_nat i) = 0"
    using assms u by (simp add: unat_eq_iff_u32 [of "PGROUNDDOWN _"] page_arith)
  have e: "va + of_nat i = (?o + of_nat i) + PGROUNDDOWN va"
    unfolding offset_eq by simp
  show p: "PGROUNDDOWN (va + of_nat i) = PGROUNDDOWN va"
    by (subst e) (simp add: PGROUNDDOWN_add z)
  show "(va + of_nat i) AND 0xFFF = ?o + of_nat i"
    unfolding offset_eq p by simp
qed

lemma user_addr_run:
  assumes "user_addr m pt need va = Some pa" "unat (va AND 0xFFF) + i < 4096"
  shows "user_addr m pt need (va + of_nat i) = Some (pa + of_nat i)"
  using assms(1) same_page_add [OF assms(2)] user_frame_page [OF same_page_add(1) [OF assms(2)], of m pt need]
  by (auto simp: user_addr_def add.assoc)

text \<open>Writing outside the tables of a page table does not change the address space.\<close>

lemma user_wf_upd:
  assumes "pt_wf s pt" "\<And>x. PGROUNDDOWN x \<in> tables (mem s) pt \<Longrightarrow> m x = mem s x"
  shows "user_addr m pt = user_addr (mem s) pt" "user_frame m pt = user_frame (mem s) pt"
    "tables m pt = tables (mem s) pt" "user_wf (s\<lparr>mem := m\<rparr>) pt = user_wf s pt" "pt_wf (s\<lparr>mem := m\<rparr>) pt = pt_wf s pt"
proof -
  note c = walk_cong [OF pt_wfD(2) [OF assms(1)], of "mem s" m, OF assms(2)]
  show f: "user_frame m pt = user_frame (mem s) pt" using c(4) by (rule user_frame_cong)
  then show "user_addr m pt = user_addr (mem s) pt" by (simp add: user_addr_def fun_eq_iff)
  show "tables m pt = tables (mem s) pt" by (rule c(2))
  then show "pt_wf (s\<lparr>mem := m\<rparr>) pt = pt_wf s pt" using c(3) by (simp add: pt_wf_def)
  with f show "user_wf (s\<lparr>mem := m\<rparr>) pt = user_wf s pt" using c(2) by (simp add: user_wf_def)
qed

text \<open>
  A buffer of the kernel: memory that belongs neither to the tables nor to the user pages of an
  address space.
\<close>

definition kernel_buf :: "'a memst_scheme \<Rightarrow> u32 \<Rightarrow> u32 \<Rightarrow> nat \<Rightarrow> bool" where
  "kernel_buf s pt k n \<longleftrightarrow> unat k + n \<le> 4294967296 \<and> (\<forall>a. in_block k n a \<longrightarrow>
     PGROUNDDOWN a \<notin> tables (mem s) pt \<and> (\<forall>va. user_frame (mem s) pt 0 va \<noteq> Some (PGROUNDDOWN a)))"

lemma in_block_offset: "j < n \<Longrightarrow> n \<le> 4294967296 \<Longrightarrow> in_block k n (k + of_nat j)"
  by (simp add: in_block_def)

lemma kernel_buf_prefix: "kernel_buf s pt k n \<Longrightarrow> j \<le> n \<Longrightarrow> kernel_buf s pt k j"
  by (auto simp: kernel_buf_def in_block_def)

lemma kernel_buf_rest:
  assumes buf: "kernel_buf s pt k (unat len)" and n: "unat n \<le> unat len"
  shows "kernel_buf s pt (k + n) (unat (len - n))"
proof (cases "unat (len - n) = 0")
  case True
  then show ?thesis using unat_u32_lt [of "k + n"] by (simp add: kernel_buf_def)
next
  case False
  have k: "unat k + unat len \<le> 4294967296" using buf by (simp add: kernel_buf_def)
  have l: "unat (len - n) = unat len - unat n" using n by (simp add: unat_sub word_le_nat_alt)
  then have kn: "unat (k + n) = unat k + unat n" using k False n by (intro unat_add_lt) auto
  then have "in_block k (unat len) a" if "in_block (k + n) (unat (len - n)) a" for a
    using that k l n by (auto simp: in_block_nowrap)
  then show ?thesis using buf kn l n k by (auto simp: kernel_buf_def)
qed

text \<open>The part of a page from \<open>pa\<close> on does not run past the end of the address space.\<close>

lemma page_room:
  "unat pa + unat (if PAGE_SIZE - pa mod PAGE_SIZE > len then len else PAGE_SIZE - pa mod PAGE_SIZE) \<le> 4294967296"
proof -
  have ps: "unat PAGE_SIZE = 4096" by (simp add: PAGE_SIZE_def)
  then have "pa mod PAGE_SIZE \<le> PAGE_SIZE" by (simp add: word_le_nat_alt unat_mod_page)
  then have "unat (PAGE_SIZE - pa mod PAGE_SIZE) = 4096 - unat pa mod 4096" using ps by (simp add: unat_sub unat_mod_page)
  moreover have "unat pa div 4096 < 1048576" using unat_u32_lt [of pa] by (simp add: div_less_iff_less_mult)
  moreover have "unat pa = unat pa div 4096 * 4096 + unat pa mod 4096" by simp
  ultimately have "unat pa + unat (PAGE_SIZE - pa mod PAGE_SIZE) \<le> 4294967296" by linarith
  then show ?thesis by (auto simp: word_less_nat_alt)
qed

text \<open>
  The contract of a copy loop: \<open>run pt k va len\<close> copies between the kernel buffer at \<open>k\<close> and user
  memory at \<open>va\<close>, towards the user if \<open>out\<close>, and treats one page per iteration.
\<close>

locale page_copy =
  fixes run :: "u32 \<Rightarrow> u32 \<Rightarrow> u32 \<Rightarrow> u32 \<Rightarrow> 'a memst_scheme \<Rightarrow> (int, 'a memst_scheme) res"
    and need :: u32
    and out :: bool
  assumes run_done: "run pt k va 0 s = Ok 0 s"
    and run_fault: "mem_ready s \<Longrightarrow> pt_wf s pt \<Longrightarrow> len \<noteq> 0 \<Longrightarrow> user_addr (mem s) pt need va = None \<Longrightarrow>
      run pt k va len s = Ok (-1) s"
    and run_page: "mem_ready s \<Longrightarrow> pt_wf s pt \<Longrightarrow> len \<noteq> 0 \<Longrightarrow> user_addr (mem s) pt need va = Some pa \<Longrightarrow> pa \<noteq> 0 \<Longrightarrow>
      n = (if PAGE_SIZE - pa mod PAGE_SIZE > len then len else PAGE_SIZE - pa mod PAGE_SIZE) \<Longrightarrow>
      unat k + unat n \<le> 4294967296 \<Longrightarrow>
      run pt (k + n) (va + n) (len - n)
        (s\<lparr>mem := copy_block (if out then pa else k) (if out then k else pa) (unat n) (mem s)\<rparr>) = Ok r t \<Longrightarrow>
      run pt k va len s = Ok r t"

context page_copy
begin

text \<open>The \<open>i\<close>-th byte: where it comes from and where it goes.\<close>

definition uaddr :: "memory \<Rightarrow> u32 \<Rightarrow> u32 \<Rightarrow> nat \<Rightarrow> u32" where
  "uaddr m pt va i = the (user_addr m pt need (va + of_nat i))"

definition from_addr :: "memory \<Rightarrow> u32 \<Rightarrow> u32 \<Rightarrow> u32 \<Rightarrow> nat \<Rightarrow> u32" where
  "from_addr m pt k va i = (if out then k + of_nat i else uaddr m pt va i)"

definition to_addr :: "memory \<Rightarrow> u32 \<Rightarrow> u32 \<Rightarrow> u32 \<Rightarrow> nat \<Rightarrow> u32" where
  "to_addr m pt k va i = (if out then uaddr m pt va i else k + of_nat i)"

definition mapped :: "memory \<Rightarrow> u32 \<Rightarrow> u32 \<Rightarrow> nat \<Rightarrow> bool" where
  "mapped m pt va i \<longleftrightarrow> user_addr m pt need (va + of_nat i) \<noteq> None"

lemma uaddr_inj:
  assumes "mem_ready s" "user_wf s pt" "mapped (mem s) pt va i" "mapped (mem s) pt va j" "i < 4294967296" "j < 4294967296"
  shows "uaddr (mem s) pt va i = uaddr (mem s) pt va j \<longleftrightarrow> i = j"
proof
  let ?a = "uaddr (mem s) pt va i"
  assume eq: "?a = uaddr (mem s) pt va j"
  have a: "user_addr (mem s) pt need (va + of_nat i) = Some ?a" "user_addr (mem s) pt need (va + of_nat j) = Some ?a"
    using assms(3,4) eq by (auto simp: mapped_def uaddr_def)
  note u = user_addr_nonzero [OF assms(1,2) a(1)] and v = user_addr_nonzero [OF assms(1,2) a(2)]
  have "PGROUNDDOWN (va + of_nat i) = PGROUNDDOWN (va + of_nat j)"
    using user_wfD(4) [OF assms(2) v(3) u(3)] .
  moreover have "(va + of_nat i) AND 0xFFF = (va + of_nat j) AND 0xFFF" using u(4) v(4) by simp
  ultimately have "va + of_nat i = va + of_nat j" using page_plus_offset by metis
  then have "(of_nat i :: u32) = of_nat j" by simp
  then show "i = j" using assms(5,6) by (simp add: unat_eq_iff_u32)
qed simp

lemma uaddr_not_buf:
  assumes "mem_ready s" "user_wf s pt" "kernel_buf s pt k n" "mapped (mem s) pt va i" "j < n"
  shows "uaddr (mem s) pt va i \<noteq> k + of_nat j"
proof
  assume eq: "uaddr (mem s) pt va i = k + of_nat j"
  have a: "user_addr (mem s) pt need (va + of_nat i) = Some (k + of_nat j)"
    using assms(4) eq by (auto simp: mapped_def uaddr_def)
  have "in_block k n (k + of_nat j)" using assms(3,5) by (intro in_block_offset) (auto simp: kernel_buf_def)
  then show False
    using user_frame_weaken [OF user_addr_nonzero(3) [OF assms(1,2) a]] assms(3) by (auto simp: kernel_buf_def)
qed

text \<open>The first \<open>n\<close> bytes, all in one page.\<close>

definition first_page :: "u32 \<Rightarrow> u32 \<Rightarrow> u32" where
  "first_page pa len = (if PAGE_SIZE - pa mod PAGE_SIZE > len then len else PAGE_SIZE - pa mod PAGE_SIZE)"

lemma first_page:
  assumes "len \<noteq> 0"
  shows "0 < unat (first_page pa len)" "unat (first_page pa len) \<le> unat len"
    "unat (pa AND 0xFFF) + unat (first_page pa len) \<le> 4096"
proof -
  have "unat (PAGE_SIZE - pa mod PAGE_SIZE) = 4096 - unat pa mod 4096"
  proof -
    have "unat PAGE_SIZE = 4096" by (simp add: PAGE_SIZE_def)
    moreover from this have "pa mod PAGE_SIZE \<le> PAGE_SIZE" by (simp add: word_le_nat_alt unat_mod_page)
    ultimately show ?thesis by (simp add: unat_sub unat_mod_page)
  qed
  moreover have "unat len \<noteq> 0" using assms by (simp add: unat_eq_0)
  ultimately show "0 < unat (first_page pa len)" "unat (first_page pa len) \<le> unat len"
    "unat (pa AND 0xFFF) + unat (first_page pa len) \<le> 4096"
    by (auto simp: first_page_def word_less_nat_alt unat_offset)
qed

lemma page_bytes:
  assumes "mem_ready s" "user_wf s pt" "user_addr (mem s) pt need va = Some pa" "len \<noteq> 0"
    and "i < unat (first_page pa len)"
  shows "mapped (mem s) pt va i" "uaddr (mem s) pt va i = pa + of_nat i"
proof -
  have "unat (va AND 0xFFF) + i < 4096"
    using first_page(3) [OF assms(4), of pa] assms(5) user_addr_nonzero(4) [OF assms(1-3)] by simp
  from user_addr_run [OF assms(3) this] show "mapped (mem s) pt va i" "uaddr (mem s) pt va i = pa + of_nat i"
    by (simp_all add: mapped_def uaddr_def)
qed

lemma copy_block_at:
  assumes "i < n" "n \<le> 4294967296"
  shows "copy_block d s n m (d + of_nat i) = m (s + of_nat i)"
  using in_block_offset [OF assms, of d] by (simp add: copy_block_def)

lemma copy_block_other:
  assumes "\<And>i. i < n \<Longrightarrow> a \<noteq> d + of_nat i" "n \<le> 4294967296"
  shows "copy_block d s n m a = m a"
proof -
  have "\<not> in_block d n a"
  proof
    assume "in_block d n a"
    then have "unat (a - d) < n" by (simp add: in_block_def)
    then have "a \<noteq> d + of_nat (unat (a - d))" by (rule assms(1))
    then show False by simp
  qed
  then show ?thesis by (simp add: copy_block_def)
qed

text \<open>One page copied: the bytes arrive, the address space stays what it was.\<close>

lemma page_step:
  assumes s: "mem_ready s" "user_wf s pt" and buf: "kernel_buf s pt k (unat len)" and len: "len \<noteq> 0"
    and pa: "user_addr (mem s) pt need va = Some pa"
  defines "n \<equiv> unat (first_page pa len)"
  defines "m \<equiv> copy_block (if out then pa else k) (if out then k else pa) n (mem s)"
  shows "i < n \<Longrightarrow> m (to_addr (mem s) pt k va i) = mem s (from_addr (mem s) pt k va i)"
    and "(\<And>i. i < n \<Longrightarrow> a \<noteq> to_addr (mem s) pt k va i) \<Longrightarrow> m a = mem s a"
    and "PGROUNDDOWN x \<in> tables (mem s) pt \<Longrightarrow> m x = mem s x"
proof -
  have n: "n \<le> 4294967296" "n \<le> unat len" using first_page(2) [OF len, of pa] unat_u32_lt [of len] by (auto simp: n_def)
  have to: "to_addr (mem s) pt k va i = (if out then pa else k) + of_nat i"
    "from_addr (mem s) pt k va i = (if out then k else pa) + of_nat i" if "i < n" for i
    using page_bytes(2) [OF s pa len] that by (auto simp: to_addr_def from_addr_def n_def)
  show "m (to_addr (mem s) pt k va i) = mem s (from_addr (mem s) pt k va i)" if "i < n" for i
    using copy_block_at [OF that n(1)] to [OF that] by (simp add: m_def)
  show other: "m a = mem s a" if "\<And>i. i < n \<Longrightarrow> a \<noteq> to_addr (mem s) pt k va i" for a
    using copy_block_other [OF _ n(1), of a "if out then pa else k" "if out then k else pa" "mem s"] that to(1)
    by (simp add: m_def)
  have "PGROUNDDOWN (to_addr (mem s) pt k va i) \<notin> tables (mem s) pt" if "i < n" for i
  proof (cases out)
    case True
    have "user_addr (mem s) pt need (va + of_nat i) = Some (uaddr (mem s) pt va i)"
      using page_bytes(1) [OF s pa len] that by (auto simp: mapped_def uaddr_def n_def)
    then show ?thesis unfolding to_addr_def using user_addr_nonzero(2) [OF s] True by auto
  next
    case False
    then show ?thesis
      unfolding to_addr_def using buf that n(2) in_block_offset [of i "unat len" k] unat_u32_lt [of len]
      by (auto simp: kernel_buf_def)
  qed
  then show "m x = mem s x" if "PGROUNDDOWN x \<in> tables (mem s) pt" for x
    using that by (intro other) auto
qed

text \<open>
  The whole loop: \<open>j\<close> is the number of bytes copied, up to the first one whose page does not
  have the rights.
\<close>

definition copied :: "'a memst_scheme \<Rightarrow> 'a memst_scheme \<Rightarrow> u32 \<Rightarrow> u32 \<Rightarrow> u32 \<Rightarrow> nat \<Rightarrow> bool" where
  "copied s t pt k va j \<longleftrightarrow> t = s\<lparr>mem := mem t\<rparr> \<and> (\<forall>i<j. mapped (mem s) pt va i)
     \<and> (\<forall>i<j. mem t (to_addr (mem s) pt k va i) = mem s (from_addr (mem s) pt k va i))
     \<and> (\<forall>a. (\<forall>i<j. a \<noteq> to_addr (mem s) pt k va i) \<longrightarrow> mem t a = mem s a)"

lemma chunk_copied:
  assumes s: "mem_ready s" "user_wf s pt" and buf: "kernel_buf s pt k (unat len)" and len: "len \<noteq> 0"
    and pa: "user_addr (mem s) pt need va = Some pa" and c: "c \<noteq> 0" "c \<le> unat (first_page pa len)"
  defines "u \<equiv> s\<lparr>mem := copy_block (if out then pa else k) (if out then k else pa) c (mem s)\<rparr>"
  shows "copied s u pt k va c" "user_addr (mem u) pt = user_addr (mem s) pt" "mem_ready u" "user_wf u pt"
    "kernel_buf u pt = kernel_buf s pt"
proof -
  let ?c = "of_nat c :: u32"
  note n = first_page [OF len, of pa]
  have uc: "unat ?c = c" using c(2) n(3) by simp
  then have ne: "?c \<noteq> 0" using c(1) by auto
  have fp: "first_page pa ?c = ?c"
    using c(2) uc by (auto simp: first_page_def word_less_nat_alt unat_eq_iff_u32 split: if_splits)
  have kb: "kernel_buf s pt k (unat ?c)"
    unfolding uc using c(2) n(2) by (intro kernel_buf_prefix [OF buf]) simp
  note st = page_step [OF s kb ne pa, unfolded fp uc]
  have pt: "pt_wf s pt" using s(2) by (simp add: user_wf_def)
  note same = user_wf_upd [OF pt st(3)]
  show "copied s u pt k va c"
    using st(1,2) page_bytes(1) [OF s pa len] c(2) by (auto simp: copied_def u_def)
  show "user_addr (mem u) pt = user_addr (mem s) pt" using same(1) by (simp add: u_def)
  show "mem_ready u" "user_wf u pt" using s same(4) by (simp_all add: u_def)
  show "kernel_buf u pt = kernel_buf s pt" using same(2,3) by (simp add: kernel_buf_def u_def fun_eq_iff)
qed

lemma copied_trans:
  assumes s: "mem_ready s" "user_wf s pt" and buf: "kernel_buf s pt k l"
    and first: "copied s u pt k va n" and same: "user_addr (mem u) pt = user_addr (mem s) pt"
    and rest: "copied u t pt (k + of_nat n) (va + of_nat n) j" and l: "n + j \<le> l"
  shows "copied s t pt k va (n + j)"
proof -
  have l32: "l \<le> 4294967296" using buf by (simp add: kernel_buf_def)
  have shift: "mapped (mem u) pt (va + of_nat n) i = mapped (mem s) pt va (n + i)"
    "to_addr (mem u) pt (k + of_nat n) (va + of_nat n) i = to_addr (mem s) pt k va (n + i)"
    "from_addr (mem u) pt (k + of_nat n) (va + of_nat n) i = from_addr (mem s) pt k va (n + i)" for i
    by (simp_all add: mapped_def to_addr_def from_addr_def uaddr_def same add.assoc)
  have split: "i < n \<or> (\<exists>i'. i = n + i' \<and> i' < j)" if "i < n + j" for i
    using that by (metis add_less_cancel_left le_Suc_ex not_le)
  have map: "mapped (mem s) pt va i" if "i < n + j" for i
    using split [OF that] first rest by (auto simp: copied_def shift)
  have inj: "to_addr (mem s) pt k va i = to_addr (mem s) pt k va i' \<longleftrightarrow> i = i'" if "i < n + j" "i' < n + j" for i i'
  proof (cases out)
    case True
    then show ?thesis unfolding to_addr_def using uaddr_inj [OF s map map] that l l32 by auto
  next
    case False
    then show ?thesis unfolding to_addr_def using that l l32 by (auto simp: unat_eq_iff_u32 [of "of_nat _"])
  qed
  have dj: "from_addr (mem s) pt k va i \<noteq> to_addr (mem s) pt k va i'" if "i < n + j" "i' < n + j" for i i'
    unfolding from_addr_def to_addr_def
    using uaddr_not_buf [OF s buf map [OF that(1)], of i'] uaddr_not_buf [OF s buf map [OF that(2)], of i] that l by auto
  have copy: "mem t (to_addr (mem s) pt k va i) = mem s (from_addr (mem s) pt k va i)" if "i < n + j" for i
    using split [OF that]
  proof (elim disjE exE conjE)
    assume i: "i < n"
    then have "\<forall>i'<j. to_addr (mem s) pt k va i \<noteq> to_addr (mem s) pt k va (n + i')" using inj by auto
    then have "mem t (to_addr (mem s) pt k va i) = mem u (to_addr (mem s) pt k va i)"
      using rest by (auto simp: copied_def shift)
    then show ?thesis using first i by (simp add: copied_def)
  next
    fix i'
    assume i: "i = n + i'" "i' < j"
    then have "mem u (from_addr (mem s) pt k va i) = mem s (from_addr (mem s) pt k va i)"
      using first dj by (auto simp: copied_def)
    then show ?thesis using rest i by (simp add: copied_def shift)
  qed
  have "mem t a = mem s a" if "\<forall>i<n + j. a \<noteq> to_addr (mem s) pt k va i" for a
    using first rest that by (simp add: copied_def shift)
  moreover have "t = s\<lparr>mem := mem t\<rparr>"
  proof -
    have "t = u\<lparr>mem := mem t\<rparr>" "u = s\<lparr>mem := mem u\<rparr>" using first rest by (simp_all add: copied_def)
    then show ?thesis by (metis machine.surjective machine.update_convs(3))
  qed
  ultimately show ?thesis using map copy by (simp add: copied_def)
qed

lemma run_spec:
  "mem_ready s \<Longrightarrow> user_wf s pt \<Longrightarrow> kernel_buf s pt k (unat len) \<Longrightarrow>
    \<exists>t j. run pt k va len s = Ok (if j = unat len then 0 else -1) t \<and> j \<le> unat len
      \<and> (j < unat len \<longrightarrow> \<not> mapped (mem s) pt va j) \<and> copied s t pt k va j"
proof (induction "unat len" arbitrary: s k va len rule: less_induct)
  case less
  note s = less.prems(1,2) and buf = less.prems(3)
  have pt: "pt_wf s pt" using s(2) by (simp add: user_wf_def)
  show ?case
  proof (cases "len = 0")
    case True
    then show ?thesis by (intro exI [of _ s] exI [of _ 0]) (simp add: run_done copied_def)
  next
    case len: False
    then have len0: "unat len \<noteq> 0" by (simp add: unat_eq_0)
    show ?thesis
    proof (cases "user_addr (mem s) pt need va")
      case None
      then show ?thesis using run_fault [OF s(1) pt len None, of k] len0
        by (intro exI [of _ s] exI [of _ 0]) (simp add: mapped_def copied_def)
    next
      case (Some pa)
      let ?n = "first_page pa len" and ?d = "if out then pa else k" and ?f = "if out then k else pa"
      let ?u = "s\<lparr>mem := copy_block ?d ?f (unat ?n) (mem s)\<rparr>"
      note n = first_page [OF len, of pa]
      have "unat ?n \<noteq> 0" using n(1) by simp
      note u = chunk_copied [OF s buf len Some this order_refl]
      have len': "unat (len - ?n) = unat len - unat ?n" using n(2) by (simp add: unat_sub word_le_nat_alt)
      have k: "unat k + unat len \<le> 4294967296" using buf by (simp add: kernel_buf_def)
      have kb: "kernel_buf ?u pt (k + ?n) (unat (len - ?n))"
        unfolding u(5) by (rule kernel_buf_rest [OF buf n(2)])
      obtain t j where t: "run pt (k + ?n) (va + ?n) (len - ?n) ?u = Ok (if j = unat (len - ?n) then 0 else -1) t"
        "j \<le> unat (len - ?n)" "j < unat (len - ?n) \<longrightarrow> \<not> mapped (mem ?u) pt (va + ?n) j"
        "copied ?u t pt (k + ?n) (va + ?n) j"
        using less.hyps [OF _ u(3,4) kb, of "va + ?n"] len' n(1,2) by auto
      have "run pt k va len s = Ok (if j = unat (len - ?n) then 0 else -1) t"
        using k n(2) by (intro run_page [OF s(1) pt len Some user_addr_nonzero(1) [OF s Some] first_page_def _ t(1)]) simp
      moreover have "copied s t pt k va (unat ?n + j)"
        using t(2,4) n(2) len' u(2) by (intro copied_trans [OF s buf u(1)]) auto
      moreover have "mapped (mem ?u) pt (va + ?n) j = mapped (mem s) pt va (unat ?n + j)"
        unfolding mapped_def u(2) by (simp add: add.assoc)
      ultimately show ?thesis
        using t(2,3) len' n(2) by (intro exI [of _ t] exI [of _ "unat ?n + j"]) auto
    qed
  qed
qed

end

section \<open>The copy routines keep the contract\<close>

section \<open>The copy routines keep the contract\<close>

interpretation cin: page_copy copyin PTE_R False
proof
  fix pt k va len :: u32 and s :: "'a memst_scheme"
  show "copyin pt k va 0 s = Ok 0 s" by (simp add: copyin_def kloop_exit)
  assume s: "mem_ready s" "pt_wf s pt" "len \<noteq> 0"
  then have l: "len > 0" by (simp add: word_neq_0_conv)
  show "copyin pt k va len s = Ok (-1) s" if "user_addr (mem s) pt PTE_R va = None"
    using s l that by (simp add: copyin_def kloop_exit find_user_pa_eq)
  fix pa n :: u32 and r and t :: "'a memst_scheme"
  assume p: "user_addr (mem s) pt PTE_R va = Some pa" "pa \<noteq> 0"
    and n: "n = (if PAGE_SIZE - pa mod PAGE_SIZE > len then len else PAGE_SIZE - pa mod PAGE_SIZE)"
    and k: "unat k + unat n \<le> 4294967296"
    and r: "copyin pt (k + n) (va + n) (len - n)
      (s\<lparr>mem := copy_block (if False then pa else k) (if False then k else pa) (unat n) (mem s)\<rparr>) = Ok r t"
  let ?s = "s\<lparr>mem := copy_block k pa (unat n) (mem s)\<rparr>"
  have "memmove k pa n s = Ok k ?s"
    using k page_room [of pa len] by (intro memmove_copy) (simp_all add: n)
  then have "copyin_body pt (k, va, len) s = Ok (Inl (k + n, va + n, len - n)) ?s"
    using s l p by (simp add: find_user_pa_eq Let_def n [symmetric])
  from kloop_step [where body = "copyin_body pt", OF this] r show "copyin pt k va len s = Ok r t"
    by (simp add: copyin_def del: copyin_body.simps)
qed

interpretation cout: page_copy "\<lambda>pt k va. copyout pt va k" PTE_W True
proof
  fix pt k va len :: u32 and s :: "'a memst_scheme"
  show "copyout pt va k 0 s = Ok 0 s" by (simp add: copyout_def kloop_exit)
  assume s: "mem_ready s" "pt_wf s pt" "len \<noteq> 0"
  then have l: "len > 0" by (simp add: word_neq_0_conv)
  show "copyout pt va k len s = Ok (-1) s" if "user_addr (mem s) pt PTE_W va = None"
    using s l that by (simp add: copyout_def kloop_exit find_user_pa_eq)
  fix pa n :: u32 and r and t :: "'a memst_scheme"
  assume p: "user_addr (mem s) pt PTE_W va = Some pa" "pa \<noteq> 0"
    and n: "n = (if PAGE_SIZE - pa mod PAGE_SIZE > len then len else PAGE_SIZE - pa mod PAGE_SIZE)"
    and k: "unat k + unat n \<le> 4294967296"
    and r: "copyout pt (va + n) (k + n) (len - n)
      (s\<lparr>mem := copy_block (if True then pa else k) (if True then k else pa) (unat n) (mem s)\<rparr>) = Ok r t"
  let ?s = "s\<lparr>mem := copy_block pa k (unat n) (mem s)\<rparr>"
  have "memmove pa k n s = Ok pa ?s"
    using k page_room [of pa len] by (intro memmove_copy) (simp_all add: n)
  then have "copyout_body pt (va, k, len) s = Ok (Inl (va + n, k + n, len - n)) ?s"
    using s l p by (simp add: find_user_pa_eq Let_def n [symmetric])
  from kloop_step [where body = "copyout_body pt", OF this] r show "copyout pt va k len s = Ok r t"
    by (simp add: copyout_def del: copyout_body.simps)
qed

interpretation lseg: page_copy "\<lambda>pt k va. load_segment pt va k 0" 0 True
proof
  fix pt k va len :: u32 and s :: "'a memst_scheme"
  show "load_segment pt va k 0 0 s = Ok 0 s" by (simp add: load_segment_def kloop_exit)
  assume s: "mem_ready s" "pt_wf s pt" "len \<noteq> 0"
  then have l: "len > 0" by (simp add: word_neq_0_conv)
  show "load_segment pt va k 0 len s = Ok (-1) s" if "user_addr (mem s) pt 0 va = None"
    using s l that by (simp add: load_segment_def kloop_exit find_user_pa_eq find_pa_def)
  fix pa n :: u32 and r and t :: "'a memst_scheme"
  assume p: "user_addr (mem s) pt 0 va = Some pa" "pa \<noteq> 0"
    and n: "n = (if PAGE_SIZE - pa mod PAGE_SIZE > len then len else PAGE_SIZE - pa mod PAGE_SIZE)"
    and k: "unat k + unat n \<le> 4294967296"
    and r: "load_segment pt (va + n) (k + n) 0 (len - n)
      (s\<lparr>mem := copy_block (if True then pa else k) (if True then k else pa) (unat n) (mem s)\<rparr>) = Ok r t"
  let ?s = "s\<lparr>mem := copy_block pa k (unat n) (mem s)\<rparr>"
  have "memmove pa k n s = Ok pa ?s"
    using k page_room [of pa len] by (intro memmove_copy) (simp_all add: n)
  then have "load_segment_body pt (va, k, len) s = Ok (Inl (va + n, k + n, len - n)) ?s"
    using s l p by (simp add: find_user_pa_eq find_pa_def Let_def n [symmetric])
  from kloop_step [where body = "load_segment_body pt", OF this] r show "load_segment pt va k 0 len s = Ok r t"
    by (simp add: load_segment_def del: load_segment_body.simps)
qed

section \<open>Strings\<close>

lemma copy_block_shift:
  assumes "j < 4294967296" "\<And>i. i \<le> j \<Longrightarrow> p + of_nat i \<noteq> k"
  shows "copy_block (k + 1) (p + 1) j (m(k := m p)) = copy_block k p (Suc j) m"
proof
  fix a
  have "p + (a - k) \<noteq> k" if "in_block k (Suc j) a"
    using assms(2) [of "unat (a - k)"] that by (simp add: in_block_def)
  moreover have "\<not> in_block (k + 1) j k" using assms(1) by (rule not_in_block_next)
  ultimately show "copy_block (k + 1) (p + 1) j (m(k := m p)) a = copy_block k p (Suc j) m a"
    using in_block_Suc [OF assms(1), of k a] by (auto simp: copy_block_def)
qed

text \<open>A string of \<open>j\<close> bytes before its NUL, all of it readable by the user.\<close>

definition user_string :: "memory \<Rightarrow> u32 \<Rightarrow> u32 \<Rightarrow> nat \<Rightarrow> bool" where
  "user_string m pt va j \<longleftrightarrow>
     (\<forall>i\<le>j. \<exists>a. user_addr m pt PTE_R (va + of_nat i) = Some a \<and> (m a = 0 \<longleftrightarrow> i = j))"

lemma user_string_iff:
  "user_string m pt va j \<longleftrightarrow> (\<forall>i\<le>j. cin.mapped m pt va i \<and> (m (cin.uaddr m pt va i) = 0 \<longleftrightarrow> i = j))"
  by (auto simp: user_string_def cin.mapped_def cin.uaddr_def)

lemma user_string_unique: "user_string m pt va j \<Longrightarrow> user_string m pt va j' \<Longrightarrow> j' = j"
  unfolding user_string_iff by (metis nat_le_linear)

text \<open>The position of the first NUL in a block of \<open>n\<close> bytes, \<open>n\<close> if there is none.\<close>

fun nul_pos :: "nat \<Rightarrow> u32 \<Rightarrow> memory \<Rightarrow> nat" where
  "nul_pos 0 p m = 0"
| "nul_pos (Suc n) p m = (if m p = 0 then 0 else Suc (nul_pos n (p + 1) m))"

lemma nul_pos:
  "nul_pos n p m \<le> n" "i < nul_pos n p m \<Longrightarrow> m (p + of_nat i) \<noteq> 0"
  "nul_pos n p m < n \<Longrightarrow> m (p + of_nat (nul_pos n p m)) = 0"
proof (induction n p m arbitrary: i rule: nul_pos.induct)
  case (2 n p m)
  { case 1 then show ?case using 2(1) by simp }
  { case 2 then show ?case using "2.IH"(2) [of "i - 1"] by (cases i) (auto simp: add.assoc split: if_splits) }
  { case 3 then show ?case using "2.IH"(3) by (auto simp: add.assoc) }
qed simp_all

lemma nul_pos_cong: "(\<And>i. i < n \<Longrightarrow> m (p + of_nat i) = m' (p + of_nat i)) \<Longrightarrow> nul_pos n p m = nul_pos n p m'"
proof (induction n p m rule: nul_pos.induct)
  case (2 n p m)
  have "m p = m' p" using 2(2) [of 0] by simp
  moreover have "m (p + 1 + of_nat i) = m' (p + 1 + of_nat i)" if "i < n" for i
    using 2(2) [of "Suc i"] that by (simp add: add.assoc)
  ultimately show ?case using 2(1) by simp
qed simp

text \<open>The inner loop copies up to the first NUL of the block, if it has one.\<close>

lemma copystr_page_eq:
  assumes "n \<le> 4096" "\<And>i i'. i < n \<Longrightarrow> i' < n \<Longrightarrow> p + of_nat i \<noteq> k + of_nat i'"
  shows "copystr_page n p k l m = (let j = nul_pos n p m
    in ((j < n, k + of_nat j, l - of_nat j), copy_block k p (if j < n then Suc j else n) m))"
  using assms
proof (induction n arbitrary: p k l m)
  case 0
  then show ?case by (simp add: copy_block_def)
next
  case (Suc n)
  show ?case
  proof (cases "m p = 0")
    case True
    then show ?thesis by (auto simp: copy_block_def in_block_def unat_eq_0 fun_eq_iff)
  next
    case False
    let ?m = "m(k := m p)" and ?j = "nul_pos n (p + 1) m"
    have dj: "p + 1 + of_nat i \<noteq> k + 1 + of_nat i'" if "i < n" "i' < n" for i i'
      using Suc.prems(2) [of "Suc i" "Suc i'"] that by (simp add: algebra_simps)
    have "?m (p + 1 + of_nat i) = m (p + 1 + of_nat i)" if "i < n" for i
      using Suc.prems(2) [of "Suc i" 0] that by (simp add: algebra_simps)
    then have j: "nul_pos n (p + 1) ?m = ?j" by (rule nul_pos_cong)
    have sh: "copy_block (k + 1) (p + 1) i ?m = copy_block k p (Suc i) m" if "i \<le> n" for i
      using that Suc.prems(1) Suc.prems(2) [of _ 0] by (intro copy_block_shift) auto
    have "copystr_page (Suc n) p k l m = copystr_page n (p + 1) (k + 1) (l - 1) ?m" using False by simp
    also have "\<dots> = ((?j < n, k + 1 + of_nat ?j, l - 1 - of_nat ?j), copy_block (k + 1) (p + 1) (if ?j < n then Suc ?j else n) ?m)"
      using Suc.IH [OF _ dj, of "l - 1" ?m] Suc.prems(1) j by (simp add: Let_def del: fun_upd_apply)
    also have "\<dots> = ((Suc ?j < Suc n, k + of_nat (Suc ?j), l - of_nat (Suc ?j)),
        copy_block k p (if Suc ?j < Suc n then Suc (Suc ?j) else Suc n) m)"
      using sh [of "Suc ?j"] sh [of n] by (simp add: algebra_simps del: fun_upd_apply)
    finally show ?thesis using False by (simp add: Let_def)
  qed
qed

text \<open>
  Result \<open>r\<close> of copying a string of at most \<open>l\<close> bytes, of which \<open>j\<close> were copied: 0 with the
  whole string, or -1 at a byte that is not readable or at the end of the room.
\<close>

definition str_result :: "memory \<Rightarrow> u32 \<Rightarrow> u32 \<Rightarrow> nat \<Rightarrow> int \<Rightarrow> nat \<Rightarrow> bool" where
  "str_result m pt va l r j \<longleftrightarrow> j \<le> l
     \<and> (if r = 0 then j \<noteq> 0 \<and> user_string m pt va (j - 1)
        else r = -1 \<and> (\<forall>i<j. cin.mapped m pt va i \<and> m (cin.uaddr m pt va i) \<noteq> 0)
          \<and> (j < l \<longrightarrow> \<not> cin.mapped m pt va j))"

lemma str_result_join:
  assumes first: "\<And>i. i < n \<Longrightarrow> cin.mapped m pt va i \<and> m (cin.uaddr m pt va i) \<noteq> 0"
    and same: "user_addr m' pt = user_addr m pt"
    and rest: "\<And>i. cin.mapped m pt va i \<Longrightarrow> m' (cin.uaddr m pt va i) = m (cin.uaddr m pt va i)"
    and res: "str_result m' pt (va + of_nat n) (l - n) r j" and n: "n \<le> l"
  shows "str_result m pt va l r (n + j)"
proof -
  have sh: "cin.mapped m' pt (va + of_nat n) i = cin.mapped m pt va (n + i)"
    "cin.uaddr m' pt (va + of_nat n) i = cin.uaddr m pt va (n + i)" for i
    unfolding cin.mapped_def cin.uaddr_def same by (simp_all add: add.assoc)
  have split: "P i" if "\<And>i. i < n \<Longrightarrow> P i" "\<And>d. i = n + d \<Longrightarrow> P (n + d)" for P i
    using that by (metis le_Suc_ex not_less)
  show ?thesis
  proof (cases "r = 0")
    case True
    then obtain j' where j: "j = Suc j'" using res by (cases j) (auto simp: str_result_def)
    have str: "cin.mapped m pt va (n + d)" "m (cin.uaddr m pt va (n + d)) = 0 \<longleftrightarrow> d = j'" if "d \<le> j'" for d
      using res True j that rest [of "n + d"] by (auto simp: str_result_def user_string_iff sh)
    have "cin.mapped m pt va i \<and> (m (cin.uaddr m pt va i) = 0 \<longleftrightarrow> i = n + j')" if "i \<le> n + j'" for i
      by (rule split [where i = i]) (use first str that in auto)
    moreover have "n + j \<le> l" using res n by (auto simp: str_result_def)
    ultimately show ?thesis using True j by (simp add: str_result_def user_string_iff)
  next
    case False
    have "cin.mapped m pt va i \<and> m (cin.uaddr m pt va i) \<noteq> 0" if "i < n + j" for i
      by (rule split [where i = i]) (use first res False rest that in \<open>auto simp: str_result_def sh\<close>)
    then show ?thesis using False res n by (auto simp: str_result_def sh)
  qed
qed

lemma copyinstr_loop:
  "mem_ready s \<Longrightarrow> user_wf s pt \<Longrightarrow> kernel_buf s pt k (unat l) \<Longrightarrow>
    \<exists>r t j. kloop (copyinstr_body pt) (False, k, va, l) s = Ok r t \<and> cin.copied s t pt k va j
      \<and> str_result (mem s) pt va (unat l) r j"
proof (induction "unat l" arbitrary: s k va l rule: less_induct)
  case less
  note s = less.prems(1,2) and buf = less.prems(3)
  let ?body = "copyinstr_body pt"
  have pt: "pt_wf s pt" using s(2) by (simp add: user_wf_def)
  consider "l = 0" | "l \<noteq> 0" "user_addr (mem s) pt PTE_R va = None"
    | pa where "l \<noteq> 0" "user_addr (mem s) pt PTE_R va = Some pa" by auto
  then show ?case
  proof cases
    case 1
    then show ?thesis
      by (intro exI [of _ "-1"] exI [of _ s] exI [of _ 0]) (simp add: kloop_exit cin.copied_def str_result_def)
  next
    case 2
    then have "?body (False, k, va, l) s = Ok (Inr (-1)) s"
      using s pt by (simp add: find_user_pa_eq word_neq_0_conv)
    from kloop_exit [where body = ?body, OF this] 2 show ?thesis
      by (intro exI [of _ "-1"] exI [of _ s] exI [of _ 0]) (simp add: cin.copied_def cin.mapped_def str_result_def)
  next
    case 3
    let ?n = "cin.first_page pa l" and ?j = "nul_pos (unat (cin.first_page pa l)) pa (mem s)"
    let ?c = "if ?j < unat ?n then Suc ?j else unat ?n"
    let ?u = "s\<lparr>mem := copy_block k pa ?c (mem s)\<rparr>"
    note n = cin.first_page [OF 3(1), of pa]
    have cn: "?c \<le> unat ?n" by simp
    have bytes: "cin.mapped (mem s) pt va i" "cin.uaddr (mem s) pt va i = pa + of_nat i" if "i < unat ?n" for i
      using cin.page_bytes [OF s 3(2,1) that] .
    have dj: "pa + of_nat i \<noteq> k + of_nat i'" if "i < unat ?n" "i' < unat ?n" for i i'
      using cin.uaddr_not_buf [OF s buf bytes(1) [OF that(1)], of i'] that n(2) bytes(2) [OF that(1)] by simp
    have f: "find_user_pa pt va PTE_R s = Ok pa s" using find_user_pa_eq [OF s(1) pt] 3(2) by simp
    have "unat ?n \<le> 4096" using n(3) by simp
    note cs = copystr_page_eq [where l = l and m = "mem s", OF this dj]
    have "(pa = 0) = False" "(0 < l) = True"
      using user_addr_nonzero(1) [OF s 3(2)] 3(1) by (simp_all add: word_neq_0_conv)
    then have "?body (False, k, va, l) s = Ok (Inl (?j < unat ?n, k + of_nat ?j, va + ?n, l - of_nat ?j)) ?u"
      by (simp only: copyinstr_body.simps f cin.first_page_def [symmetric] cs kbind.simps Let_def
        not_False_eq_True simp_thms if_True if_False prod.case)
    note step = kloop_step [where body = ?body, OF this]
    have c: "?c \<noteq> 0" "?c \<le> unat ?n" using n(1) by auto
    note u = cin.chunk_copied [OF s buf 3 c, unfolded if_False]
    show ?thesis
    proof (cases "?j < unat ?n")
      case True
      have "user_string (mem s) pt va ?j"
        unfolding user_string_def
      proof (intro allI impI)
        fix i
        assume i: "i \<le> ?j"
        then have "user_addr (mem s) pt PTE_R (va + of_nat i) = Some (pa + of_nat i)"
          using bytes [of i] True by (auto simp: cin.mapped_def cin.uaddr_def)
        then show "\<exists>a. user_addr (mem s) pt PTE_R (va + of_nat i) = Some a \<and> (mem s a = 0) = (i = ?j)"
          using nul_pos(2) [of i "unat ?n" pa "mem s"] nul_pos(3) [OF True] i by (cases "i = ?j") auto
      qed
      moreover have "kloop ?body (False, k, va, l) s = Ok 0 ?u"
        using True by (intro step) (simp add: kloop_exit)
      ultimately show ?thesis
        using True u(1) n(2) by (intro exI [of _ 0] exI [of _ ?u] exI [of _ "Suc ?j"]) (simp add: str_result_def)
    next
      case False
      then have j: "?j = unat ?n" using nul_pos(1) [of "unat ?n" pa "mem s"] by simp
      have l: "unat (l - ?n) = unat l - unat ?n" using n(2) by (simp add: unat_sub word_le_nat_alt)
      have cn: "?c = unat ?n" using False by simp
      have kb: "kernel_buf ?u pt (k + ?n) (unat (l - ?n))" unfolding u(5) by (rule kernel_buf_rest [OF buf n(2)])
      obtain r t i where t: "kloop ?body (False, k + ?n, va + ?n, l - ?n) ?u = Ok r t"
        "cin.copied ?u t pt (k + ?n) (va + ?n) i" "str_result (mem ?u) pt (va + ?n) (unat (l - ?n)) r i"
        using less.hyps [OF _ u(3,4) kb, of "va + ?n"] l n(1,2) by auto
      have "kloop ?body (False, k, va, l) s = Ok r t"
        using t(1) by (intro step) (simp add: j)
      moreover have "cin.copied s t pt k va (unat ?n + i)"
        using t(2,3) n(2) l u(2) cin.copied_trans [OF s buf u(1) u(2), of t i] cn by (auto simp: str_result_def)
      moreover have rest: "mem ?u (cin.uaddr (mem s) pt va i) = mem s (cin.uaddr (mem s) pt va i)"
        if "cin.mapped (mem s) pt va i" for i
      proof -
        have "\<forall>j<?c. cin.uaddr (mem s) pt va i \<noteq> k + of_nat j"
          using cin.uaddr_not_buf [OF s buf that] c(2) n(2) by auto
        then show ?thesis using u(1) unfolding cin.copied_def cin.to_addr_def if_False by blast
      qed
      have "str_result (mem s) pt va (unat l) r (unat ?n + i)"
        using t(3) n(2) l bytes nul_pos(2) [of _ "unat ?n" pa "mem s"] j
        by (intro str_result_join [OF _ u(2) rest]) auto
      ultimately show ?thesis by blast
    qed
  qed
qed

section \<open>Mapping a page for the user\<close>

text \<open>The frames of the user pages of an address space, and all pages that belong to it.\<close>

definition frames :: "memory \<Rightarrow> u32 \<Rightarrow> u32 set" where
  "frames m pt = {f. \<exists>va. user_frame m pt 0 va = Some f}"

definition owned :: "memory \<Rightarrow> u32 \<Rightarrow> u32 set" where
  "owned m pt = tables m pt \<union> frames m pt"

lemma rights_flags:
  assumes "flag_bits need"
  shows "e AND rights need = PTE_FLAGS e AND rights need"
proof -
  have "flag_bits (PTE_V OR PTE_U)" by (simp add: flag_bits_def PTE_V_def PTE_U_def)
  from flag_bits_OR [OF this assms] have "flag_bits (rights need)" by (simp add: rights_def or.assoc)
  then have "rights need = 0x3FF AND rights need" by (simp add: flag_bits_def and.commute)
  then show ?thesis by (metis PTE_FLAGS_def and.assoc)
qed

lemma user_frame_map_page:
  assumes "flag_bits flags" "flag_bits need" "page_aligned f"
    and "walk m' pt = map_page (walk m pt) va (PA2PTE f OR flags OR PTE_V)"
  shows "user_frame m' pt need va' = (if PGROUNDDOWN va' = va
    then if (flags OR PTE_V) AND rights need = rights need then Some f else None else user_frame m pt need va')"
proof -
  have "PTE2PA (PA2PTE f OR flags OR PTE_V) = f" "PTE_FLAGS (PA2PTE f OR flags OR PTE_V) = flags OR PTE_V"
    using PTE2PA_make [of f "flags OR PTE_V"] assms(1,3) by (simp_all add: flag_bits_OR or.assoc)
  then show ?thesis
    using assms(4) rights_flags [OF assms(2), of "PA2PTE f OR flags OR PTE_V"] by (simp add: user_frame_def map_page_def)
qed

lemma flag_bits_0 [simp]: "flag_bits 0" by (simp add: flag_bits_def)

lemma map_user_wf:
  assumes s: "mem_ready s" "user_wf s pt" and g: "pt_grow s t pt"
    and f: "heap_page s f" "f \<notin> free_pages s" "f \<notin> owned (mem s) pt"
    and fl: "flag_bits flags" and va: "page_aligned va" "walk (mem s) pt va = None"
    and w: "walk (mem t) pt = map_page (walk (mem s) pt) va (PA2PTE f OR flags OR PTE_V)"
  shows "user_wf t pt" "frames (mem t) pt = (if (flags OR PTE_V) AND rights 0 = rights 0
    then insert f (frames (mem s) pt) else frames (mem s) pt)"
proof -
  have al: "page_aligned f" using heap_page_facts [OF f(1) s(1)] by simp
  note uf = user_frame_map_page [OF fl flag_bits_0 al w]
  have no: "user_frame (mem s) pt 0 va' = None" if "PGROUNDDOWN va' = va" for va'
    using va that user_frame_page [of va' va "mem s" pt 0] by (simp add: PGROUNDDOWN_aligned user_frame_def)
  have h: "heap_page t = heap_page s"
    using g noise_ready(3) [of "s\<lparr>mem := mem t, mem_bitmap := mem_bitmap t\<rparr>" t] by (simp add: pt_grow_def)
  have tb: "tables (mem t) pt = tables (mem s) pt \<union> (free_pages s - free_pages t)" "free_pages t \<subseteq> free_pages s" "pt_wf t pt"
    using g unfolding pt_grow_def by blast+
  have fs: "f \<notin> tables (mem s) pt" "\<And>va'. user_frame (mem s) pt 0 va' \<noteq> Some f" using f(3) by (auto simp: owned_def frames_def)
  show "user_wf t pt"
    unfolding user_wf_def
  proof (intro conjI allI impI)
    show "pt_wf t pt" by (rule tb(3))
  next
    fix va' f'
    assume "user_frame (mem t) pt 0 va' = Some f'"
    then have "f' = f \<or> user_frame (mem s) pt 0 va' = Some f'" by (auto simp: uf split: if_splits)
    then have "heap_page s f'" "f' \<notin> free_pages s" "f' \<notin> tables (mem s) pt"
      using f fs user_wfD [OF s(2)] by blast+
    then show "heap_page t f'" "f' \<notin> free_pages t" "f' \<notin> tables (mem t) pt"
      unfolding tb(1) h using tb(2) by blast+
  next
    fix va' va'' f'
    assume "user_frame (mem t) pt 0 va' = Some f' \<and> user_frame (mem t) pt 0 va'' = Some f'"
    then have "user_frame (mem s) pt 0 va' = Some f' \<or> PGROUNDDOWN va' = va \<and> f' = f"
      "user_frame (mem s) pt 0 va'' = Some f' \<or> PGROUNDDOWN va'' = va \<and> f' = f"
      by (auto simp: uf split: if_splits)
    then show "PGROUNDDOWN va' = PGROUNDDOWN va''"
      using user_wfD(4) [OF s(2), of 0 va'' f' 0 va'] fs(2) [of va'] fs(2) [of va''] by (elim disjE) auto
  qed
  have "(\<exists>va'. user_frame (mem t) pt 0 va' = Some f') \<longleftrightarrow>
      ((flags OR PTE_V) AND rights 0 = rights 0 \<and> f' = f) \<or> (\<exists>va'. user_frame (mem s) pt 0 va' = Some f')" for f'
  proof -
    have "\<exists>va'. PGROUNDDOWN va' = va" using va(1) by (auto simp: page_aligned_iff)
    then show ?thesis unfolding uf using no by (metis option.distinct(1) option.inject)
  qed
  then show "frames (mem t) pt = (if (flags OR PTE_V) AND rights 0 = rights 0
    then insert f (frames (mem s) pt) else frames (mem s) pt)" by (auto simp: frames_def)
qed

text \<open>What the runs of the loops say, for the two directions.\<close>

lemma cin_copied:
  assumes "cin.copied s t pt k va j" "j \<le> 4294967296"
  shows "t = s\<lparr>mem := mem t\<rparr>" "\<not> in_block k j a \<Longrightarrow> mem t a = mem s a"
    "i < j \<Longrightarrow> \<exists>a. user_addr (mem s) pt PTE_R (va + of_nat i) = Some a \<and> mem t (k + of_nat i) = mem s a"
proof -
  show "t = s\<lparr>mem := mem t\<rparr>" using assms(1) by (simp add: cin.copied_def)
  show "\<exists>a. user_addr (mem s) pt PTE_R (va + of_nat i) = Some a \<and> mem t (k + of_nat i) = mem s a" if "i < j"
    using assms(1) that by (auto simp: cin.copied_def cin.mapped_def cin.to_addr_def cin.from_addr_def cin.uaddr_def)
  assume "\<not> in_block k j a"
  then have "\<forall>i<j. a \<noteq> k + of_nat i" using in_block_offset [OF _ assms(2)] by auto
  then show "mem t a = mem s a" using assms(1) by (simp add: cin.copied_def cin.to_addr_def)
qed

lemma cout_copied:
  assumes "cout.copied s t pt k va j"
  shows "t = s\<lparr>mem := mem t\<rparr>" "(\<And>i. i < j \<Longrightarrow> user_addr (mem s) pt PTE_W (va + of_nat i) \<noteq> Some a) \<Longrightarrow> mem t a = mem s a"
    "i < j \<Longrightarrow> \<exists>a. user_addr (mem s) pt PTE_W (va + of_nat i) = Some a \<and> mem t a = mem s (k + of_nat i)"
proof -
  show "t = s\<lparr>mem := mem t\<rparr>" using assms(1) by (simp add: cout.copied_def)
  have u: "user_addr (mem s) pt PTE_W (va + of_nat i) = Some (cout.uaddr (mem s) pt va i)" if "i < j" for i
    using assms that by (auto simp: cout.copied_def cout.mapped_def cout.uaddr_def)
  then show "\<exists>a. user_addr (mem s) pt PTE_W (va + of_nat i) = Some a \<and> mem t a = mem s (k + of_nat i)" if "i < j"
    using assms that by (auto simp: cout.copied_def cout.to_addr_def cout.from_addr_def)
  assume "\<And>i. i < j \<Longrightarrow> user_addr (mem s) pt PTE_W (va + of_nat i) \<noteq> Some a"
  then have "\<forall>i<j. a \<noteq> cout.uaddr (mem s) pt va i" using u by auto
  then show "mem t a = mem s a" using assms by (simp add: cout.copied_def cout.to_addr_def)
qed

text \<open>One user page, readable and writable at 0x1000, with given contents, for concrete runs.\<close>

lemma small_user:
  fixes c :: memory
  obtains s pt where "mem_ready (s :: memst)" "user_wf s pt" "tables (mem s) pt \<subseteq> {0x87FFE000, 0x87FFF000}"
    "\<forall>va. \<forall>need\<in>{0, PTE_R, PTE_W}.
      user_frame (mem s) pt need va = (if PGROUNDDOWN va = 0x1000 then Some 0x87FFD000 else None)"
    "\<forall>a. PGROUNDDOWN a = 0x87FFD000 \<longrightarrow> mem s a = c a"
proof -
  let ?f = "0x87FFD000 :: u32" and ?fl = "PTE_R OR PTE_W OR PTE_U"
  have Min: "Min (free_pages small_mem) = ?f" by (simp add: small_mem_free)
  have ne: "free_pages small_mem \<noteq> {}" by (simp add: small_mem_free)
  obtain p s1 where s1: "kalloc small_mem = Ok p s1" "mem_ready s1" "heap_page s1 = heap_page small_mem"
    "free_pages s1 = free_pages small_mem - {p}"
    using kalloc_page [OF small_mem_ready ne] .
  have "p = ?f" using kalloc_spec(1) [OF small_mem_ready ne] s1(1) unfolding Min by auto
  with s1(4) have s14: "free_pages s1 = {0x87FFE000, 0x87FFF000}" by (auto simp: small_mem_free)
  have "free_pages s1 \<noteq> {}" using s14 by simp
  then obtain pt s2 where s2: "pt \<in> free_pages s1" "mem_ready s2" "pt_wf s2 pt" "walk (mem s2) pt = (\<lambda>_. None)"
    "tables (mem s2) pt = {pt}" "free_pages s2 = free_pages s1 - {pt}" "noise (s1\<lparr>mem := mem s2, mem_bitmap := mem_bitmap s2\<rparr>) s2"
    using ptcreate_spec(2) [OF s1(2)] by blast
  have f2: "heap_page s2 ?f" "?f \<notin> free_pages s2" "?f \<notin> owned (mem s2) pt"
    using noise_ready(3) [OF s2(7)] s1(3) free_pages_heap [OF small_mem_ready, of ?f] s14 s2(1,4,5,6)
    by (auto simp: small_mem_free owned_def frames_def user_frame_def)
  have wf2: "user_wf s2 pt" using s2(3,4) by (simp add: user_wf_def user_frame_def)
  have al: "page_aligned 0x1000" "page_aligned ?f" by (simp_all add: page_aligned_def)
  have un: "walk (mem s2) pt 0x1000 = None" using s2(4) by simp
  have fl: "flag_bits ?fl" by (simp add: flag_bits_def PTE_R_def PTE_W_def PTE_U_def)
  have ne: "free_pages s2 \<noteq> {}" using s14 s2(1,6) by auto
  obtain s3 where s3: "pt_grow s2 s3 pt" "walk (mem s3) pt = map_page (walk (mem s2) pt) 0x1000 (PA2PTE ?f OR ?fl OR PTE_V)"
    using mappage_spec [OF s2(2,3) al un, of ?fl] ne by (metis (no_types, lifting))
  note wf3 = map_user_wf [OF s2(2) wf2 s3(1) f2 fl al(1) un s3(2)]
  let ?m = "\<lambda>a. if PGROUNDDOWN a = ?f then c a else mem s3 a"
  have g: "mem_ready s3" "pt_wf s3 pt" "tables (mem s3) pt \<subseteq> {pt} \<union> free_pages s2"
    using s3(1) s2(5) unfolding pt_grow_def by blast+
  then have tb: "tables (mem s3) pt \<subseteq> {0x87FFE000, 0x87FFF000}" using s14 s2(1,6) by auto
  then have "?m x = mem s3 x" if "PGROUNDDOWN x \<in> tables (mem s3) pt" for x using that by auto
  note m = user_wf_upd [OF g(2) this]
  have "user_frame (mem s3) pt need va = (if PGROUNDDOWN va = 0x1000 then Some ?f else None)"
    if need: "need \<in> {0, PTE_R, PTE_W}" for va need
  proof -
    have "flag_bits need" "(?fl OR PTE_V) AND rights need = rights need"
      using need by (auto simp: flag_bits_def rights_def PTE_R_def PTE_W_def PTE_U_def PTE_V_def)
    then show ?thesis
      using user_frame_map_page [OF fl _ al(2) s3(2), of need va] s2(4) by (simp add: user_frame_def)
  qed
  then show ?thesis
    using that [of "s3\<lparr>mem := ?m\<rparr>" pt] m g(1) wf3(1) tb by simp
qed

section \<open>Properties\<close>

text \<open>
  C24 (functional). \<open>copyin\<close> copies user bytes up to the first one the user may not read:
  with all of them readable it returns 0, otherwise -1. The buffer then holds the bytes of
  user memory, page borders included, and nothing else has changed.
\<close>

theorem copyin_correct:
  assumes "mem_ready s" "user_wf s pt" "kernel_buf s pt dst (unat len)"
  shows "\<exists>t j. copyin pt dst src_va len s = Ok (if j = unat len then 0 else -1) t \<and> j \<le> unat len
    \<and> t = s\<lparr>mem := mem t\<rparr>
    \<and> (\<forall>i<j. \<exists>a. user_addr (mem s) pt PTE_R (src_va + of_nat i) = Some a \<and> mem t (dst + of_nat i) = mem s a)
    \<and> (j < unat len \<longrightarrow> user_addr (mem s) pt PTE_R (src_va + of_nat j) = None)
    \<and> (\<forall>a. \<not> in_block dst j a \<longrightarrow> mem t a = mem s a)"
proof -
  obtain t j where t: "copyin pt dst src_va len s = Ok (if j = unat len then 0 else -1) t" "j \<le> unat len"
    "j < unat len \<longrightarrow> \<not> cin.mapped (mem s) pt src_va j" "cin.copied s t pt dst src_va j"
    using cin.run_spec [OF assms] by blast
  moreover have "j \<le> 4294967296" using t(2) unat_u32_lt [of len] by simp
  ultimately show ?thesis
    using cin_copied [OF t(4)] by (intro exI [of _ t] exI [of _ j]) (simp add: cin.mapped_def)
qed

text \<open>
  C25 (safety). \<open>copyout\<close> writes user memory up to the first byte the user may not write, 0 if
  there is none and -1 otherwise; no byte but those changes, so neither the page table nor a
  read-only page does, and the address space stays what it was.
\<close>

theorem copyout_correct:
  assumes "mem_ready s" "user_wf s pt" "kernel_buf s pt src (unat len)"
  shows "\<exists>t j. copyout pt dst_va src len s = Ok (if j = unat len then 0 else -1) t \<and> j \<le> unat len
    \<and> t = s\<lparr>mem := mem t\<rparr>
    \<and> (\<forall>i<j. \<exists>a. user_addr (mem s) pt PTE_W (dst_va + of_nat i) = Some a \<and> mem t a = mem s (src + of_nat i))
    \<and> (j < unat len \<longrightarrow> user_addr (mem s) pt PTE_W (dst_va + of_nat j) = None)
    \<and> (\<forall>a. (\<forall>i<j. user_addr (mem s) pt PTE_W (dst_va + of_nat i) \<noteq> Some a) \<longrightarrow> mem t a = mem s a)
    \<and> user_wf t pt \<and> translate (mem t) pt = translate (mem s) pt"
proof -
  obtain t j where t: "copyout pt dst_va src len s = Ok (if j = unat len then 0 else -1) t" "j \<le> unat len"
    "j < unat len \<longrightarrow> \<not> cout.mapped (mem s) pt dst_va j" "cout.copied s t pt src dst_va j"
    using cout.run_spec [OF assms] by blast
  note c = cout_copied [OF t(4)]
  have pt: "pt_wf s pt" using assms(2) by (simp add: user_wf_def)
  have same: "mem t x = mem s x" if "PGROUNDDOWN x \<in> tables (mem s) pt" for x
    using that user_addr_nonzero(2) [OF assms(1,2)] by (intro c(2)) auto
  then have "translate (mem t) pt = translate (mem s) pt"
    using walk_cong(4) [OF pt_wfD(2) [OF pt], of "mem s" "mem t"] by (simp add: translate_def fun_eq_iff)
  moreover have "user_wf t pt" using user_wf_upd(4) [OF pt same] assms(2) c(1) by simp
  ultimately show ?thesis
    using t(1-3) c by (intro exI [of _ t] exI [of _ j]) (simp add: cout.mapped_def)
qed

text \<open>
  C26 (functional). \<open>copyinstr\<close> finds the string at a user address: if a NUL comes within \<open>maxn\<close>
  readable bytes it returns 0 with the string and its NUL in the buffer, otherwise -1; either
  way it writes nothing outside the buffer.
\<close>

theorem copyinstr_correct:
  assumes "mem_ready s" "user_wf s pt" "kernel_buf s pt dst (unat maxn)"
  shows "\<exists>r t. copyinstr pt dst src_va maxn s = Ok r t \<and> t = s\<lparr>mem := mem t\<rparr>
    \<and> (\<forall>a. \<not> in_block dst (unat maxn) a \<longrightarrow> mem t a = mem s a)
    \<and> (if \<exists>j<unat maxn. user_string (mem s) pt src_va j
       then r = 0 \<and> (\<forall>j<unat maxn. user_string (mem s) pt src_va j \<longrightarrow>
         (\<forall>i\<le>j. \<exists>a. user_addr (mem s) pt PTE_R (src_va + of_nat i) = Some a \<and> mem t (dst + of_nat i) = mem s a))
       else r = -1)"
proof -
  obtain r t j where t: "copyinstr pt dst src_va maxn s = Ok r t" "cin.copied s t pt dst src_va j"
    "str_result (mem s) pt src_va (unat maxn) r j"
    using copyinstr_loop [OF assms, of src_va] unfolding copyinstr_def by blast
  have j: "j \<le> unat maxn" "j \<le> 4294967296" using t(3) unat_u32_lt [of maxn] by (auto simp: str_result_def)
  note c = cin_copied [OF t(2) j(2)]
  have out: "mem t a = mem s a" if "\<not> in_block dst (unat maxn) a" for a
    using that j(1) by (intro c(2)) (auto simp: in_block_def)
  have "if \<exists>j<unat maxn. user_string (mem s) pt src_va j
       then r = 0 \<and> (\<forall>j<unat maxn. user_string (mem s) pt src_va j \<longrightarrow>
         (\<forall>i\<le>j. \<exists>a. user_addr (mem s) pt PTE_R (src_va + of_nat i) = Some a \<and> mem t (dst + of_nat i) = mem s a))
       else r = -1"
  proof (cases "r = 0")
    case True
    then obtain l where l: "j = Suc l" "user_string (mem s) pt src_va l"
      using t(3) by (cases j) (auto simp: str_result_def)
    have "\<forall>i\<le>l. \<exists>a. user_addr (mem s) pt PTE_R (src_va + of_nat i) = Some a \<and> mem t (dst + of_nat i) = mem s a"
      using c(3) l(1) by (simp add: less_Suc_eq_le)
    moreover have "l < unat maxn" using l(1) j(1) by simp
    ultimately show ?thesis using True l(2) user_string_unique [OF l(2)] by metis
  next
    case False
    have "\<not> user_string (mem s) pt src_va l" if "l < unat maxn" for l
    proof
      assume u: "user_string (mem s) pt src_va l"
      then have "\<not> l < j" "\<not> j \<le> l" using t(3) False that by (auto simp: str_result_def user_string_iff)
      then show False by simp
    qed
    then show ?thesis using False t(3) by (auto simp: str_result_def)
  qed
  with t(1) c(1) out show ?thesis by blast
qed

text \<open>
  Concrete runs: two bytes at 0x1FFF, the second one beyond the only user page.
\<close>

lemma small_buf:
  assumes "tables (mem s) pt \<subseteq> {0x87FFE000, 0x87FFF000}"
    "\<And>va. user_frame (mem s) pt 0 va = (if PGROUNDDOWN va = 0x1000 then Some 0x87FFD000 else None)" "n \<le> 4096"
  shows "kernel_buf s pt 0x80000000 n"
proof -
  have p: "PGROUNDDOWN a = 0x80000000" if "in_block 0x80000000 n a" for a
    using that assms(3) in_page_iff [of "0x80000000" a] by (auto simp: in_block_def page_aligned_def)
  have "0x80000000 \<notin> tables (mem s) pt" using assms(1) by auto
  moreover have "user_frame (mem s) pt 0 va \<noteq> Some 0x80000000" for va unfolding assms(2) by simp
  ultimately show ?thesis using assms(3) p unfolding kernel_buf_def by simp
qed

lemma small_run:
  fixes c :: memory
  obtains s pt where "mem_ready (s :: memst)" "user_wf s pt" "\<forall>n\<le>4096. kernel_buf s pt 0x80000000 n"
    "\<forall>need\<in>{PTE_R, PTE_W}. user_addr (mem s) pt need 0x1FFF = Some 0x87FFDFFF"
    "\<forall>need\<in>{PTE_R, PTE_W}. user_addr (mem s) pt need 0x2000 = None"
    "mem s 0x87FFDFFF = c 0x87FFDFFF"
proof -
  obtain s pt where s: "mem_ready (s :: memst)" "user_wf s pt" "tables (mem s) pt \<subseteq> {0x87FFE000, 0x87FFF000}"
    "\<forall>va. \<forall>need\<in>{0, PTE_R, PTE_W}.
      user_frame (mem s) pt need va = (if PGROUNDDOWN va = 0x1000 then Some 0x87FFD000 else None)"
    "\<forall>a. PGROUNDDOWN a = 0x87FFD000 \<longrightarrow> mem s a = c a"
    using small_user [of c] .
  have pg: "PGROUNDDOWN 0x1FFF = 0x1000" "PGROUNDDOWN 0x2000 = 0x2000" "PGROUNDDOWN 0x87FFDFFF = 0x87FFD000"
    by (simp_all add: PGROUNDDOWN_def PAGE_SIZE_def)
  have "user_addr (mem s) pt need 0x1FFF = Some 0x87FFDFFF" "user_addr (mem s) pt need 0x2000 = None"
    if "need \<in> {PTE_R, PTE_W}" for need
    using s(4) that by (auto simp: user_addr_def pg)
  moreover have "kernel_buf s pt 0x80000000 n" if "n \<le> 4096" for n
    using s(4) that by (intro small_buf [OF s(3)]) auto
  ultimately show ?thesis using that [of s pt] s(1,2,5) pg(3) by simp
qed

theorem copyin_correct_witness:
  "\<exists>pt (s :: memst) t. mem_ready s \<and> user_wf s pt \<and> copyin pt 0x80000000 0x1FFF 2 s = Ok (-1) t \<and> mem t 0x80000000 = 7"
proof -
  obtain s pt where s: "mem_ready (s :: memst)" "user_wf s pt" "\<forall>n\<le>4096. kernel_buf s pt 0x80000000 n"
    "\<forall>need\<in>{PTE_R, PTE_W}. user_addr (mem s) pt need 0x1FFF = Some 0x87FFDFFF"
    "\<forall>need\<in>{PTE_R, PTE_W}. user_addr (mem s) pt need 0x2000 = None" "mem s 0x87FFDFFF = 7"
    using small_run [of "\<lambda>_. 7"] .
  obtain t j where t: "copyin pt 0x80000000 0x1FFF 2 s = Ok (if j = 2 then 0 else -1) t" "j \<le> 2"
    "\<forall>i<j. \<exists>a. user_addr (mem s) pt PTE_R (0x1FFF + of_nat i) = Some a \<and> mem t (0x80000000 + of_nat i) = mem s a"
    "j < 2 \<longrightarrow> user_addr (mem s) pt PTE_R (0x1FFF + of_nat j) = None"
    using copyin_correct [OF s(1,2), of "0x80000000" 2 "0x1FFF"] s(3) by auto
  have "j \<noteq> 0" using t(4) s(4) by (intro notI) simp
  moreover have "j \<noteq> 2" using t(3) [rule_format, of 1] s(5) by (intro notI) simp
  ultimately have "j = 1" using t(2) by simp
  then show ?thesis using s t(1) t(3) [rule_format, of 0] by (intro exI [of _ pt] exI [of _ s] exI [of _ t]) simp
qed

theorem copyout_correct_witness:
  "\<exists>pt (s :: memst) t. mem_ready s \<and> user_wf s pt \<and> copyout pt 0x1FFF 0x80000000 2 s = Ok (-1) t
    \<and> mem t 0x87FFDFFF = mem s 0x80000000 \<and> mem t 0x87FFE000 = mem s 0x87FFE000"
proof -
  obtain s pt where s: "mem_ready (s :: memst)" "user_wf s pt" "\<forall>n\<le>4096. kernel_buf s pt 0x80000000 n"
    "\<forall>need\<in>{PTE_R, PTE_W}. user_addr (mem s) pt need 0x1FFF = Some 0x87FFDFFF"
    "\<forall>need\<in>{PTE_R, PTE_W}. user_addr (mem s) pt need 0x2000 = None" "mem s 0x87FFDFFF = 7"
    using small_run [of "\<lambda>_. 7"] .
  obtain t j where t: "copyout pt 0x1FFF 0x80000000 2 s = Ok (if j = 2 then 0 else -1) t" "j \<le> 2"
    "\<forall>i<j. \<exists>a. user_addr (mem s) pt PTE_W (0x1FFF + of_nat i) = Some a \<and> mem t a = mem s (0x80000000 + of_nat i)"
    "j < 2 \<longrightarrow> user_addr (mem s) pt PTE_W (0x1FFF + of_nat j) = None"
    "\<forall>a. (\<forall>i<j. user_addr (mem s) pt PTE_W (0x1FFF + of_nat i) \<noteq> Some a) \<longrightarrow> mem t a = mem s a"
    using copyout_correct [OF s(1,2), of "0x80000000" 2 "0x1FFF"] s(3) by auto
  have "j \<noteq> 0" using t(4) s(4) by (intro notI) simp
  moreover have "j \<noteq> 2" using t(3) [rule_format, of 1] s(5) by (intro notI) simp
  ultimately have "j = 1" using t(2) by simp
  then show ?thesis using s t(1) t(3) [rule_format, of 0] t(5) [rule_format, of "0x87FFE000"]
    by (intro exI [of _ pt] exI [of _ s] exI [of _ t]) simp
qed

theorem copyinstr_correct_witness:
  "(\<exists>pt (s :: memst) t. mem_ready s \<and> user_wf s pt \<and> copyinstr pt 0x80000000 0x1FFF 9 s = Ok 0 t \<and> mem t 0x80000000 = 0)
    \<and> (\<exists>pt (s :: memst) t. mem_ready s \<and> user_wf s pt \<and> copyinstr pt 0x80000000 0x1FFF 9 s = Ok (-1) t)"
proof (rule conjI)
  obtain s pt where s: "mem_ready (s :: memst)" "user_wf s pt" "\<forall>n\<le>4096. kernel_buf s pt 0x80000000 n"
    "\<forall>need\<in>{PTE_R, PTE_W}. user_addr (mem s) pt need 0x1FFF = Some 0x87FFDFFF"
    "\<forall>need\<in>{PTE_R, PTE_W}. user_addr (mem s) pt need 0x2000 = None" "mem s 0x87FFDFFF = 0"
    using small_run [of "\<lambda>_. 0"] .
  have "user_string (mem s) pt 0x1FFF 0" using s(4,6) by (simp add: user_string_def)
  then have ex: "\<exists>j<unat (9 :: u32). user_string (mem s) pt 0x1FFF j" by (intro exI [of _ 0]) simp
  obtain t where t: "copyinstr pt 0x80000000 0x1FFF 9 s = Ok 0 t"
    "\<forall>j<9. user_string (mem s) pt 0x1FFF j \<longrightarrow>
      (\<forall>i\<le>j. \<exists>a. user_addr (mem s) pt PTE_R (0x1FFF + of_nat i) = Some a \<and> mem t (0x80000000 + of_nat i) = mem s a)"
    using copyinstr_correct [OF s(1,2), of "0x80000000" 9 "0x1FFF"] s(3) ex by auto
  then have "mem t 0x80000000 = 0"
    using \<open>user_string (mem s) pt 0x1FFF 0\<close> s(4,6) by (auto dest!: spec [of _ 0])
  with s(1,2) t(1) show "\<exists>pt (s :: memst) t. mem_ready s \<and> user_wf s pt \<and> copyinstr pt 0x80000000 0x1FFF 9 s = Ok 0 t \<and> mem t 0x80000000 = 0"
    by blast
next
  obtain s pt where s: "mem_ready (s :: memst)" "user_wf s pt" "\<forall>n\<le>4096. kernel_buf s pt 0x80000000 n"
    "\<forall>need\<in>{PTE_R, PTE_W}. user_addr (mem s) pt need 0x1FFF = Some 0x87FFDFFF"
    "\<forall>need\<in>{PTE_R, PTE_W}. user_addr (mem s) pt need 0x2000 = None" "mem s 0x87FFDFFF = 7"
    using small_run [of "\<lambda>_. 7"] .
  have "\<not> user_string (mem s) pt 0x1FFF j" for j
  proof
    assume u: "user_string (mem s) pt 0x1FFF j"
    then have "j \<noteq> 0" using s(4,6) by (auto simp: user_string_def)
    then have "user_addr (mem s) pt PTE_R (0x1FFF + of_nat 1) \<noteq> None" using u unfolding user_string_def by (metis One_nat_def Suc_leI neq0_conv option.distinct(1))
    then show False using s(5) by simp
  qed
  then show "\<exists>pt (s :: memst) t. mem_ready s \<and> user_wf s pt \<and> copyinstr pt 0x80000000 0x1FFF 9 s = Ok (-1) t"
    using copyinstr_correct [OF s(1,2), of "0x80000000" 9 "0x1FFF"] s(3) s(1,2) by auto
qed

end
