(* ===== verification/Uvm.thy ===== *)
theory Uvm
  imports User_Copy
begin

text \<open>
  Growing, shrinking and freeing user address spaces (\<^verbatim>\<open>kernel/vm.c\<close>: \<open>uvmunmap\<close>, \<open>freewalk\<close>,
  \<open>uvmfree\<close>, \<open>uvmalloc\<close>). The specification counts pages: an address space owns its tables and
  the frames of its user pages, every other heap page is free or belongs to someone else, and
  every operation moves pages between \<open>owned\<close> and \<open>free_pages\<close> without losing one or touching a
  page of someone else (\<open>user_step\<close>).
\<close>

section \<open>Operations\<close>

definition uvmunmap_body :: "u32 \<Rightarrow> u32 \<Rightarrow> bool \<Rightarrow> u32 \<Rightarrow> 'a memst_scheme \<Rightarrow> (u32 + unit, 'a memst_scheme) res" where
  "uvmunmap_body pt lim free p s =
     (if p < lim
      then kbind (find_pte pt p False s) (\<lambda>pte s.
        if pte \<noteq> 0 \<and> load32 (mem s) pte AND PTE_V \<noteq> 0
        then kbind (if free then kfree (PTE2PA (load32 (mem s) pte)) s else Ok () s) (\<lambda>_ s.
          Ok (Inl (p + PAGE_SIZE)) (s\<lparr>mem := store32 pte 0 (mem s)\<rparr>))
        else Ok (Inl (p + PAGE_SIZE)) s)
      else Ok (Inr ()) s)"

definition uvmunmap :: "u32 \<Rightarrow> u32 \<Rightarrow> u32 \<Rightarrow> bool \<Rightarrow> 'a memst_scheme \<Rightarrow> (unit, 'a memst_scheme) res" where
  "uvmunmap pt va sz free s =
     (if va mod PAGE_SIZE \<noteq> 0 \<or> sz mod PAGE_SIZE \<noteq> 0 then panic ''uvmunmap: not aligned'' s
      else kloop (uvmunmap_body pt (va + sz) free) va s)"

definition freewalk_body :: "u32 \<Rightarrow> nat \<Rightarrow> 'a memst_scheme \<Rightarrow> (nat + unit, 'a memst_scheme) res" where
  "freewalk_body pt i s =
     (if i < 1024
      then let pte1 = load32 (mem s) (slot pt (of_nat i))
           in if pte1 AND PTE_V \<noteq> 0
              then kbind (kfree (PTE2PA pte1) s) (\<lambda>_ s. Ok (Inl (Suc i)) s)
              else Ok (Inl (Suc i)) s
      else Ok (Inr ()) s)"

definition freewalk :: "u32 \<Rightarrow> 'a memst_scheme \<Rightarrow> (unit, 'a memst_scheme) res" where
  "freewalk pt s = kbind (kloop (freewalk_body pt) 0 s) (\<lambda>_ s. kfree pt s)"

definition uvmfree :: "u32 \<Rightarrow> u32 \<Rightarrow> 'a memst_scheme \<Rightarrow> (unit, 'a memst_scheme) res" where
  "uvmfree pt sz s =
     (if sz mod PAGE_SIZE \<noteq> 0 then panic ''uvmfree: size not aligned'' s
      else kbind (if sz > USER_BASE then uvmunmap pt USER_BASE (sz - USER_BASE) True s else Ok () s) (\<lambda>_ s.
           kbind (uvmunmap pt (USER_STACK_TOP - PAGE_SIZE) PAGE_SIZE True s) (\<lambda>_ s.
           freewalk pt s)))"

definition uvmalloc_body :: "u32 \<Rightarrow> u32 \<Rightarrow> u32 \<Rightarrow> u32 \<Rightarrow> u32 \<Rightarrow> 'a memst_scheme \<Rightarrow> (u32 + u32, 'a memst_scheme) res" where
  "uvmalloc_body pt start newsz xperm p s =
     (if p < newsz
      then kbind (kalloc s) (\<lambda>mem s.
        if mem = 0 then kbind (uvmunmap pt start (p - start) True s) (\<lambda>_ s. Ok (Inr 0) s)
        else kbind (memset mem 0 PAGE_SIZE s) (\<lambda>_ s.
          kbind (mappages pt p mem PAGE_SIZE (PTE_R OR PTE_U OR xperm) s) (\<lambda>r s.
            if r \<noteq> 0
            then kbind (kfree mem s) (\<lambda>_ s. kbind (uvmunmap pt start (p - start) True s) (\<lambda>_ s. Ok (Inr 0) s))
            else Ok (Inl (p + PAGE_SIZE)) s)))
      else Ok (Inr newsz) s)"

definition uvmalloc :: "u32 \<Rightarrow> u32 \<Rightarrow> u32 \<Rightarrow> u32 \<Rightarrow> 'a memst_scheme \<Rightarrow> (u32, 'a memst_scheme) res" where
  "uvmalloc pt oldsz newsz xperm s =
     (if oldsz > newsz then Ok oldsz s
      else kloop (uvmalloc_body pt (PGROUNDUP oldsz) newsz xperm) (PGROUNDUP oldsz) s)"

section \<open>Steps that change memory\<close>

text \<open>
  \<open>mem_step s t A\<close>: from \<open>s\<close> to \<open>t\<close> the kernel wrote only to pages of \<open>A\<close>, to the bitmap and to
  the console, and the allocator can be used in \<open>t\<close>.
\<close>

definition mem_step :: "'a memst_scheme \<Rightarrow> 'a memst_scheme \<Rightarrow> u32 set \<Rightarrow> bool" where
  "mem_step s t A \<longleftrightarrow> noise (s\<lparr>mem := mem t, mem_bitmap := mem_bitmap t\<rparr>) t \<and> mem_ready t
     \<and> (\<forall>x. PGROUNDDOWN x \<notin> A \<longrightarrow> mem t x = mem s x)"

lemma mem_stepD:
  assumes "mem_step s t A"
  shows "mem_ready t" "heap_page t = heap_page s" "PGROUNDDOWN x \<notin> A \<Longrightarrow> mem t x = mem s x"
  using assms noise_ready(3) [of "s\<lparr>mem := mem t, mem_bitmap := mem_bitmap t\<rparr>" t] by (auto simp: mem_step_def)

lemma mem_step_refl: "mem_ready s \<Longrightarrow> mem_step s s A"
  by (simp add: mem_step_def)

lemma mem_step_mono: "mem_step s t A \<Longrightarrow> A \<subseteq> B \<Longrightarrow> mem_step s t B"
  by (auto simp: mem_step_def)

lemma mem_step_trans: "mem_step s t A \<Longrightarrow> mem_step t u B \<Longrightarrow> mem_step s u (A \<union> B)"
proof -
  assume st: "mem_step s t A" and tu: "mem_step t u B"
  have "noise (s\<lparr>mem := mem u, mem_bitmap := mem_bitmap u\<rparr>) (t\<lparr>mem := mem u, mem_bitmap := mem_bitmap u\<rparr>)"
    using st noise_upd_both [of "s\<lparr>mem := mem t, mem_bitmap := mem_bitmap t\<rparr>" t "mem_bitmap u" "mem u"]
    by (simp add: mem_step_def)
  moreover have "noise (t\<lparr>mem := mem u, mem_bitmap := mem_bitmap u\<rparr>) u" using tu by (simp add: mem_step_def)
  ultimately have "noise (s\<lparr>mem := mem u, mem_bitmap := mem_bitmap u\<rparr>) u" by (rule noise_trans)
  then show ?thesis using st tu unfolding mem_step_def by (metis Un_iff)
qed

lemma mem_step_noise: "noise s t \<Longrightarrow> mem_ready s \<Longrightarrow> mem_step s t A"
  by (simp add: mem_step_def noise_ready noise_fields noise_memst)

lemma mem_step_write: "mem_ready s \<Longrightarrow> (\<And>x. PGROUNDDOWN x \<notin> A \<Longrightarrow> m x = mem s x) \<Longrightarrow> mem_step s (s\<lparr>mem := m\<rparr>) A"
  by (simp add: mem_step_def)

lemma mem_step_rewrite:
  assumes "mem_step s t A" "\<And>x. PGROUNDDOWN x \<notin> B \<Longrightarrow> m' x = m x"
  shows "mem_step (s\<lparr>mem := m\<rparr>) (t\<lparr>mem := m'\<rparr>) B"
  using assms noise_upd_both [of "s\<lparr>mem := mem t, mem_bitmap := mem_bitmap t\<rparr>" t "mem_bitmap t" m']
  by (simp add: mem_step_def)

lemma mem_step_grow: "pt_grow s t pt \<Longrightarrow> mem_step s t (tables (mem t) pt)"
  by (simp add: pt_grow_def mem_step_def)

text \<open>The allocator in these terms.\<close>

lemma kalloc_step:
  assumes "mem_ready s"
  obtains (none) t where "kalloc s = Ok 0 t" "free_pages s = {}" "noise s t"
  | (page) p t where "kalloc s = Ok p t" "p \<noteq> 0" "p \<in> free_pages s" "heap_page s p" "mem_step s t {}"
      "mem t = mem s" "free_pages t = free_pages s - {p}"
proof (cases "free_pages s = {}")
  case True
  then show ?thesis using kalloc_spec(2) [OF assms] none by blast
next
  case False
  obtain p t where p: "kalloc s = Ok p t" "p \<noteq> 0" "p \<in> free_pages s" "heap_page s p"
    "noise (s\<lparr>mem_bitmap := mem_bitmap t\<rparr>) t" "mem_ready t" "free_pages t = free_pages s - {p}"
    using kalloc_page [OF assms False] .
  moreover have m: "mem t = mem s" using noise_fields [OF p(5)] by simp
  moreover have "mem_step s t {}" using p(5,6) m by (simp add: mem_step_def)
  ultimately show ?thesis using page by blast
qed

lemma kfree_step:
  assumes "mem_ready s" "heap_page s p" "p \<notin> free_pages s"
  obtains t where "kfree p s = Ok () t" "mem_step s t {p}" "mem t = fill_block p 4096 0 (mem s)"
    "free_pages t = insert p (free_pages s)"
proof -
  let ?u = "s\<lparr>mem := fill_block p 4096 0 (mem s), mem_bitmap := (mem_bitmap s)(page_no p := 1)\<rparr>"
  obtain t where t: "kfree p s = Ok () t" "noise ?u t" using kfree_spec [OF assms] by blast
  have al: "page_aligned p" "ram_page p" using heap_page_facts [OF assms(2,1)] assms(2) by (simp_all add: heap_page_def)
  have m: "mem t = fill_block p 4096 0 (mem s)" "mem_bitmap t = (mem_bitmap s)(page_no p := 1)"
    using noise_fields [OF t(2)] noise_memst [OF t(2)] by simp_all
  have "mem_ready t" using noise_ready(1) [OF t(2)] alloc_wf_upd(2) [OF assms(1,2)] by simp
  then have "mem_step s t {p}" using t(2) m al by (auto simp: mem_step_def fill_page)
  moreover have "free_pages t = insert p (free_pages s)"
    using noise_ready(2) [OF t(2)] free_pages_upd(2) [OF al(2), of 1 s] by simp
  ultimately show ?thesis using that t(1) m(1) by blast
qed

section \<open>Steps of an address space\<close>

text \<open>
  \<open>user_step s t pt\<close>: only pages of \<open>pt\<close> and free pages were written, and every page that was
  owned by \<open>pt\<close> or free still is one or the other.
\<close>

definition user_step :: "'a memst_scheme \<Rightarrow> 'a memst_scheme \<Rightarrow> u32 \<Rightarrow> bool" where
  "user_step s t pt \<longleftrightarrow> mem_step s t (owned (mem s) pt \<union> free_pages s) \<and> user_wf t pt
     \<and> owned (mem t) pt \<union> free_pages t = owned (mem s) pt \<union> free_pages s"

lemma user_stepD:
  assumes "user_step s t pt"
  shows "mem_step s t (owned (mem s) pt \<union> free_pages s)" "mem_ready t" "user_wf t pt" "heap_page t = heap_page s"
    "owned (mem t) pt \<union> free_pages t = owned (mem s) pt \<union> free_pages s"
  using assms mem_stepD [of s t] unfolding user_step_def by blast+

lemma user_step_trans: "user_step s t pt \<Longrightarrow> user_step t u pt \<Longrightarrow> user_step s u pt"
proof -
  assume st: "user_step s t pt" and tu: "user_step t u pt"
  have "mem_step s u (owned (mem s) pt \<union> free_pages s)"
    using mem_step_trans [OF user_stepD(1) [OF st] user_stepD(1) [OF tu]] user_stepD(5) [OF st] by simp
  then show ?thesis using user_stepD(5) [OF st] user_stepD(3,5) [OF tu] by (simp add: user_step_def)
qed

lemma user_step_refl: "mem_ready s \<Longrightarrow> user_wf s pt \<Longrightarrow> user_step s s pt"
  by (simp add: user_step_def mem_step_refl)

lemma user_wf_noise: "noise s t \<Longrightarrow> user_wf t pt = user_wf s pt"
  by (simp add: user_wf_def pt_wf_noise noise_ready noise_fields)

lemma user_step_noise: "noise s t \<Longrightarrow> mem_ready s \<Longrightarrow> user_wf s pt \<Longrightarrow> user_step s t pt"
  by (simp add: user_step_def mem_step_noise user_wf_noise noise_ready noise_fields)

lemma user_wf_free:
  assumes "user_wf s pt" "p \<in> owned (mem s) pt"
  shows "heap_page s p" "p \<notin> free_pages s"
  using assms pt_wfD(3,4) [of s pt p] user_wfD(1,2) [OF assms(1)]
  by (auto simp: owned_def frames_def user_wf_def)

text \<open>An address space does not notice writes to pages it does not own.\<close>

lemma owned_cong:
  assumes wf: "pt_wf s pt" and same: "\<And>x. PGROUNDDOWN x \<in> tables (mem s) pt \<Longrightarrow> m x = mem s x"
  shows "walk m pt = walk (mem s) pt" "tables m pt = tables (mem s) pt" "frames m pt = frames (mem s) pt"
    "owned m pt = owned (mem s) pt" "pt_tree m pt" "user_frame m pt = user_frame (mem s) pt" "roots m pt = roots (mem s) pt"
proof -
  note c = walk_cong [OF pt_wfD(2) [OF wf], of "mem s" m, OF same]
  show "walk m pt = walk (mem s) pt" "tables m pt = tables (mem s) pt" "pt_tree m pt"
    using c(2-4) pt_wfD(1) [OF wf] by blast+
  then show f: "frames m pt = frames (mem s) pt" "user_frame m pt = user_frame (mem s) pt"
    using user_frame_cong [of m pt "mem s"] by (simp_all add: frames_def)
  then show "owned m pt = owned (mem s) pt" using c(2) by (simp add: owned_def)
  show "roots m pt = roots (mem s) pt" using c(1) by (auto simp: roots_def)
qed

lemma user_wf_other:
  assumes st: "mem_step s t A" and wf: "user_wf s pt" and A: "A \<inter> owned (mem s) pt = {}"
    and fr: "free_pages t \<inter> owned (mem s) pt = {}"
  shows "walk (mem t) pt = walk (mem s) pt" "owned (mem t) pt = owned (mem s) pt" "user_wf t pt"
    "tables (mem t) pt = tables (mem s) pt" "frames (mem t) pt = frames (mem s) pt" "roots (mem t) pt = roots (mem s) pt"
proof -
  have pt: "pt_wf s pt" using wf by (simp add: user_wf_def)
  have "mem t x = mem s x" if "PGROUNDDOWN x \<in> tables (mem s) pt" for x
    using that A by (intro mem_stepD(3) [OF st]) (auto simp: owned_def)
  note c = owned_cong [of s pt "mem t", OF pt this]
  show "walk (mem t) pt = walk (mem s) pt" "owned (mem t) pt = owned (mem s) pt"
    "tables (mem t) pt = tables (mem s) pt" "frames (mem t) pt = frames (mem s) pt" "roots (mem t) pt = roots (mem s) pt"
    using c by blast+
  have "\<forall>p\<in>tables (mem s) pt. heap_page s p \<and> p \<notin> free_pages t"
    using pt_wfD(3) [OF pt] fr by (auto simp: owned_def)
  moreover have "\<forall>va f. user_frame (mem s) pt 0 va = Some f \<longrightarrow> heap_page s f \<and> f \<notin> free_pages t \<and> f \<notin> tables (mem s) pt"
    using user_wfD(1,3) [OF wf] fr by (auto simp: owned_def frames_def)
  ultimately show "user_wf t pt"
    using wf c(5) unfolding user_wf_def pt_wf_def mem_stepD(2) [OF st] by (simp add: c(2,6))
qed

section \<open>Unmapping\<close>

definition unmap_page :: "(u32 \<Rightarrow> u32 option) \<Rightarrow> u32 \<Rightarrow> (u32 \<Rightarrow> u32 option)" where
  "unmap_page w va = (\<lambda>va'. if PGROUNDDOWN va' = va then None else w va')"

definition unmap_range :: "(u32 \<Rightarrow> u32 option) \<Rightarrow> u32 \<Rightarrow> nat \<Rightarrow> (u32 \<Rightarrow> u32 option)" where
  "unmap_range w va n = (\<lambda>va'. if in_block va (4096 * n) va' then None else w va')"

lemma unmap_range_0: "unmap_range w va 0 = w"
  by (simp add: unmap_range_def)

lemma unmap_range_Suc:
  assumes "page_aligned va" "k < 1048576"
  shows "unmap_page (unmap_range w va k) (va + of_nat k * 4096) = unmap_range w va (Suc k)"
proof
  fix va'
  have "in_block va (4096 * k) va' \<longleftrightarrow> unat (va' - va) div 4096 < k"
    "in_block va (4096 * Suc k) va' \<longleftrightarrow> unat (va' - va) div 4096 < Suc k"
    unfolding in_block_def by (auto simp: div_less_iff_less_mult algebra_simps)
  then show "unmap_page (unmap_range w va k) (va + of_nat k * 4096) va' = unmap_range w va (Suc k) va'"
    using page_step_iff [OF assms, of va'] by (auto simp: unmap_page_def unmap_range_def)
qed

lemma walk_page: "PGROUNDDOWN va = PGROUNDDOWN va' \<Longrightarrow> walk m pt va = walk m pt va'"
  using vpn_eq_iff [of va va'] by (simp add: walk_def Let_def)

text \<open>Clearing the leaf of a page takes its frame out of the address space.\<close>

lemma clear_leaf:
  assumes s: "mem_ready s" "user_wf s pt" and val: "valid (entry (mem s) pt (vpn1 va))" and va: "page_aligned va"
  defines "t \<equiv> s\<lparr>mem := store32 (leaf (mem s) pt va) 0 (mem s)\<rparr>"
  shows "walk (mem t) pt = unmap_page (walk (mem s) pt) va" "tables (mem t) pt = tables (mem s) pt" "user_wf t pt"
    "frames (mem t) pt = frames (mem s) pt - {f. user_frame (mem s) pt 0 va = Some f}"
    "mem_step s t (tables (mem s) pt)" "roots (mem t) pt = roots (mem s) pt"
proof -
  have wf: "pt_wf s pt" using s(2) by (simp add: user_wf_def)
  note sl = set_leaf [OF pt_wfD(1) [OF wf] val, where e = 0]
  have g: "pt_grow s t pt" unfolding t_def by (rule pt_grow_leaf [OF s(1) wf val])
  show w: "walk (mem t) pt = unmap_page (walk (mem s) pt) va"
    using sl(3) va by (simp add: t_def unmap_page_def fun_eq_iff PGROUNDDOWN_aligned)
  show tb: "tables (mem t) pt = tables (mem s) pt" "roots (mem t) pt = roots (mem s) pt" using sl(1,5) by (simp_all add: t_def)
  show "mem_step s t (tables (mem s) pt)" using mem_step_grow [OF g] tb by simp
  have uf: "user_frame (mem t) pt 0 va' = (if PGROUNDDOWN va' = va then None else user_frame (mem s) pt 0 va')" for va'
    using w by (simp add: user_frame_def unmap_page_def)
  then have sub: "user_frame (mem s) pt 0 va' = Some f" if "user_frame (mem t) pt 0 va' = Some f" for va' f
    using that by (auto split: if_splits)
  have "free_pages t = free_pages s" "heap_page t = heap_page s" by (simp_all add: t_def)
  moreover have "pt_wf t pt" using g by (simp add: pt_grow_def)
  ultimately show "user_wf t pt" using s(2) sub unfolding user_wf_def tb(1) by metis
  have "f \<in> frames (mem t) pt \<longleftrightarrow> f \<in> frames (mem s) pt \<and> user_frame (mem s) pt 0 va \<noteq> Some f" for f
  proof
    assume "f \<in> frames (mem t) pt"
    then obtain va' where "PGROUNDDOWN va' \<noteq> va" "user_frame (mem s) pt 0 va' = Some f"
      by (auto simp: frames_def uf split: if_splits)
    moreover from this have "user_frame (mem s) pt 0 va \<noteq> Some f"
      using user_wfD(4) [OF s(2), of 0 va f 0 va'] va by (auto simp: PGROUNDDOWN_aligned)
    ultimately show "f \<in> frames (mem s) pt \<and> user_frame (mem s) pt 0 va \<noteq> Some f" by (auto simp: frames_def)
  next
    assume f: "f \<in> frames (mem s) pt \<and> user_frame (mem s) pt 0 va \<noteq> Some f"
    then obtain va' where va': "user_frame (mem s) pt 0 va' = Some f" by (auto simp: frames_def)
    then have "PGROUNDDOWN va' \<noteq> va" using f user_frame_page [of va' va "mem s" pt 0] va by (auto simp: PGROUNDDOWN_aligned)
    with va' show "f \<in> frames (mem t) pt" by (auto simp: frames_def uf)
  qed
  then show "frames (mem t) pt = frames (mem s) pt - {f. user_frame (mem s) pt 0 va = Some f}" by auto
qed

lemma store_fill:
  assumes "page_aligned q" "page_aligned p" "p \<noteq> q" "unat i < 1024"
  shows "store32 (slot q i) e (fill_block p 4096 0 m) = fill_block p 4096 0 (store32 (slot q i) e m)"
proof
  fix x
  show "store32 (slot q i) e (fill_block p 4096 0 m) x = fill_block p 4096 0 (store32 (slot q i) e m) x"
  proof (cases "PGROUNDDOWN x = p")
    case True
    then show ?thesis using assms store_slot_page [of q i x e "fill_block p 4096 0 m"] by (simp add: fill_page)
  next
    case False
    then show ?thesis using assms(2) by (simp add: store32_def fill_page)
  qed
qed

lemma unmap_step:
  assumes s: "mem_ready s" "user_wf s pt" and va: "page_aligned va" "va < lim"
    and leaf: "walk (mem s) pt va = None \<or> user_frame (mem s) pt 0 va \<noteq> None"
  shows "\<exists>t. uvmunmap_body pt lim True va s = Ok (Inl (va + PAGE_SIZE)) t \<and> user_step s t pt
    \<and> walk (mem t) pt = unmap_page (walk (mem s) pt) va \<and> tables (mem t) pt = tables (mem s) pt
    \<and> roots (mem t) pt = roots (mem s) pt
    \<and> free_pages t = free_pages s \<union> {f. user_frame (mem s) pt 0 va = Some f}"
proof (cases "walk (mem s) pt va")
  case None
  have "uvmunmap_body pt lim True va s = Ok (Inl (va + PAGE_SIZE)) s"
  proof (cases "valid (entry (mem s) pt (vpn1 va))")
    case True
    then show ?thesis using None va(2) walk_leaf [OF True]
      by (auto simp: uvmunmap_body_def find_pte_valid valid_def split: if_splits)
  next
    case False
    then show ?thesis using va(2) by (simp add: uvmunmap_body_def find_pte_invalid)
  qed
  moreover have "walk (mem s) pt va' = None" if "PGROUNDDOWN va' = va" for va'
    using None that va(1) walk_page [of va' va "mem s" pt] by (simp add: PGROUNDDOWN_aligned)
  then have "unmap_page (walk (mem s) pt) va = walk (mem s) pt" by (auto simp: unmap_page_def fun_eq_iff)
  ultimately show ?thesis using user_step_refl [OF s] None by (auto simp: user_frame_def)
next
  case (Some e)
  then obtain f where f: "user_frame (mem s) pt 0 va = Some f" using leaf by auto
  then have fe: "f = PTE2PA e" using Some by (auto simp: user_frame_def split: if_splits)
  have val: "valid (entry (mem s) pt (vpn1 va))" using Some walk_invalid by (metis option.distinct(1))
  have wf: "pt_wf s pt" using s(2) by (simp add: user_wf_def)
  let ?l = "leaf (mem s) pt va"
  have e: "valid e" "load32 (mem s) ?l = e" using Some walk_leaf [OF val] by (auto split: if_splits)
  note uf = user_wfD [OF s(2) f]
  obtain t where t: "kfree f s = Ok () t" "mem_step s t {f}" "mem t = fill_block f 4096 0 (mem s)"
    "free_pages t = insert f (free_pages s)"
    using kfree_step [OF s(1) uf(1,2)] .
  let ?q = "PTE2PA (entry (mem s) pt (vpn1 va))"
  have fq: "page_aligned f" "f \<noteq> ?q"
    using heap_page_facts [OF uf(1) s(1)] uf(3) tables_sub [OF _ val] by auto
  let ?s = "s\<lparr>mem := store32 ?l 0 (mem s)\<rparr>" and ?t = "t\<lparr>mem := store32 ?l 0 (mem t)\<rparr>"
  have "uvmunmap_body pt lim True va s = Ok (Inl (va + PAGE_SIZE)) ?t"
    using va(2) t(1) e leaf_nonzero [OF s(1) wf val] fe
    by (simp add: uvmunmap_body_def find_pte_valid [OF val] valid_def)
  note c = clear_leaf [OF s val va(1)]
  have m: "mem ?t = fill_block f 4096 0 (mem ?s)"
    using store_fill [OF _ fq(1,2), of "vpn0 va"] t(3) by (simp add: leaf_def)
  have st: "mem_step ?s ?t {f}"
    using mem_step_rewrite [OF t(2), of "{f}" "mem ?t" "mem ?s"] m fq(1) by (simp add: fill_page)
  have ow: "owned (mem ?s) pt = owned (mem s) pt - {f}" "f \<in> owned (mem s) pt"
    using c(2,4) f uf(3) by (auto simp: owned_def frames_def)
  then have "free_pages ?t \<inter> owned (mem ?s) pt = {}" using user_wf_free(2) [OF s(2)] t(4) by auto
  note o = user_wf_other [OF st c(3) _ this]
  have dj: "{f} \<inter> owned (mem ?s) pt = {}" using ow by auto
  have "mem_step s ?t (owned (mem s) pt \<union> free_pages s)"
    using mem_step_trans [OF c(5) st] ow(2) by (elim mem_step_mono) (auto simp: owned_def)
  moreover have "owned (mem ?t) pt \<union> free_pages ?t = owned (mem s) pt \<union> free_pages s"
    using o(2) [OF dj] ow t(4) by auto
  ultimately have "user_step s ?t pt" using o(3) [OF dj] by (simp add: user_step_def)
  then show ?thesis
    using \<open>uvmunmap_body pt lim True va s = _\<close> o(1,4,6) [OF dj] c(1,2,6) t(4) f by (intro exI [of _ ?t]) simp
qed

lemma uvmunmap_spec:
  assumes s: "mem_ready s" "user_wf s pt" and va: "page_aligned va" and n: "unat va + 4096 * n < 4294967296"
    and user: "\<And>va'. in_block va (4096 * n) va' \<Longrightarrow> walk (mem s) pt va' = None \<or> user_frame (mem s) pt 0 va' \<noteq> None"
  shows "\<exists>t. uvmunmap pt va (of_nat n * 4096) True s = Ok () t \<and> user_step s t pt
    \<and> walk (mem t) pt = unmap_range (walk (mem s) pt) va n \<and> tables (mem t) pt = tables (mem s) pt
    \<and> roots (mem t) pt = roots (mem s) pt"
proof -
  let ?lim = "va + of_nat n * 4096" and ?body = "uvmunmap_body pt (va + of_nat n * 4096) True"
  let ?I = "\<lambda>i x t. \<exists>k. k + i = n \<and> x = va + of_nat k * 4096 \<and> user_step s t pt
    \<and> walk (mem t) pt = unmap_range (walk (mem s) pt) va k \<and> tables (mem t) pt = tables (mem s) pt
    \<and> roots (mem t) pt = roots (mem s) pt"
  let ?Q = "\<lambda>r t. user_step s t pt \<and> walk (mem t) pt = unmap_range (walk (mem s) pt) va n
    \<and> tables (mem t) pt = tables (mem s) pt \<and> roots (mem t) pt = roots (mem s) pt"
  have addr: "unat (va + of_nat k * 4096) = unat va + k * 4096" if "k \<le> n" for k
    using that n unat_pages [of k] by (subst unat_add_lt) auto
  have "\<exists>r t. kloop ?body va s = Ok r t \<and> ?Q r t"
  proof (rule kloop_count [where I = ?I])
    show "?I n va s" using user_step_refl [OF s] by (intro exI [of _ 0]) (simp add: unmap_range_0)
  next
    fix x t
    assume "?I 0 x t"
    then show "\<exists>r u. ?body x t = Ok (Inr r) u \<and> ?Q r u" by (auto simp: uvmunmap_body_def)
  next
    fix i x t
    assume "?I (Suc i) x t"
    then obtain k where k: "k + Suc i = n" "x = va + of_nat k * 4096" "user_step s t pt"
      "walk (mem t) pt = unmap_range (walk (mem s) pt) va k" "tables (mem t) pt = tables (mem s) pt"
      "roots (mem t) pt = roots (mem s) pt" by blast
    have kn: "k < n" "k < 1048576" using k(1) n by auto
    have lt: "x < ?lim" using kn addr [of k] addr [of n] k(2) by (simp add: word_less_nat_alt)
    have al: "page_aligned x" using va k(2) by simp
    have xb: "in_block va (4096 * n) x" "\<not> in_block va (4096 * k) x"
      using kn k(2) by (simp_all add: in_block_def unat_pages)
    then have wx: "walk (mem t) pt x = walk (mem s) pt x" using k(4) by (simp add: unmap_range_def)
    then have "walk (mem t) pt x = None \<or> user_frame (mem t) pt 0 x \<noteq> None"
      using user [OF xb(1)] by (simp add: user_frame_def)
    then obtain u where u: "?body x t = Ok (Inl (x + PAGE_SIZE)) u" "user_step t u pt"
      "walk (mem u) pt = unmap_page (walk (mem t) pt) x" "tables (mem u) pt = tables (mem t) pt"
      "roots (mem u) pt = roots (mem t) pt"
      using unmap_step [OF user_stepD(2,3) [OF k(3)] al lt] by blast
    have "?I i (x + PAGE_SIZE) u"
      using k u(3-5) user_step_trans [OF k(3) u(2)] unmap_range_Suc [OF va kn(2)]
      by (intro exI [of _ "Suc k"]) (simp add: PAGE_SIZE_def algebra_simps)
    then show "(\<exists>y u. ?body x t = Ok (Inl y) u \<and> ?I i y u) \<or> (\<exists>r u. ?body x t = Ok (Inr r) u \<and> ?Q r u)"
      using u(1) by blast
  qed
  moreover have "uvmunmap pt va (of_nat n * 4096) True s = kloop ?body va s"
    using va by (simp add: uvmunmap_def mod_page_eq_0)
  ultimately show ?thesis by simp
qed

section \<open>Freeing\<close>

text \<open>The second-level tables behind the first \<open>k\<close> root entries.\<close>

definition subtables :: "memory \<Rightarrow> u32 \<Rightarrow> nat \<Rightarrow> u32 set" where
  "subtables m pt k = (\<lambda>j. PTE2PA (entry m pt (of_nat j))) ` {j. j < k \<and> valid (entry m pt (of_nat j))}"

lemma subtables_0: "subtables m pt 0 = {}"
  by (simp add: subtables_def)

lemma subtables_Suc:
  "subtables m pt (Suc k) = (if valid (entry m pt (of_nat k)) then insert (PTE2PA (entry m pt (of_nat k))) (subtables m pt k)
     else subtables m pt k)"
proof -
  have "{j. j < Suc k \<and> valid (entry m pt (of_nat j))} = (if valid (entry m pt (of_nat k))
      then insert k {j. j < k \<and> valid (entry m pt (of_nat j))} else {j. j < k \<and> valid (entry m pt (of_nat j))})"
    by (auto simp: less_Suc_eq)
  then show ?thesis by (simp add: subtables_def)
qed

lemma tables_subtables: "tables m pt = insert pt (subtables m pt 1024)"
proof -
  have "roots m pt = of_nat ` {j. j < 1024 \<and> valid (entry m pt (of_nat j))}"
  proof (intro set_eqI iffI)
    fix i
    assume "i \<in> roots m pt"
    then show "i \<in> of_nat ` {j. j < 1024 \<and> valid (entry m pt (of_nat j))}"
      by (intro image_eqI [of _ _ "unat i"]) (simp_all add: roots_def)
  qed (auto simp: roots_def)
  then show ?thesis by (simp add: tables_roots subtables_def image_image)
qed

lemma subtables_fresh:
  assumes "pt_tree m pt" "k \<le> 1024"
  shows "pt \<notin> subtables m pt k"
    and "k < 1024 \<Longrightarrow> valid (entry m pt (of_nat k)) \<Longrightarrow> PTE2PA (entry m pt (of_nat k)) \<notin> subtables m pt k"
proof -
  have "pt \<noteq> PTE2PA (entry m pt (of_nat j))" if "j < k" "valid (entry m pt (of_nat j))" for j
    using pt_treeD(2) [OF assms(1), of "of_nat j", THEN not_sym] that assms(2) by simp
  then show "pt \<notin> subtables m pt k" unfolding subtables_def by blast
  assume k: "k < 1024" "valid (entry m pt (of_nat k))"
  have "PTE2PA (entry m pt (of_nat k)) \<noteq> PTE2PA (entry m pt (of_nat j))" if "j < k" "valid (entry m pt (of_nat j))" for j
    using pt_treeD(4) [OF assms(1), of "of_nat k" "of_nat j"] that k by (simp add: unat_eq_iff_u32)
  then show "PTE2PA (entry m pt (of_nat k)) \<notin> subtables m pt k" unfolding subtables_def by blast
qed

text \<open>\<open>freewalk\<close> frees the tables, the second level first.\<close>

lemma freewalk_step:
  assumes wf: "pt_wf s pt" and k: "k < 1024"
    and st: "mem_step s t (subtables (mem s) pt k)" "free_pages t = free_pages s \<union> subtables (mem s) pt k"
  shows "\<exists>u. freewalk_body pt k t = Ok (Inl (Suc k)) u \<and> mem_step s u (subtables (mem s) pt (Suc k))
    \<and> free_pages u = free_pages s \<union> subtables (mem s) pt (Suc k)"
proof -
  let ?e = "entry (mem s) pt (of_nat k)" and ?T = "subtables (mem s) pt k"
  have tree: "pt_tree (mem s) pt" and al: "page_aligned pt" using pt_wfD(1,2) [OF wf] .
  have "pt \<notin> ?T" using subtables_fresh(1) [OF tree] k by simp
  then have "mem t x = mem s x" if "PGROUNDDOWN x = pt" for x
    using that by (intro mem_stepD(3) [OF st(1)]) simp
  then have e: "load32 (mem t) (slot pt (of_nat k)) = ?e"
    using entry_cong [OF al, of "of_nat k" "mem t" "mem s"] k by (simp add: entry_def)
  show ?thesis
  proof (cases "valid ?e")
    case False
    then show ?thesis using k e st by (simp add: freewalk_body_def valid_def subtables_Suc)
  next
    case True
    have tb: "PTE2PA ?e \<in> tables (mem s) pt" using True k by (simp add: tables_sub)
    then have "PTE2PA ?e \<notin> free_pages t"
      using subtables_fresh(2) [OF tree _ k True] k st(2) pt_wfD(4) [OF wf] by simp
    moreover have "heap_page t (PTE2PA ?e)" using pt_wfD(3) [OF wf tb] mem_stepD(2) [OF st(1)] by simp
    ultimately obtain u where u: "kfree (PTE2PA ?e) t = Ok () u" "mem_step t u {PTE2PA ?e}" "free_pages u = insert (PTE2PA ?e) (free_pages t)"
      using kfree_step mem_stepD(1) [OF st(1)] by blast
    have "freewalk_body pt k t = Ok (Inl (Suc k)) u" using k e True u(1) by (simp add: freewalk_body_def valid_def)
    then show ?thesis using mem_step_trans [OF st(1) u(2)] u(3) st(2) True by (simp add: subtables_Suc)
  qed
qed

lemma freewalk_spec:
  assumes s: "mem_ready s" and wf: "pt_wf s pt"
  shows "\<exists>t. freewalk pt s = Ok () t \<and> mem_step s t (tables (mem s) pt)
    \<and> free_pages t = free_pages s \<union> tables (mem s) pt"
proof -
  let ?T = "subtables (mem s) pt"
  let ?Q = "\<lambda>t. mem_step s t (?T 1024) \<and> free_pages t = free_pages s \<union> ?T 1024"
  have "\<exists>r t. kloop (freewalk_body pt) 0 s = Ok r t \<and> ?Q t"
  proof (rule kloop_count [where I = "\<lambda>i k t. k + i = 1024 \<and> mem_step s t (?T k) \<and> free_pages t = free_pages s \<union> ?T k"])
    show "0 + 1024 = (1024 :: nat) \<and> mem_step s s (?T 0) \<and> free_pages s = free_pages s \<union> ?T 0"
      using s by (simp add: mem_step_refl subtables_0)
  next
    fix k t
    assume "k + 0 = 1024 \<and> mem_step s t (?T k) \<and> free_pages t = free_pages s \<union> ?T k"
    then show "\<exists>r u. freewalk_body pt k t = Ok (Inr r) u \<and> ?Q u" by (auto simp: freewalk_body_def)
  next
    fix i k t
    assume "k + Suc i = 1024 \<and> mem_step s t (?T k) \<and> free_pages t = free_pages s \<union> ?T k"
    then show "(\<exists>y u. freewalk_body pt k t = Ok (Inl y) u \<and> y + i = 1024 \<and> mem_step s u (?T y) \<and> free_pages u = free_pages s \<union> ?T y)
        \<or> (\<exists>r u. freewalk_body pt k t = Ok (Inr r) u \<and> ?Q u)"
      using freewalk_step [OF wf, of k t] by (intro disjI1 exI [of _ "Suc k"]) auto
  qed
  then obtain t where t: "kloop (freewalk_body pt) 0 s = Ok () t" "mem_step s t (?T 1024)"
    "free_pages t = free_pages s \<union> ?T 1024" by auto
  have "heap_page t pt" "mem_ready t" "pt \<notin> free_pages t"
    using mem_stepD(1,2) [OF t(2)] pt_wfD(3,4) [OF wf, of pt] subtables_fresh(1) [OF pt_wfD(1) [OF wf], of 1024] t(3) by auto
  then obtain u where u: "kfree pt t = Ok () u" "mem_step t u {pt}" "free_pages u = insert pt (free_pages t)"
    using kfree_step by blast
  have "freewalk pt s = Ok () u" using t(1) u(1) by (simp add: freewalk_def)
  then show ?thesis using mem_step_trans [OF t(2) u(2)] u(3) t(3) by (simp add: tables_subtables)
qed

text \<open>
  The invariant of a user address space of size \<open>sz\<close>. Below the UART and in the stack page every
  mapping is a user page, and all user pages lie in the image or are the stack page.
\<close>

definition stack_page :: u32 where
  "stack_page = USER_STACK_TOP - PAGE_SIZE"

definition user_region :: "u32 \<Rightarrow> u32 \<Rightarrow> bool" where
  "user_region sz va \<longleftrightarrow> USER_BASE \<le> va \<and> va < sz \<or> PGROUNDDOWN va = stack_page"

definition as_wf :: "'a memst_scheme \<Rightarrow> u32 \<Rightarrow> u32 \<Rightarrow> bool" where
  "as_wf s pt sz \<longleftrightarrow> user_wf s pt \<and> page_aligned sz \<and> sz \<le> UART_0
     \<and> (\<forall>va. va < UART_0 \<or> PGROUNDDOWN va = stack_page \<longrightarrow>
          walk (mem s) pt va = None \<or> user_frame (mem s) pt 0 va \<noteq> None)
     \<and> (\<forall>va. user_frame (mem s) pt 0 va \<noteq> None \<longrightarrow> user_region sz va)"

lemma as_wfD:
  assumes "as_wf s pt sz"
  shows "user_wf s pt" "page_aligned sz" "sz \<le> UART_0"
    "va < UART_0 \<or> PGROUNDDOWN va = stack_page \<Longrightarrow> walk (mem s) pt va = None \<or> user_frame (mem s) pt 0 va \<noteq> None"
    "user_frame (mem s) pt 0 va = Some f \<Longrightarrow> user_region sz va"
  using assms unfolding as_wf_def by blast+

lemma stack_page_facts: "page_aligned stack_page" "unat stack_page = 0xFFFFC000"
  by (simp_all add: stack_page_def USER_STACK_TOP_def TRAPFRAME_def TRAMPOLINE_def MAX_VA_ADDR_def PAGE_SIZE_def page_aligned_def)

lemma user_frame_unmap:
  "walk m' pt = unmap_range (walk m pt) va n \<Longrightarrow>
    user_frame m' pt need va' = (if in_block va (4096 * n) va' then None else user_frame m pt need va')"
  by (simp add: user_frame_def unmap_range_def)

lemma unmap_image:
  assumes s: "mem_ready s" and wf: "as_wf s pt sz"
  shows "\<exists>t. (if sz > USER_BASE then uvmunmap pt USER_BASE (sz - USER_BASE) True s else Ok () s) = Ok () t
    \<and> user_step s t pt
    \<and> (\<forall>va. walk (mem t) pt va = (if USER_BASE \<le> va \<and> va < sz then None else walk (mem s) pt va))"
proof (cases "USER_BASE < sz")
  case False
  then have "\<not> (USER_BASE \<le> va \<and> va < sz)" for va by auto
  then show ?thesis using False user_step_refl [OF s as_wfD(1) [OF wf]] by (intro exI [of _ s]) auto
next
  case True
  note w = as_wfD [OF wf]
  have ub: "unat USER_BASE = 4096" "page_aligned USER_BASE" by (simp_all add: USER_BASE_def page_aligned_def)
  have le: "4096 < unat sz" "unat sz \<le> 0x10000000" using True w(3) ub by (simp_all add: word_less_nat_alt word_le_nat_alt UART_0_def)
  have "unat (sz - USER_BASE) = unat sz - 4096" using True ub by (simp add: unat_sub less_imp_le)
  moreover obtain k where k: "unat sz = 4096 * Suc k"
    using page_count [OF w(2)] le by (metis mult_0_right not_less0 old.nat.exhaust)
  ultimately have n1: "unat (sz - USER_BASE) = k * 4096" by simp
  have "k < 1048576" using k le by simp
  then have n: "sz - USER_BASE = of_nat k * 4096" by (simp only: unat_eq_iff_u32 [of "sz - _"] n1 unat_pages)
  have b: "unat USER_BASE + 4096 * k < 4294967296" using ub(1) k le by simp
  have img: "in_block USER_BASE (4096 * k) va \<longleftrightarrow> USER_BASE \<le> va \<and> va < sz" for va
    using ub(1) k le by (subst in_block_nowrap) (auto simp: word_le_nat_alt word_less_nat_alt)
  have "walk (mem s) pt va = None \<or> user_frame (mem s) pt 0 va \<noteq> None" if "in_block USER_BASE (4096 * k) va" for va
  proof -
    have "va < UART_0" using that w(3) less_le_trans [of va sz UART_0] unfolding img by blast
    then show ?thesis by (intro w(4)) simp
  qed
  then obtain t where "uvmunmap pt USER_BASE (of_nat k * 4096) True s = Ok () t" "user_step s t pt"
    "walk (mem t) pt = unmap_range (walk (mem s) pt) USER_BASE k"
    using uvmunmap_spec [OF s w(1) ub(2) b] by blast
  then show ?thesis using True n by (intro exI [of _ t]) (auto simp: unmap_range_def img)
qed

lemma stack_block: "in_block stack_page 4096 va \<longleftrightarrow> PGROUNDDOWN va = stack_page"
  using in_page_iff [OF stack_page_facts(1), of va] by simp

lemma stack_not_image: "PGROUNDDOWN va = stack_page \<Longrightarrow> sz \<le> UART_0 \<Longrightarrow> \<not> va < sz"
proof
  assume "PGROUNDDOWN va = stack_page" "sz \<le> UART_0" "va < sz"
  then have "unat va div 4096 * 4096 = 0xFFFFC000" "unat va < 0x10000000"
    using unat_PGROUNDDOWN [of va] stack_page_facts(2) by (auto simp: word_le_nat_alt word_less_nat_alt UART_0_def)
  then show False using div_times_less_eq_dividend [of "unat va" 4096] by simp
qed

lemma uvmfree_spec:
  assumes s: "mem_ready s" and wf: "as_wf s pt sz"
  shows "\<exists>t. uvmfree pt sz s = Ok () t \<and> mem_step s t (owned (mem s) pt \<union> free_pages s)
    \<and> free_pages t = free_pages s \<union> owned (mem s) pt"
proof -
  note w = as_wfD [OF wf]
  obtain t where t: "(if sz > USER_BASE then uvmunmap pt USER_BASE (sz - USER_BASE) True s else Ok () s) = Ok () t"
    "user_step s t pt" "\<forall>va. walk (mem t) pt va = (if USER_BASE \<le> va \<and> va < sz then None else walk (mem s) pt va)"
    using unmap_image [OF assms] by blast
  have "walk (mem t) pt va = None \<or> user_frame (mem t) pt 0 va \<noteq> None" if "in_block stack_page (4096 * 1) va" for va
    using that w(4) [of va] t(3) by (auto simp: stack_block user_frame_def)
  then obtain u where u: "uvmunmap pt stack_page PAGE_SIZE True t = Ok () u" "user_step t u pt"
    "walk (mem u) pt = unmap_range (walk (mem t) pt) stack_page 1"
    using uvmunmap_spec [OF user_stepD(2,3) [OF t(2)] stack_page_facts(1), of 1] stack_page_facts(2)
    by (auto simp: PAGE_SIZE_def)
  have "user_frame (mem u) pt 0 va = None" for va
  proof (rule ccontr)
    assume *: "user_frame (mem u) pt 0 va \<noteq> None"
    then have "PGROUNDDOWN va \<noteq> stack_page" "user_frame (mem t) pt 0 va \<noteq> None"
      by (auto simp: user_frame_unmap [OF u(3)] stack_block split: if_splits)
    moreover from this have "\<not> (USER_BASE \<le> va \<and> va < sz)" "user_frame (mem s) pt 0 va \<noteq> None"
      using t(3) by (auto simp: user_frame_def split: if_splits)
    ultimately show False using w(5) [of va] by (auto simp: user_region_def)
  qed
  then have "frames (mem u) pt = {}" by (simp add: frames_def)
  then have ow: "owned (mem u) pt = tables (mem u) pt" by (simp add: owned_def)
  have su: "user_step s u pt" using user_step_trans [OF t(2) u(2)] .
  then have pu: "pt_wf u pt" using user_stepD(3) by (auto simp: user_wf_def)
  obtain v where v: "freewalk pt u = Ok () v" "mem_step u v (tables (mem u) pt)" "free_pages v = free_pages u \<union> tables (mem u) pt"
    using freewalk_spec [OF user_stepD(2) [OF su] pu] by blast
  have "uvmfree pt sz s = Ok () v"
    using w(2) t(1) u(1) v(1) by (simp add: uvmfree_def mod_page_eq_0 stack_page_def)
  moreover have "mem_step s v (owned (mem s) pt \<union> free_pages s)"
    using mem_step_trans [OF user_stepD(1) [OF su] v(2)] user_stepD(5) [OF su] ow by (elim mem_step_mono) auto
  moreover have "free_pages v = free_pages s \<union> owned (mem s) pt"
    using v(3) ow user_stepD(5) [OF su] by auto
  ultimately show ?thesis by blast
qed

section \<open>Growing\<close>

lemma mappages_one:
  assumes "page_aligned va" "page_aligned pa" "mappage pt va pa flags s = Ok r t"
  shows "r \<noteq> 0 \<Longrightarrow> mappages pt va pa PAGE_SIZE flags s = Ok 0 t"
    and "r = 0 \<Longrightarrow> kctx t \<Longrightarrow> \<exists>u. mappages pt va pa PAGE_SIZE flags s = Ok (-1) u \<and> noise t u"
proof -
  let ?body = "\<lambda>(curr_va, pa) s. if curr_va \<noteq> va + PAGE_SIZE
        then kbind (mappage pt curr_va pa flags s) (\<lambda>pte s.
          if pte = 0 then kbind (error ''mappages: failed to map va to pa'' s) (\<lambda>_ s. Ok (Inr (-1)) s)
          else Ok (Inl (curr_va + PAGE_SIZE, pa + PAGE_SIZE)) s)
        else Ok (Inr 0) s"
  have ps: "page_aligned PAGE_SIZE" "PAGE_SIZE \<noteq> 0" by (simp_all add: PAGE_SIZE_def page_aligned_def)
  have m: "mappages pt va pa PAGE_SIZE flags s = kloop ?body (va, pa) s"
    using assms(1,2) ps by (simp add: mappages_def mod_page_eq_0)
  have ne: "va \<noteq> va + PAGE_SIZE" by (simp add: PAGE_SIZE_def)
  show "mappages pt va pa PAGE_SIZE flags s = Ok 0 t" if "r \<noteq> 0"
  proof -
    have "?body (va, pa) s = Ok (Inl (va + PAGE_SIZE, pa + PAGE_SIZE)) t" using assms(3) ne that by simp
    moreover have "kloop ?body (va + PAGE_SIZE, pa + PAGE_SIZE) t = Ok 0 t"
      by (rule kloop_exit [of ?body "(va + PAGE_SIZE, pa + PAGE_SIZE)" t 0 t]) simp
    ultimately show ?thesis
      unfolding m by (rule kloop_step [of ?body "(va, pa)" s "(va + PAGE_SIZE, pa + PAGE_SIZE)" t 0 t])
  qed
  assume "r = 0" "kctx t"
  then obtain u where "error ''mappages: failed to map va to pa'' t = Ok () u" "noise t u"
    using error_noise [of "''mappages: failed to map va to pa''" t] by auto
  with \<open>r = 0\<close> assms(3) ne have "?body (va, pa) s = Ok (Inr (-1)) u" by simp
  then have "mappages pt va pa PAGE_SIZE flags s = Ok (-1) u"
    unfolding m by (rule kloop_exit [of ?body "(va, pa)" s "-1" u])
  then show "\<exists>u. mappages pt va pa PAGE_SIZE flags s = Ok (-1) u \<and> noise t u" using \<open>noise t u\<close> by blast
qed

lemma mappage_fail:
  assumes s: "mem_ready s" and al: "page_aligned va" "page_aligned pa"
    and none: "\<not> valid (entry (mem s) pt (vpn1 va))" "free_pages s = {}"
  shows "\<exists>t. mappage pt va pa flags s = Ok 0 t \<and> noise s t"
proof -
  obtain t where t: "kalloc s = Ok 0 t" "noise s t" using kalloc_spec(2) [OF s none(2)] by blast
  then have "kctx t" using s by (simp add: mem_ready_def)
  then obtain u where u: "error ''find_pte: NULL address'' t = Ok () u" "noise t u"
    using error_noise [of "''find_pte: NULL address''" t] by auto
  have "find_pte pt va True s = Ok 0 u" using none(1) t(1) u(1) by (simp add: find_pte_def entry_def valid_def)
  then show ?thesis using al noise_trans [OF t(2) u(2)] by (simp add: mappage_def mod_page_eq_0)
qed

text \<open>
  Adding one page to an address space: a page \<open>f\<close> taken from the allocator, filled, and mapped. If
  there is no memory for a second-level table the caller gives \<open>f\<close> back.
\<close>

lemma fresh_page:
  assumes s: "mem_ready s" "user_wf s pt" and f: "f \<in> free_pages s" and st: "mem_step s t {}" "mem t = mem s"
    "free_pages t = free_pages s - {f}" and m: "\<forall>x. PGROUNDDOWN x \<noteq> f \<longrightarrow> m x = mem s x"
  defines "u \<equiv> t\<lparr>mem := m\<rparr>"
  shows "mem_ready u" "user_wf u pt" "walk (mem u) pt = walk (mem s) pt" "owned (mem u) pt = owned (mem s) pt"
    "heap_page u f" "f \<notin> free_pages u" "f \<notin> owned (mem u) pt" "mem_step s u {f}"
    "tables (mem u) pt = tables (mem s) pt" "frames (mem u) pt = frames (mem s) pt" "roots (mem u) pt = roots (mem s) pt"
proof -
  have fo: "f \<notin> owned (mem s) pt" using user_wf_free(2) [OF s(2)] f by blast
  show st': "mem_step s u {f}"
    using mem_step_rewrite [OF st(1), of "{f}" m "mem s"] m by (simp add: u_def)
  have fu: "free_pages u = free_pages s - {f}" using st(3) by (simp add: u_def)
  then have "free_pages u \<inter> owned (mem s) pt = {}" using user_wf_free(2) [OF s(2)] by auto
  note o = user_wf_other [OF st' s(2) _ this]
  have dj: "{f} \<inter> owned (mem s) pt = {}" using fo by auto
  show "user_wf u pt" "walk (mem u) pt = walk (mem s) pt" "owned (mem u) pt = owned (mem s) pt"
    "tables (mem u) pt = tables (mem s) pt" "frames (mem u) pt = frames (mem s) pt" "roots (mem u) pt = roots (mem s) pt"
    using o [OF dj] by blast+
  then show "f \<notin> owned (mem u) pt" using fo by simp
  show "mem_ready u" "heap_page u f" "f \<notin> free_pages u"
    using mem_stepD(1,2) [OF st'] free_pages_heap [OF s(1) f] fu by simp_all
qed

definition page_added :: "'a memst_scheme \<Rightarrow> 'a memst_scheme \<Rightarrow> u32 \<Rightarrow> u32 \<Rightarrow> u32 \<Rightarrow> u32 \<Rightarrow> memory \<Rightarrow> bool" where
  "page_added s v pt va f flags m \<longleftrightarrow> user_step s v pt
     \<and> walk (mem v) pt = map_page (walk (mem s) pt) va (PA2PTE f OR flags OR PTE_V)
     \<and> (\<forall>x. PGROUNDDOWN x = f \<longrightarrow> mem v x = m x)
     \<and> (\<forall>x. PGROUNDDOWN x \<notin> insert f (tables (mem v) pt) \<longrightarrow> mem v x = mem s x)
     \<and> f \<notin> frames (mem s) pt \<and> frames (mem v) pt = insert f (frames (mem s) pt)
     \<and> roots (mem v) pt \<subseteq> insert (vpn1 va) (roots (mem s) pt) \<and> free_pages v \<subseteq> free_pages s"

definition page_refused :: "'a memst_scheme \<Rightarrow> 'a memst_scheme \<Rightarrow> u32 \<Rightarrow> u32 \<Rightarrow> u32 \<Rightarrow> bool" where
  "page_refused s v pt va f \<longleftrightarrow> free_pages s = {f} \<and> vpn1 va \<notin> roots (mem s) pt
     \<and> (\<forall>v'. noise v v' \<longrightarrow> (\<exists>w. kfree f v' = Ok () w \<and> user_step s w pt \<and> walk (mem w) pt = walk (mem s) pt
        \<and> frames (mem w) pt = frames (mem s) pt \<and> roots (mem w) pt = roots (mem s) pt))"

lemma add_page:
  assumes s: "mem_ready s" "user_wf s pt" and f: "f \<in> free_pages s" and st: "mem_step s t {}" "mem t = mem s"
    "free_pages t = free_pages s - {f}" and m: "\<forall>x. PGROUNDDOWN x \<noteq> f \<longrightarrow> m x = mem s x"
    and va: "page_aligned va" "walk (mem s) pt va = None"
    and fl: "flag_bits flags" "(flags OR PTE_V) AND rights 0 = rights 0"
  shows "\<exists>r v. mappage pt va f flags (t\<lparr>mem := m\<rparr>) = Ok r v \<and> kctx v
    \<and> (if r \<noteq> 0 then page_added s v pt va f flags m else page_refused s v pt va f)"
proof -
  let ?u = "t\<lparr>mem := m\<rparr>"
  note u = fresh_page [of s pt f t m, OF s f st m]
  have wu: "pt_wf ?u pt" using u(2) by (simp add: user_wf_def)
  have al: "page_aligned f" using heap_page_facts [OF u(5,1)] by simp
  have un: "walk (mem ?u) pt va = None" using va(2) u(3) by simp
  have fs: "free_pages ?u = free_pages s - {f}" using st(3) by simp
  obtain r v where r: "mappage pt va f flags ?u = Ok r v" "pt_grow ?u v pt"
    "if r = 0 then walk (mem v) pt = walk (mem ?u) pt \<and> free_pages v = {}
     else walk (mem v) pt = map_page (walk (mem ?u) pt) va (PA2PTE f OR flags OR PTE_V)"
    "r = 0 \<longleftrightarrow> \<not> valid (entry (mem ?u) pt (vpn1 va)) \<and> free_pages ?u = {}"
    "roots (mem v) pt \<subseteq> insert (vpn1 va) (roots (mem ?u) pt)"
    using mappage_spec [OF u(1) wu va(1) al un, of flags] by blast
  have kc: "kctx v" using r(2) by (simp add: pt_grow_def mem_ready_def)
  show ?thesis
  proof (cases "r = 0")
    case False
    then have w: "walk (mem v) pt = map_page (walk (mem ?u) pt) va (PA2PTE f OR flags OR PTE_V)" using r(3) by simp
    note mu = map_user_wf [OF u(1,2) r(2) u(5,6,7) fl(1) va(1) un w]
    have fr: "frames (mem v) pt = insert f (frames (mem s) pt)" "f \<notin> frames (mem s) pt"
      using mu(2) fl(2) u(7,10) by (auto simp: owned_def)
    have tb: "tables (mem v) pt = tables (mem s) pt \<union> (free_pages s - {f} - free_pages v)" "free_pages v \<subseteq> free_pages s - {f}"
      using r(2) unfolding pt_grow_def u(9) fs by blast+
    have fv: "f \<notin> tables (mem v) pt" unfolding tb(1) using u(7,9) by (simp add: owned_def)
    have "{f} \<union> tables (mem v) pt \<subseteq> owned (mem s) pt \<union> free_pages s" unfolding tb(1) using f by (auto simp: owned_def)
    then have "mem_step s v (owned (mem s) pt \<union> free_pages s)"
      using mem_step_trans [OF u(8) mem_step_grow [OF r(2)]] mem_step_mono by blast
    moreover have "owned (mem v) pt \<union> free_pages v = owned (mem s) pt \<union> free_pages s"
      unfolding owned_def fr(1) tb(1) using tb(2) f by blast
    ultimately have "user_step s v pt" using mu(1) by (simp add: user_step_def)
    moreover have "mem v x = m x" if "PGROUNDDOWN x \<notin> tables (mem v) pt" for x
      using r(2) that by (simp add: pt_grow_def)
    moreover have "free_pages v \<subseteq> free_pages s" using tb(2) by blast
    ultimately show ?thesis using False r(1,5) kc w fr fv m u(3,11)
      by (intro exI [of _ r] exI [of _ v]) (simp add: page_added_def)
  next
    case True
    then have none: "\<not> valid (entry (mem ?u) pt (vpn1 va))" "free_pages ?u = {}" using r(4) by auto
    have nv: "noise ?u v" using mappage_fail [OF u(1) va(1) al none, of flags] r(1) by auto
    have "\<exists>w. kfree f v' = Ok () w \<and> user_step s w pt \<and> walk (mem w) pt = walk (mem s) pt
        \<and> frames (mem w) pt = frames (mem s) pt \<and> roots (mem w) pt = roots (mem s) pt" if "noise v v'" for v'
    proof -
      have n: "noise ?u v'" using noise_trans [OF nv that] .
      have v': "mem_ready v'" "heap_page v' f" "f \<notin> free_pages v'" "free_pages v' = {}" "mem v' = mem ?u"
        using noise_ready [OF n] u(1,5,6) none(2) noise_fields [OF n] by simp_all
      obtain w where w: "kfree f v' = Ok () w" "mem_step v' w {f}" "free_pages w = insert f (free_pages v')"
        using kfree_step [OF v'(1-3)] .
      have sw: "mem_step s w {f}"
        using mem_step_trans [OF mem_step_trans [OF u(8) mem_step_noise [OF n u(1), of "{f}"]] w(2)] by simp
      have fw: "free_pages w = free_pages s" using w(3) v'(4) none(2) fs f by auto
      have "{f} \<inter> owned (mem s) pt = {}" "free_pages w \<inter> owned (mem s) pt = {}"
        using user_wf_free(2) [OF s(2)] f unfolding fw by auto
      note o = user_wf_other [OF sw s(2) this]
      have "user_step s w pt" using mem_step_mono [OF sw, of "owned (mem s) pt \<union> free_pages s"] o(2,3) fw f by (simp add: user_step_def)
      with w(1) o(1,5,6) show ?thesis by blast
    qed
    moreover have "free_pages s = {f}" using none(2) fs f by auto
    moreover have "vpn1 va \<notin> roots (mem s) pt" unfolding u(11) [symmetric] using none(1) by (simp add: roots_def)
    ultimately show ?thesis using True r(1) kc by (intro exI [of _ r] exI [of _ v]) (simp add: page_refused_def)
  qed
qed

text \<open>
  \<open>grown s t pt va n flags A\<close>: the address space has \<open>n\<close> more user pages, from \<open>va\<close> on, zeroed and
  with the given flags, and otherwise the mappings it had; new root indices are from \<open>A\<close>.
\<close>

definition fresh_range :: "'a memst_scheme \<Rightarrow> 'a memst_scheme \<Rightarrow> u32 \<Rightarrow> u32 \<Rightarrow> nat \<Rightarrow> u32 \<Rightarrow> bool" where
  "fresh_range s t pt va n flags \<longleftrightarrow>
     (\<forall>va'. if in_block va (4096 * n) va'
        then \<exists>f. walk (mem t) pt va' = Some (PA2PTE f OR flags OR PTE_V) \<and> page_aligned f \<and> f \<in> free_pages s
          \<and> (\<forall>x. PGROUNDDOWN x = f \<longrightarrow> mem t x = 0)
        else walk (mem t) pt va' = walk (mem s) pt va')"

definition grown :: "'a memst_scheme \<Rightarrow> 'a memst_scheme \<Rightarrow> u32 \<Rightarrow> u32 \<Rightarrow> nat \<Rightarrow> u32 \<Rightarrow> u32 set \<Rightarrow> bool" where
  "grown s t pt va n flags A \<longleftrightarrow> user_step s t pt \<and> fresh_range s t pt va n flags
     \<and> card (frames (mem t) pt) = card (frames (mem s) pt) + n \<and> roots (mem t) pt \<subseteq> roots (mem s) pt \<union> A
     \<and> free_pages t \<subseteq> free_pages s
     \<and> frames (mem s) pt \<subseteq> frames (mem t) pt \<and> (\<forall>x. PGROUNDDOWN x \<in> frames (mem s) pt \<longrightarrow> mem t x = mem s x)"

lemma grown_0: "mem_ready s \<Longrightarrow> user_wf s pt \<Longrightarrow> grown s s pt va 0 flags A"
  by (simp add: grown_def fresh_range_def user_step_refl)

lemma user_pages_count:
  assumes "user_wf s pt"
  shows "card (owned (mem s) pt) = Suc (card (roots (mem s) pt) + card (frames (mem s) pt))"
    "card (owned (mem s) pt \<union> free_pages s) = card (owned (mem s) pt) + card (free_pages s)"
proof -
  have "tables (mem s) pt \<inter> frames (mem s) pt = {}" using user_wfD(3) [OF assms] by (auto simp: frames_def)
  then show "card (owned (mem s) pt) = Suc (card (roots (mem s) pt) + card (frames (mem s) pt))"
    using assms card_tables [of "mem s" pt] by (simp add: owned_def card_Un_disjoint user_wf_def pt_wf_def)
  show "card (owned (mem s) pt \<union> free_pages s) = card (owned (mem s) pt) + card (free_pages s)"
    using user_wf_free(2) [OF assms] by (intro card_Un_disjoint) auto
qed

lemma grown_count:
  assumes g: "grown s t pt va k flags A" and s: "user_wf s pt"
  shows "card (free_pages s) \<le> k + card (A - (roots (mem s) pt \<union> - roots (mem t) pt)) + card (free_pages t)"
proof -
  have st: "user_step s t pt" and fr: "card (frames (mem t) pt) = card (frames (mem s) pt) + k"
    and rt: "roots (mem t) pt \<subseteq> roots (mem s) pt \<union> A" using g by (simp_all add: grown_def)
  have "card (owned (mem t) pt) + card (free_pages t) = card (owned (mem s) pt) + card (free_pages s)"
    using user_pages_count(2) [OF s] user_pages_count(2) [OF user_stepD(3) [OF st]] user_stepD(5) [OF st] by simp
  moreover have "roots (mem t) pt \<subseteq> roots (mem s) pt \<union> (A - (roots (mem s) pt \<union> - roots (mem t) pt))" using rt by auto
  then have "card (roots (mem t) pt) \<le> card (roots (mem s) pt) + card (A - (roots (mem s) pt \<union> - roots (mem t) pt))"
    using card_mono [OF finite] card_Un_le [of "roots (mem s) pt" "A - (roots (mem s) pt \<union> - roots (mem t) pt)"]
    by (meson order_trans)
  ultimately show ?thesis
    using user_pages_count(1) [OF s] user_pages_count(1) [OF user_stepD(3) [OF st]] fr by simp
qed

lemma user_leaf:
  assumes "page_aligned f" "flag_bits flags" "(flags OR PTE_V) AND rights 0 = rights 0"
    and "walk m pt va = Some (PA2PTE f OR flags OR PTE_V)"
  shows "user_frame m pt 0 va = Some f"
proof -
  have "PTE2PA (PA2PTE f OR flags OR PTE_V) = f" "PTE_FLAGS (PA2PTE f OR flags OR PTE_V) = flags OR PTE_V"
    using PTE2PA_make [of f "flags OR PTE_V"] assms(1,2) by (simp_all add: flag_bits_OR or.assoc)
  then show ?thesis using assms(3,4) rights_flags [of 0 "PA2PTE f OR flags OR PTE_V"] by (simp add: user_frame_def)
qed

text \<open>Undoing: the pages are unmapped and freed, the tables stay.\<close>

lemma grown_undo:
  assumes g: "grown s t pt va k flags A" and va: "page_aligned va" "unat va + 4096 * k < 4294967296"
    and fl: "flag_bits flags" "(flags OR PTE_V) AND rights 0 = rights 0"
    and un: "\<And>va'. in_block va (4096 * k) va' \<Longrightarrow> walk (mem s) pt va' = None"
    and st': "user_step t t' pt" "walk (mem t') pt = walk (mem t) pt"
  shows "\<exists>u. uvmunmap pt va (of_nat k * 4096) True t' = Ok () u \<and> user_step s u pt \<and> walk (mem u) pt = walk (mem s) pt"
proof -
  have st: "user_step s t pt" and fr: "fresh_range s t pt va k flags" using g by (simp_all add: grown_def)
  have "walk (mem t') pt va' = None \<or> user_frame (mem t') pt 0 va' \<noteq> None" if "in_block va (4096 * k) va'" for va'
    using that fr user_leaf [OF _ fl, of _ "mem t'" pt va'] unfolding fresh_range_def st'(2) by (metis option.distinct(1))
  then obtain u where u: "uvmunmap pt va (of_nat k * 4096) True t' = Ok () u" "user_step t' u pt"
    "walk (mem u) pt = unmap_range (walk (mem t') pt) va k"
    using uvmunmap_spec [OF user_stepD(2,3) [OF st'(1)] va] by blast
  have "walk (mem u) pt = walk (mem s) pt"
    using un fr by (auto simp: u(3) st'(2) unmap_range_def fresh_range_def fun_eq_iff)
  with u user_step_trans [OF user_step_trans [OF st st'(1)] u(2)] show ?thesis by blast
qed

lemma grown_add:
  assumes g: "grown s t pt va k flags A" and va: "page_aligned va" and k: "k < 1048576"
    and fl: "flag_bits flags" "(flags OR PTE_V) AND rights 0 = rights 0"
    and f: "f \<in> free_pages t" "page_aligned f" and A: "vpn1 (va + of_nat k * 4096) \<in> A"
    and add: "page_added t v pt (va + of_nat k * 4096) f flags m" and zero: "\<forall>x. PGROUNDDOWN x = f \<longrightarrow> m x = 0"
  shows "grown s v pt va (Suc k) flags A"
proof -
  have fr: "fresh_range s t pt va k flags" and fs: "free_pages t \<subseteq> free_pages s" and st: "user_step s t pt"
    and c: "card (frames (mem t) pt) = card (frames (mem s) pt) + k" and rt: "roots (mem t) pt \<subseteq> roots (mem s) pt \<union> A"
    and ov: "frames (mem s) pt \<subseteq> frames (mem t) pt" "\<forall>x. PGROUNDDOWN x \<in> frames (mem s) pt \<longrightarrow> mem t x = mem s x"
    using g by (simp_all add: grown_def)
  have v: "user_step t v pt" "walk (mem v) pt = map_page (walk (mem t) pt) (va + of_nat k * 4096) (PA2PTE f OR flags OR PTE_V)"
      "\<forall>x. PGROUNDDOWN x = f \<longrightarrow> mem v x = 0"
      "\<forall>x. PGROUNDDOWN x \<notin> insert f (tables (mem v) pt) \<longrightarrow> mem v x = mem t x"
      "f \<notin> frames (mem t) pt" "frames (mem v) pt = insert f (frames (mem t) pt)"
      "roots (mem v) pt \<subseteq> insert (vpn1 (va + of_nat k * 4096)) (roots (mem t) pt)" "free_pages v \<subseteq> free_pages t"
    using add zero by (simp_all add: page_added_def)
  have old: "mem v x = mem t x" if "PGROUNDDOWN x \<in> frames (mem t) pt" for x
  proof -
    have "PGROUNDDOWN x \<in> frames (mem v) pt" using that v(6) by simp
    then have "PGROUNDDOWN x \<notin> tables (mem v) pt" using user_wfD(3) [OF user_stepD(3) [OF v(1)]] by (auto simp: frames_def)
    then show ?thesis using v(4,5) that by auto
  qed
  have "if in_block va (4096 * Suc k) va'
    then \<exists>f. walk (mem v) pt va' = Some (PA2PTE f OR flags OR PTE_V) \<and> page_aligned f \<and> f \<in> free_pages s
      \<and> (\<forall>x. PGROUNDDOWN x = f \<longrightarrow> mem v x = 0)
    else walk (mem v) pt va' = walk (mem s) pt va'" for va'
  proof -
    have b: "in_block va (4096 * k) va' \<longleftrightarrow> unat (va' - va) div 4096 < k"
      "in_block va (4096 * Suc k) va' \<longleftrightarrow> unat (va' - va) div 4096 < Suc k"
      unfolding in_block_def by (auto simp: div_less_iff_less_mult algebra_simps)
    note p = page_step_iff [OF va k, of va']
    show ?thesis
    proof (cases "PGROUNDDOWN va' = va + of_nat k * 4096")
      case True
      then show ?thesis using b p v(2,3) f fs by (auto simp: map_page_def)
    next
      case False
      then have w: "walk (mem v) pt va' = walk (mem t) pt va'" using v(2) by (simp add: map_page_def)
      have iff: "in_block va (4096 * Suc k) va' \<longleftrightarrow> in_block va (4096 * k) va'" using False b p by auto
      show ?thesis
      proof (cases "in_block va (4096 * k) va'")
        case no: False
        then show ?thesis using fr w iff by (simp add: fresh_range_def)
      next
        case yes: True
        then obtain f' where f': "walk (mem t) pt va' = Some (PA2PTE f' OR flags OR PTE_V)" "page_aligned f'"
          "f' \<in> free_pages s" "\<forall>x. PGROUNDDOWN x = f' \<longrightarrow> mem t x = 0"
          using fr unfolding fresh_range_def by metis
        have "f' \<in> frames (mem t) pt" using user_leaf [OF f'(2) fl f'(1)] by (auto simp: frames_def)
        then show ?thesis using yes iff w f' old by auto
      qed
    qed
  qed
  moreover have "card (frames (mem v) pt) = card (frames (mem s) pt) + Suc k" using v(5,6) c by simp
  moreover have "roots (mem v) pt \<subseteq> roots (mem s) pt \<union> A" using v(7) rt A by blast
  moreover have "frames (mem s) pt \<subseteq> frames (mem v) pt" using ov(1) v(6) by blast
  moreover have "\<forall>x. PGROUNDDOWN x \<in> frames (mem s) pt \<longrightarrow> mem v x = mem s x" using ov old by auto
  ultimately show ?thesis
    using user_step_trans [OF st v(1)] v(8) fs by (simp add: grown_def fresh_range_def)
qed

lemma user_flags:
  assumes "flag_bits xperm"
  shows "flag_bits (PTE_R OR PTE_U OR xperm)" "((PTE_R OR PTE_U OR xperm) OR PTE_V) AND rights 0 = rights 0"
proof -
  have "flag_bits (PTE_R OR PTE_U)" by (simp add: flag_bits_def PTE_R_def PTE_U_def)
  from flag_bits_OR [OF this assms] show "flag_bits (PTE_R OR PTE_U OR xperm)" by (simp add: or.assoc)
  have "(PTE_R OR PTE_U OR xperm) OR PTE_V = rights 0 OR (PTE_R OR xperm)"
    by (simp add: rights_def or.assoc or.commute or.left_commute)
  moreover have "(a OR b) AND a = a" for a b :: u32 by (rule bit_word_eqI) (auto simp: bit_simps)
  ultimately show "((PTE_R OR PTE_U OR xperm) OR PTE_V) AND rights 0 = rights 0" by simp
qed

lemma uvmalloc_step:
  fixes xperm :: u32
  defines "flags \<equiv> PTE_R OR PTE_U OR xperm"
  assumes s: "user_wf s pt" and g: "grown s t pt start k flags A" and k: "k < n" and fl: "flag_bits xperm"
    and start: "page_aligned start" "unat start + 4096 * n < 4294967296"
    and A: "A = vpn1 ` {va. in_block start (4096 * n) va}"
    and un: "\<forall>va. in_block start (4096 * n) va \<longrightarrow> walk (mem s) pt va = None"
    and p: "p = start + of_nat k * 4096" "p < newsz"
  shows "(\<exists>u. uvmalloc_body pt start newsz xperm p t = Ok (Inl (p + PAGE_SIZE)) u \<and> grown s u pt start (Suc k) flags A)
    \<or> (\<exists>u. uvmalloc_body pt start newsz xperm p t = Ok (Inr 0) u \<and> user_step s u pt \<and> walk (mem u) pt = walk (mem s) pt
        \<and> card (free_pages s) < n + card A)"
proof -
  note f = user_flags [OF fl, folded flags_def]
  have k20: "k < 1048576" using k start(2) by simp
  have st: "user_step s t pt" and fr: "fresh_range s t pt start k flags" using g by (simp_all add: grown_def)
  have pb: "in_block start (4096 * n) p" "\<not> in_block start (4096 * k) p" "page_aligned p"
    using k k20 p(1) start(1) by (simp_all add: in_block_def unat_pages)
  then have wp: "walk (mem t) pt p = None" using fr un by (simp add: fresh_range_def)
  have vA: "vpn1 p \<in> A" using pb(1) A by blast
  have diff: "p - start = of_nat k * 4096" using p(1) by simp
  have sub: "in_block start (4096 * n) va" if "in_block start (4096 * k) va" for va using that k by (simp add: in_block_def)
  have undo: "\<exists>u. uvmunmap pt start (p - start) True t' = Ok () u \<and> user_step s u pt \<and> walk (mem u) pt = walk (mem s) pt"
    if "user_step t t' pt" "walk (mem t') pt = walk (mem t) pt" for t'
    unfolding diff using start(2) k un sub by (intro grown_undo [OF g start(1) _ f _ that]) auto
  note cnt = grown_count [OF g s]
  show ?thesis
    using user_stepD(2) [OF st]
  proof (cases rule: kalloc_step)
    case (none t')
    obtain u where "uvmunmap pt start (p - start) True t' = Ok () u" "user_step s u pt" "walk (mem u) pt = walk (mem s) pt"
      using undo [OF user_step_noise [OF none(3) user_stepD(2,3) [OF st]]] noise_fields [OF none(3)] by auto
    moreover have "card (free_pages s) < n + card A"
      using cnt none(2) k card_mono [of A "A - (roots (mem s) pt \<union> - roots (mem t) pt)"] by simp
    ultimately show ?thesis using none(1) p(2) by (intro disjI2 exI [of _ u]) (simp add: uvmalloc_body_def)
  next
    case (page q t')
    let ?m = "fill_block q 4096 0 (mem t)"
    have al: "page_aligned q" using heap_page_facts [OF page(4) user_stepD(2) [OF st]] by simp
    have m: "\<forall>x. PGROUNDDOWN x \<noteq> q \<longrightarrow> ?m x = mem t x" using al by (simp add: fill_page)
    have ms: "memset q 0 PAGE_SIZE t' = Ok q (t'\<lparr>mem := ?m\<rparr>)" using page(6) by (simp add: memset_fill PAGE_SIZE_def)
    obtain r v where v: "mappage pt p q flags (t'\<lparr>mem := ?m\<rparr>) = Ok r v" "kctx v"
      and res: "if r \<noteq> 0 then page_added t v pt p q flags ?m else page_refused t v pt p q"
      using add_page [OF user_stepD(2,3) [OF st] page(3,5,6,7) m pb(3) wp f] by blast
    show ?thesis
    proof (cases "r = 0")
      case False
      have "mappages pt p q PAGE_SIZE flags (t'\<lparr>mem := ?m\<rparr>) = Ok 0 v" by (rule mappages_one(1) [OF pb(3) al v(1) False])
      then have "uvmalloc_body pt start newsz xperm p t = Ok (Inl (p + PAGE_SIZE)) v"
        using page(1,2) p(2) ms by (simp add: uvmalloc_body_def flags_def)
      moreover have "grown s v pt start (Suc k) flags A"
        using res False al vA p(1) by (intro grown_add [OF g start(1) k20 f page(3) al]) (auto simp: fill_page)
      ultimately show ?thesis by blast
    next
      case True
      then have bad: "free_pages t = {q}" "vpn1 p \<notin> roots (mem t) pt"
        "\<forall>v'. noise v v' \<longrightarrow> (\<exists>w. kfree q v' = Ok () w \<and> user_step t w pt \<and> walk (mem w) pt = walk (mem t) pt)"
        using res by (auto simp: page_refused_def)
      obtain v' where v': "mappages pt p q PAGE_SIZE flags (t'\<lparr>mem := ?m\<rparr>) = Ok (-1) v'" "noise v v'"
        using mappages_one(2) [OF pb(3) al v(1) True v(2)] by blast
      obtain w where w: "kfree q v' = Ok () w" "user_step t w pt" "walk (mem w) pt = walk (mem t) pt"
        using bad(3) v'(2) by blast
      obtain u where "uvmunmap pt start (p - start) True w = Ok () u" "user_step s u pt" "walk (mem u) pt = walk (mem s) pt"
        using undo [OF w(2,3)] by blast
      moreover have "card (A - (roots (mem s) pt \<union> - roots (mem t) pt)) < card A"
        using bad(2) vA by (intro psubset_card_mono) auto
      then have "card (free_pages s) < n + card A" using cnt bad(1) k by simp
      ultimately show ?thesis
        using page(1,2) p(2) ms v'(1) w(1) by (intro disjI2 exI [of _ u]) (simp add: uvmalloc_body_def flags_def)
    qed
  qed
qed

lemma uvmalloc_spec:
  fixes xperm newsz :: u32
  defines "flags \<equiv> PTE_R OR PTE_U OR xperm"
  assumes s: "mem_ready s" "user_wf s pt" and fl: "flag_bits xperm" and le: "oldsz \<le> newsz"
    and start: "page_aligned start" "start = PGROUNDUP oldsz"
    and n: "unat start + 4096 * n < 4294967296" "unat newsz \<le> unat start + 4096 * n" "n = 0 \<or> unat start + 4096 * (n - 1) < unat newsz"
    and A: "A = vpn1 ` {va. in_block start (4096 * n) va}"
    and un: "\<forall>va. in_block start (4096 * n) va \<longrightarrow> walk (mem s) pt va = None"
  shows "\<exists>r t. uvmalloc pt oldsz newsz xperm s = Ok r t
    \<and> (r = newsz \<and> grown s t pt start n flags A
       \<or> r = 0 \<and> user_step s t pt \<and> walk (mem t) pt = walk (mem s) pt \<and> card (free_pages s) < n + card A)"
proof -
  let ?body = "uvmalloc_body pt start newsz xperm"
  let ?I = "\<lambda>i x t. \<exists>k. k + i = n \<and> x = start + of_nat k * 4096 \<and> grown s t pt start k flags A"
  let ?Q = "\<lambda>r t. r = newsz \<and> grown s t pt start n flags A
       \<or> r = 0 \<and> user_step s t pt \<and> walk (mem t) pt = walk (mem s) pt \<and> card (free_pages s) < n + card A"
  have addr: "unat (start + of_nat k * 4096) = unat start + k * 4096" if "k \<le> n" for k
    using that n(1) unat_pages [of k] by (subst unat_add_lt) auto
  have "\<exists>r t. kloop ?body start s = Ok r t \<and> ?Q r t"
  proof (rule kloop_count [where I = ?I])
    show "?I n start s" using grown_0 [OF s] by (intro exI [of _ 0]) simp
  next
    fix x t
    assume "?I 0 x t"
    then have x: "x = start + of_nat n * 4096" and g: "grown s t pt start n flags A" by auto
    have "\<not> x < newsz" using addr [of n] n(2) x by (simp add: word_less_nat_alt)
    then have "?body x t = Ok (Inr newsz) t" by (simp add: uvmalloc_body_def)
    with g show "\<exists>r u. ?body x t = Ok (Inr r) u \<and> ?Q r u" by blast
  next
    fix i x t
    assume "?I (Suc i) x t"
    then obtain k where k: "k + Suc i = n" "x = start + of_nat k * 4096" "grown s t pt start k flags A" by blast
    have kn: "k < n" using k(1) by simp
    have "unat start + 4096 * k < unat newsz" using n(3) kn mult_le_mono2 [of k "n - 1" 4096] by linarith
    then have lt: "x < newsz" using addr [of k] kn k(2) by (simp add: word_less_nat_alt)
    have nxt: "?I i (x + PAGE_SIZE) u" if "grown s u pt start (Suc k) flags A" for u
      using that k(1,2) by (intro exI [of _ "Suc k"]) (simp add: PAGE_SIZE_def algebra_simps)
    from uvmalloc_step [OF s(2) k(3) [unfolded flags_def] kn fl start(1) n(1) A un k(2) lt, folded flags_def]
    show "(\<exists>y u. ?body x t = Ok (Inl y) u \<and> ?I i y u) \<or> (\<exists>r u. ?body x t = Ok (Inr r) u \<and> ?Q r u)"
    proof (elim disjE exE conjE)
      fix u
      assume "?body x t = Ok (Inl (x + PAGE_SIZE)) u" "grown s u pt start (Suc k) flags A"
      with nxt show ?thesis by blast
    next
      fix u
      assume "?body x t = Ok (Inr 0) u" "user_step s u pt" "walk (mem u) pt = walk (mem s) pt" "card (free_pages s) < n + card A"
      then show ?thesis by blast
    qed
  qed
  moreover have "uvmalloc pt oldsz newsz xperm s = kloop ?body start s"
    using leD [OF le] by (simp add: uvmalloc_def start(2))
  ultimately show ?thesis by simp
qed

section \<open>Properties\<close>

text \<open>How many pages lie between the two sizes.\<close>

lemma page_span:
  assumes "oldsz \<le> newsz" "newsz \<le> UART_0"
  obtains n where "page_aligned (PGROUNDUP oldsz)" "unat (PGROUNDUP newsz) = unat (PGROUNDUP oldsz) + 4096 * n"
    "unat (PGROUNDUP newsz) \<le> 0x10000000" "unat newsz \<le> unat (PGROUNDUP newsz)" "page_aligned (PGROUNDUP newsz)"
    "n = 0 \<or> unat (PGROUNDUP oldsz) + 4096 * (n - 1) < unat newsz"
proof -
  have le: "unat oldsz \<le> unat newsz" "unat newsz \<le> 0x10000000"
    using assms by (simp_all add: word_le_nat_alt UART_0_def)
  then have u: "unat (PGROUNDUP oldsz) = (unat oldsz + 4095) div 4096 * 4096" "unat (PGROUNDUP newsz) = (unat newsz + 4095) div 4096 * 4096"
    by (simp_all add: page_arith)
  define a b where "a = (unat oldsz + 4095) div 4096" and "b = (unat newsz + 4095) div 4096"
  have ab: "a \<le> b" using le(1) by (simp add: a_def b_def div_le_mono)
  have "b \<le> (0x10000000 + 4095) div 4096" unfolding b_def using le(2) by (intro div_le_mono) simp
  then have n1: "b * 4096 \<le> 0x10000000" by simp
  have d: "b * 4096 + (unat newsz + 4095) mod 4096 = unat newsz + 4095" unfolding b_def by (rule div_mult_mod_eq)
  have m: "(unat newsz + 4095) mod 4096 < 4096" by simp
  have n2: "unat newsz \<le> b * 4096" using d m by linarith
  obtain c where c: "b = a + c" using ab le_Suc_ex by blast
  have n3: "c = 0 \<or> a * 4096 + 4096 * (c - 1) < unat newsz"
  proof (cases c)
    case (Suc c')
    then show ?thesis using d m c by simp
  qed simp
  note u = u [folded a_def b_def]
  show ?thesis
    by (rule that [of c]) (use u n1 n2 n3 c in \<open>simp_all add: page_aligned_def\<close>)
qed

lemma as_wf_grown:
  assumes wf: "as_wf s pt start" and g: "grown s t pt start n flags A" and fl: "flag_bits flags" "(flags OR PTE_V) AND rights 0 = rights 0"
    and e: "unat lim = unat start + 4096 * n" "lim \<le> UART_0" and base: "USER_BASE \<le> start"
  shows "as_wf t pt lim"
proof -
  note w = as_wfD [OF wf]
  have b: "in_block start (4096 * n) va \<longleftrightarrow> start \<le> va \<and> va < lim" for va
    using e in_block_nowrap [of start "4096 * n" va] by (auto simp: word_le_nat_alt word_less_nat_alt UART_0_def)
  have new: "user_frame (mem t) pt 0 va \<noteq> None" if "start \<le> va" "va < lim" for va
    using g that user_leaf [OF _ fl, of _ "mem t" pt va] b unfolding grown_def fresh_range_def by (metis option.distinct(1))
  have old: "walk (mem t) pt va = walk (mem s) pt va" "user_frame (mem t) pt 0 va = user_frame (mem s) pt 0 va"
    if "\<not> (start \<le> va \<and> va < lim)" for va
    using g that b unfolding grown_def fresh_range_def by (auto simp: user_frame_def)
  have "user_wf t pt" using g user_stepD(3) by (auto simp: grown_def)
  moreover have "page_aligned lim" using w(2) e(1) by (simp add: page_aligned_def)
  moreover have "walk (mem t) pt va = None \<or> user_frame (mem t) pt 0 va \<noteq> None"
    if "va < UART_0 \<or> PGROUNDDOWN va = stack_page" for va
    using w(4) [OF that] new old [of va] by (cases "start \<le> va \<and> va < lim") auto
  moreover have "user_region lim va" if "user_frame (mem t) pt 0 va \<noteq> None" for va
  proof (cases "start \<le> va \<and> va < lim")
    case True
    then show ?thesis using base order_trans [of USER_BASE start va] by (simp add: user_region_def)
  next
    case False
    then have "user_region start va" using that w(5) [of va] old(2) by auto
    moreover have "start \<le> lim" using e(1) by (simp add: word_le_nat_alt)
    ultimately show ?thesis using less_le_trans [of va start lim] by (auto simp: user_region_def)
  qed
  ultimately show ?thesis using e(2) by (simp add: as_wf_def)
qed

lemma as_wf_same: "as_wf s pt sz \<Longrightarrow> user_wf t pt \<Longrightarrow> walk (mem t) pt = walk (mem s) pt \<Longrightarrow> as_wf t pt sz"
  using user_frame_cong [of "mem t" pt "mem s"] by (simp add: as_wf_def)

lemma offset_page: "page_aligned f \<Longrightarrow> PGROUNDDOWN (f + (va AND 0xFFF)) = f"
  using PGROUNDDOWN_add [of f "va AND 0xFFF"] by (simp add: PGROUNDDOWN_minus offset_take_bit add.commute)

lemma translate_leaf:
  assumes "page_aligned f" "flag_bits flags" "walk m pt va = Some (PA2PTE f OR flags OR PTE_V)"
  shows "translate m pt va = Some (f + (va AND 0xFFF), flags OR PTE_V)"
  using PTE2PA_make [of f "flags OR PTE_V"] assms by (simp add: translate_def flag_bits_OR or.assoc)

lemma above_unmapped:
  assumes wf: "as_wf s pt sz" and va: "sz \<le> va" "va < UART_0"
  shows "walk (mem s) pt va = None"
proof (rule ccontr)
  assume "walk (mem s) pt va \<noteq> None"
  then have "user_frame (mem s) pt 0 va \<noteq> None" using as_wfD(4) [OF wf, of va] va(2) by auto
  then have "user_region sz va" using as_wfD(5) [OF wf, of va] by auto
  then show False using va stack_not_image [of va UART_0] by (auto simp: user_region_def)
qed

text \<open>Both outcomes for sizes in the user range.\<close>

lemma uvmalloc_cases:
  fixes xperm oldsz newsz :: u32
  defines "flags \<equiv> PTE_R OR PTE_U OR xperm"
  assumes s: "mem_ready s" "as_wf s pt (PGROUNDUP oldsz)" "USER_BASE \<le> PGROUNDUP oldsz" "oldsz \<le> newsz" "newsz \<le> UART_0" "flag_bits xperm"
  obtains (grown) n t where "uvmalloc pt oldsz newsz xperm s = Ok newsz t" "newsz \<noteq> 0" "grown s t pt (PGROUNDUP oldsz) n flags UNIV"
      "as_wf t pt (PGROUNDUP newsz)" "unat (PGROUNDUP newsz) = unat (PGROUNDUP oldsz) + 4096 * n"
      "\<forall>va. in_block (PGROUNDUP oldsz) (4096 * n) va \<longleftrightarrow> PGROUNDUP oldsz \<le> va \<and> va < PGROUNDUP newsz"
  | (short) n t where "uvmalloc pt oldsz newsz xperm s = Ok 0 t" "newsz \<noteq> 0" "user_step s t pt" "walk (mem t) pt = walk (mem s) pt"
      "as_wf t pt (PGROUNDUP oldsz)" "unat (PGROUNDUP newsz) = unat (PGROUNDUP oldsz) + 4096 * n"
      "card (free_pages s) < n + card (vpn1 ` {va. PGROUNDUP oldsz \<le> va \<and> va < PGROUNDUP newsz})"
proof -
  let ?start = "PGROUNDUP oldsz" and ?lim = "PGROUNDUP newsz"
  obtain n where n: "page_aligned ?start" "unat ?lim = unat ?start + 4096 * n" "unat ?lim \<le> 0x10000000"
    "unat newsz \<le> unat ?lim" "page_aligned ?lim" "n = 0 \<or> unat ?start + 4096 * (n - 1) < unat newsz"
    using page_span [OF s(4,5)] .
  note fl = user_flags [OF s(6), folded flags_def]
  have lim: "?lim \<le> UART_0" using n(3) by (simp add: word_le_nat_alt UART_0_def)
  have b: "in_block ?start (4096 * n) va \<longleftrightarrow> ?start \<le> va \<and> va < ?lim" for va
    using n(2,3) in_block_nowrap [of ?start "4096 * n" va] by (auto simp: word_le_nat_alt word_less_nat_alt)
  have un: "\<forall>va. in_block ?start (4096 * n) va \<longrightarrow> walk (mem s) pt va = None"
    unfolding b using above_unmapped [OF s(2)] less_le_trans [OF _ lim] by blast
  have "unat ?start + 4096 * n < 4294967296" "unat newsz \<le> unat ?start + 4096 * n" using n(2,3,4) by simp_all
  then obtain r t where rt: "uvmalloc pt oldsz newsz xperm s = Ok r t"
    "r = newsz \<and> grown s t pt ?start n flags (vpn1 ` {va. in_block ?start (4096 * n) va})
     \<or> r = 0 \<and> user_step s t pt \<and> walk (mem t) pt = walk (mem s) pt
       \<and> card (free_pages s) < n + card (vpn1 ` {va. in_block ?start (4096 * n) va})"
    using uvmalloc_spec [OF s(1) as_wfD(1) [OF s(2)] s(6,4) n(1) refl _ _ n(6) refl un] unfolding flags_def by blast
  have nz: "newsz \<noteq> 0" using s(3,4) by (auto simp: USER_BASE_def PGROUNDUP_def PAGE_SIZE_def)
  from rt(2) show ?thesis
  proof (elim disjE conjE)
    assume r: "r = newsz" and g: "grown s t pt ?start n flags (vpn1 ` {va. in_block ?start (4096 * n) va})"
    have "grown s t pt ?start n flags UNIV" using g by (simp add: grown_def)
    then show ?thesis
      using grown [of t n] rt(1) r nz as_wf_grown [OF s(2) g fl n(2) lim s(3)] n(2) b by blast
  next
    assume r: "r = 0" and t: "user_step s t pt" "walk (mem t) pt = walk (mem s) pt"
      "card (free_pages s) < n + card (vpn1 ` {va. in_block ?start (4096 * n) va})"
    show ?thesis
      using short [of t n] rt(1) r nz t as_wf_same [OF s(2) user_stepD(3) [OF t(1)] t(2)] n(2) by (simp add: b)
  qed
qed

text \<open>
  C27 (invariant). \<open>uvmalloc\<close> on a well-formed address space, within the user range, is all or
  nothing. Either it returns the new size and the address space is well formed with that size,
  the new pages being fresh, zeroed and accessible with the permissions asked for and the
  pages it had keeping their contents; or it returns 0, every mapping is as before, and memory was indeed too short for the pages and
  their tables. In both cases no page is lost and no page of anyone else is written.
\<close>

theorem uvmalloc_all_or_nothing:
  assumes "mem_ready s" "as_wf s pt (PGROUNDUP oldsz)" "USER_BASE \<le> PGROUNDUP oldsz" "oldsz \<le> newsz" "newsz \<le> UART_0" "flag_bits xperm"
  shows "\<exists>r t. uvmalloc pt oldsz newsz xperm s = Ok r t \<and> user_step s t pt
    \<and> (if r = newsz \<and> newsz \<noteq> 0
       then as_wf t pt (PGROUNDUP newsz)
         \<and> (\<forall>va. if PGROUNDUP oldsz \<le> va \<and> va < PGROUNDUP newsz
             then \<exists>f\<in>free_pages s. translate (mem t) pt va = Some (f + (va AND 0xFFF), PTE_R OR PTE_U OR xperm OR PTE_V)
               \<and> mem t (f + (va AND 0xFFF)) = 0
             else translate (mem t) pt va = translate (mem s) pt va)
         \<and> (\<forall>x. PGROUNDDOWN x \<in> frames (mem s) pt \<longrightarrow> mem t x = mem s x)
       else r = 0 \<and> as_wf t pt (PGROUNDUP oldsz) \<and> translate (mem t) pt = translate (mem s) pt
         \<and> card (free_pages s) < unat (PGROUNDUP newsz - PGROUNDUP oldsz) div 4096
             + card (vpn1 ` {va. PGROUNDUP oldsz \<le> va \<and> va < PGROUNDUP newsz}))"
  using assms
proof (cases rule: uvmalloc_cases)
  case (grown n t)
  let ?flags = "PTE_R OR PTE_U OR xperm"
  note fl = user_flags [OF assms(6)]
  have "if PGROUNDUP oldsz \<le> va \<and> va < PGROUNDUP newsz
      then \<exists>f\<in>free_pages s. translate (mem t) pt va = Some (f + (va AND 0xFFF), PTE_R OR PTE_U OR xperm OR PTE_V)
        \<and> mem t (f + (va AND 0xFFF)) = 0
      else translate (mem t) pt va = translate (mem s) pt va" for va
  proof (cases "PGROUNDUP oldsz \<le> va \<and> va < PGROUNDUP newsz")
    case True
    then obtain f where f: "walk (mem t) pt va = Some (PA2PTE f OR ?flags OR PTE_V)" "page_aligned f" "f \<in> free_pages s"
      "\<forall>x. PGROUNDDOWN x = f \<longrightarrow> mem t x = 0"
      using grown(3,6) unfolding grown_def fresh_range_def by metis
    then show ?thesis
      using True translate_leaf [OF f(2) fl(1) f(1)] offset_page [OF f(2), of va] by (auto simp: or.assoc)
  next
    case False
    then have "walk (mem t) pt va = walk (mem s) pt va" using grown(3,6) unfolding grown_def fresh_range_def by metis
    then show ?thesis unfolding if_not_P [OF False] by (simp add: translate_def)
  qed
  then show ?thesis
    using grown(1-4) by (intro exI [of _ newsz] exI [of _ t]) (simp add: grown_def)
next
  case (short n t)
  have "unat (PGROUNDUP newsz - PGROUNDUP oldsz) = 4096 * n" using short(6) by (simp add: unat_sub word_le_nat_alt)
  then show ?thesis
    using short by (intro exI [of _ 0] exI [of _ t]) (simp add: translate_def fun_eq_iff)
qed

text \<open>
  C28 (safety). \<open>uvmfree\<close> on a well-formed address space gives every page of it back: its tables
  and its user pages become free, nothing else does, and no page of anyone else is written.
\<close>

theorem uvmfree_returns_every_page:
  assumes "mem_ready s" "as_wf s pt sz"
  shows "\<exists>t. uvmfree pt sz s = Ok () t \<and> mem_ready t \<and> free_pages t = free_pages s \<union> owned (mem s) pt
    \<and> (\<forall>x. PGROUNDDOWN x \<notin> owned (mem s) pt \<union> free_pages s \<longrightarrow> mem t x = mem s x)"
  using uvmfree_spec [OF assms] mem_stepD by blast

text \<open>Concrete runs: an empty address space, grown by a page, and freed.\<close>

lemma small_as:
  obtains pt s where "ptcreate small_mem = Ok pt s" "mem_ready s" "as_wf s pt 0x1000" "card (free_pages s) = 2"
    "free_pages s \<union> owned (mem s) pt = {0x87FFD000, 0x87FFE000, 0x87FFF000}"
proof -
  obtain pt s where s: "ptcreate small_mem = Ok pt s" "mem_ready s" "pt_wf s pt" "walk (mem s) pt = (\<lambda>_. None)"
    "card (free_pages s) = 2" "pt \<in> {0x87FFD000, 0x87FFE000, 0x87FFF000}" "tables (mem s) pt = {pt}"
    "free_pages s = {0x87FFD000, 0x87FFE000, 0x87FFF000} - {pt}"
    using small_pt .
  have "as_wf s pt 0x1000"
    using s(3,4) by (simp add: as_wf_def user_wf_def user_frame_def page_aligned_def UART_0_def)
  moreover have "free_pages s \<union> owned (mem s) pt = {0x87FFD000, 0x87FFE000, 0x87FFF000}"
    using s(4,6,7,8) by (auto simp: owned_def frames_def user_frame_def)
  ultimately show ?thesis using that s(1,2,5) by blast
qed

theorem uvmfree_returns_every_page_witness:
  "\<exists>pt s t. ptcreate small_mem = Ok pt s \<and> uvmfree pt 0x1000 s = Ok () t
    \<and> free_pages t = {0x87FFD000, 0x87FFE000, 0x87FFF000}"
proof -
  obtain pt s where s: "ptcreate small_mem = Ok pt s" "mem_ready s" "as_wf s pt 0x1000" "card (free_pages s) = 2"
    "free_pages s \<union> owned (mem s) pt = {0x87FFD000, 0x87FFE000, 0x87FFF000}"
    using small_as .
  from uvmfree_returns_every_page [OF s(2,3)] s(1,5) show ?thesis by auto
qed

theorem uvmalloc_all_or_nothing_witness:
  "\<exists>pt s t. ptcreate small_mem = Ok pt s \<and> uvmalloc pt 0x1000 0x1001 PTE_W s = Ok 0x1001 t \<and> as_wf t pt 0x2000"
proof -
  obtain pt s where s: "ptcreate small_mem = Ok pt s" "mem_ready s" "as_wf s pt 0x1000" "card (free_pages s) = 2"
    "free_pages s \<union> owned (mem s) pt = {0x87FFD000, 0x87FFE000, 0x87FFF000}"
    using small_as .
  have up: "PGROUNDUP 0x1000 = 0x1000" "PGROUNDUP 0x1001 = 0x2000" by (simp_all add: PGROUNDUP_def PAGE_SIZE_def)
  have "vpn1 ` {va. 0x1000 \<le> va \<and> va < 0x2000} \<subseteq> {0}"
    by (auto simp: unat_eq_iff_u32 unat_vpn1 word_less_nat_alt)
  then have "card (vpn1 ` {va. 0x1000 \<le> va \<and> va < 0x2000}) \<le> 1" using card_mono [of "{0 :: u32}"] by simp
  moreover have "flag_bits PTE_W" by (simp add: flag_bits_def PTE_W_def)
  ultimately show ?thesis
    using uvmalloc_all_or_nothing [OF s(2), of pt "0x1000" "0x1001" PTE_W] s(1,3,4) unfolding up
    by (auto simp: USER_BASE_def UART_0_def split: if_splits)
qed

end
