(* ===== verification/Address_Space.thy ===== *)
theory Address_Space
  imports Kernel_Map Uvm
begin

text \<open>
  The address spaces of user processes (\<^verbatim>\<open>proc.c\<close>): \<open>init_userpt\<close> builds the page table every
  process starts from, \<open>uvmcopy\<close> copies the user memory of a parent into a child. Both either do
  the whole work or report the failure without losing a page.
\<close>

section \<open>The initial page table\<close>

text \<open>
  The disjunction of \<open>mappages(...) < 0\<close> tests, evaluated from the left: whether one of the
  one-to-one mappings fails.
\<close>

fun mapping_fails :: "u32 \<Rightarrow> (u32 \<times> u32 \<times> u32) list \<Rightarrow> 'a memst_scheme \<Rightarrow> (bool, 'a memst_scheme) res" where
  "mapping_fails pt [] s = Ok False s"
| "mapping_fails pt ((va, len, flags) # ms) s =
     kbind (mappages pt va va len flags s) (\<lambda>r s. if r < 0 then Ok True s else mapping_fails pt ms s)"

text \<open>\<open>tramp\<close> is the address the linker gives the symbol \<^verbatim>\<open>_trampoline\<close>.\<close>

definition init_userpt :: "u32 \<Rightarrow> 'a memst_scheme \<Rightarrow> (u32, 'a memst_scheme) res" where
  "init_userpt tramp s =
     kbind (ptcreate s) (\<lambda>pt s.
       if pt = 0 then Ok 0 s
       else let text_len = tramp - KERNBASE;
                data_start = tramp + PAGE_SIZE
            in kbind (mapping_fails pt
                 [(KERNBASE, text_len, PTE_R OR PTE_X OR PTE_V),
                  (tramp, PAGE_SIZE, PTE_R OR PTE_X OR PTE_V),
                  (data_start, MEM_END - data_start, PTE_R OR PTE_W OR PTE_V),
                  (UART_0, PAGE_SIZE, PTE_R OR PTE_W OR PTE_V)] s) (\<lambda>failed s.
               if failed then kbind (freewalk pt s) (\<lambda>_ s. Ok 0 s) else Ok pt s))"

text \<open>
  \<open>uvmcopy\<close> copies one page twice in the source, in the loop and for the stack, with other
  error messages; \<open>copy_page\<close> is that piece of code, returning whether it succeeded.
\<close>

definition copy_page :: "string \<Rightarrow> string \<Rightarrow> u32 \<Rightarrow> u32 \<Rightarrow> u32 \<Rightarrow> u32 \<Rightarrow> 'a memst_scheme \<Rightarrow> (bool, 'a memst_scheme) res" where
  "copy_page no_mem no_map new_pt va pa flags s =
     kbind (kalloc s) (\<lambda>page s.
       if page = 0 then kbind (error no_mem s) (\<lambda>_ s. Ok False s)
       else kbind (memmove page pa PAGE_SIZE s) (\<lambda>_ s.
         kbind (mappage new_pt va page flags s) (\<lambda>r s.
           if r = 0 then kbind (error no_map s) (\<lambda>_ s. kbind (kfree page s) (\<lambda>_ s. Ok False s))
           else Ok True s)))"

definition uvmcopy_body :: "u32 \<Rightarrow> u32 \<Rightarrow> u32 \<Rightarrow> u32 \<Rightarrow> 'a memst_scheme \<Rightarrow> (u32 + bool, 'a memst_scheme) res" where
  "uvmcopy_body old_pt new_pt sz va s =
     (if va < sz
      then kbind (find_pte old_pt va False s) (\<lambda>pte s.
        if pte = 0 \<or> load32 (mem s) pte AND PTE_V = 0 then Ok (Inl (va + PAGE_SIZE)) s
        else kbind (copy_page ''uvmcopy: kalloc'' ''uvmcopy: mappage'' new_pt va
               (PTE2PA (load32 (mem s) pte)) (PTE_FLAGS (load32 (mem s) pte)) s) (\<lambda>ok s.
          if ok then Ok (Inl (va + PAGE_SIZE)) s else Ok (Inr False) s))
      else Ok (Inr True) s)"

definition uvmcopy :: "u32 \<Rightarrow> u32 \<Rightarrow> u32 \<Rightarrow> 'a memst_scheme \<Rightarrow> (int, 'a memst_scheme) res" where
  "uvmcopy old_pt new_pt sz s =
     kbind (kloop (uvmcopy_body old_pt new_pt sz) USER_BASE s) (\<lambda>ok s.
       if \<not> ok then Ok (-1) s
       else let stack_va = USER_STACK_TOP - PAGE_SIZE
            in kbind (find_pte old_pt stack_va False s) (\<lambda>pte s.
              if pte = 0 \<or> load32 (mem s) pte AND PTE_V = 0
              then kbind (error ''uvmcopy: parent has no stack mapped'' s) (\<lambda>_ s. Ok (-1) s)
              else kbind (copy_page ''uvmcopy: kalloc (stack)'' ''uvmcopy: mappage (stack)'' new_pt stack_va
                     (PTE2PA (load32 (mem s) pte)) (PTE_FLAGS (load32 (mem s) pte)) s) (\<lambda>ok s.
                if ok then Ok 0 s else Ok (-1) s)))"

section \<open>Mapping several ranges one to one\<close>

definition id_map :: "(u32 \<times> u32 \<times> u32) list \<Rightarrow> (u32 \<Rightarrow> u32 option) \<Rightarrow> (u32 \<Rightarrow> u32 option)" where
  "id_map = fold (\<lambda>(va, len, flags) w. map_range w va va (unat len div 4096) flags)"

definition in_range :: "u32 \<times> u32 \<times> u32 \<Rightarrow> u32 \<Rightarrow> bool" where
  "in_range = (\<lambda>(va, len, flags). in_block va (unat len))"

definition page_range :: "u32 \<times> u32 \<times> u32 \<Rightarrow> bool" where
  "page_range = (\<lambda>(va, len, flags). page_aligned va \<and> page_aligned len \<and> len \<noteq> 0)"

lemma mapping_fails_spec:
  assumes "mem_ready s" "pt_wf s pt" "\<forall>r\<in>set ms. page_range r"
    "\<forall>r\<in>set ms. \<forall>va. in_range r va \<longrightarrow> walk (mem s) pt va = None"
    "sorted_wrt (\<lambda>r r'. \<forall>va. \<not> (in_range r va \<and> in_range r' va)) ms"
  shows "\<exists>b t. mapping_fails pt ms s = Ok b t \<and> pt_grow s t pt
    \<and> (if b then free_pages t = {} else walk (mem t) pt = id_map ms (walk (mem s) pt))
    \<and> roots (mem t) pt \<subseteq> roots (mem s) pt \<union> vpn1 ` {va. \<exists>r\<in>set ms. in_range r va}"
  using assms
proof (induction ms arbitrary: s)
  case Nil
  then show ?case using pt_grow_noise [OF noise_refl Nil(1,2)] by (intro exI [of _ False]) (simp add: id_map_def)
next
  case (Cons r ms)
  obtain va len flags where r: "r = (va, len, flags)" by (cases r)
  let ?n = "unat len div 4096"
  have al: "page_aligned va" "page_aligned len" "len \<noteq> 0" using Cons.prems(3) by (auto simp: r page_range_def)
  have n: "4096 * ?n = unat len" using al(2) by (auto simp: page_aligned_def)
  have n1: "?n < 1048576" using unat_u32_lt [of len] by (simp add: div_less_iff_less_mult)
  then have n2: "len = of_nat ?n * 4096" using n by (simp add: unat_eq_iff_u32 unat_pages)
  have n3: "?n \<noteq> 0" using n al(3) by (metis mult_0_right unat_eq_zero)
  have un: "walk (mem s) pt va' = None" if "in_block va (4096 * ?n) va'" for va'
    using Cons.prems(4) that unfolding n by (auto simp: r in_range_def)
  obtain k t where t: "mappages pt va va len flags s = Ok (if k = ?n then 0 else -1) t" "k \<le> ?n" "pt_grow s t pt"
    "k < ?n \<longrightarrow> free_pages t = {}" "walk (mem t) pt = map_range (walk (mem s) pt) va va k flags"
    "roots (mem t) pt \<subseteq> roots (mem s) pt \<union> vpn1 ` {va'. in_block va (4096 * ?n) va'}"
    using mappages_spec [OF Cons.prems(1,2) al(1,1) n2 n1 n3 un] by blast
  have rt: "roots (mem t) pt \<subseteq> roots (mem s) pt \<union> vpn1 ` {va. \<exists>r'\<in>set (r # ms). in_range r' va}"
    using t(6) unfolding n by (auto simp: r in_range_def)
  show ?case
  proof (cases "k = ?n")
    case False
    then show ?thesis using t(1-4) rt by (intro exI [of _ True]) (simp add: r)
  next
    case True
    have g: "mem_ready t" "pt_wf t pt" using t(3) by (simp_all add: pt_grow_def)
    have "walk (mem t) pt va' = None" if "r' \<in> set ms" "in_range r' va'" for r' va'
      using that Cons.prems(4,5) unfolding t(5) map_range_def True n by (auto simp: r in_range_def)
    then obtain b u where u: "mapping_fails pt ms t = Ok b u" "pt_grow t u pt"
      "if b then free_pages u = {} else walk (mem u) pt = id_map ms (walk (mem t) pt)"
      "roots (mem u) pt \<subseteq> roots (mem t) pt \<union> vpn1 ` {va. \<exists>r\<in>set ms. in_range r va}"
      using Cons.IH [OF g] Cons.prems(3,5) by auto
    have "roots (mem u) pt \<subseteq> roots (mem s) pt \<union> vpn1 ` {va. \<exists>r'\<in>set (r # ms). in_range r' va}"
      using u(4) rt by auto
    then show ?thesis
      using t(1) u(1,3) True pt_grow_trans [OF t(3) u(2)] by (simp add: r id_map_def t(5))
  qed
qed

section \<open>The initial page table is empty of user pages\<close>

definition user_kernel_map :: "u32 \<Rightarrow> u32 \<Rightarrow> (u32 \<times> u32) option" where
  "user_kernel_map tramp va =
     (if KERNBASE \<le> va \<and> va < tramp + PAGE_SIZE then Some (va, PTE_R OR PTE_X OR PTE_V)
      else if tramp + PAGE_SIZE \<le> va \<and> va < MEM_END then Some (va, PTE_R OR PTE_W OR PTE_V)
      else if UART_0 \<le> va \<and> va < UART_0 + PAGE_SIZE then Some (va, PTE_R OR PTE_W OR PTE_V)
      else None)"

text \<open>Where the linker may put the trampoline: behind some text, with room for data behind it.\<close>

definition tramp_ok :: "u32 \<Rightarrow> bool" where
  "tramp_ok tramp \<longleftrightarrow> page_aligned tramp \<and> KERNBASE < tramp \<and> tramp < MEM_END - PAGE_SIZE"

definition user_ranges :: "u32 \<Rightarrow> (u32 \<times> u32 \<times> u32) list" where
  "user_ranges tramp =
     [(KERNBASE, tramp - KERNBASE, PTE_R OR PTE_X OR PTE_V), (tramp, PAGE_SIZE, PTE_R OR PTE_X OR PTE_V),
      (tramp + PAGE_SIZE, MEM_END - (tramp + PAGE_SIZE), PTE_R OR PTE_W OR PTE_V),
      (UART_0, PAGE_SIZE, PTE_R OR PTE_W OR PTE_V)]"

lemma tramp_okE:
  assumes "tramp_ok tramp"
  obtains n where "unat tramp = 0x80000000 + 4096 * n" "0 < n" "n < 32767"
    "unat (tramp - KERNBASE) = 4096 * n" "unat (tramp + PAGE_SIZE) = 0x80000000 + 4096 * Suc n"
    "unat (MEM_END - (tramp + PAGE_SIZE)) = 4096 * (32767 - n)"
proof -
  have t: "unat tramp mod 4096 = 0" "0x80000000 < unat tramp" "unat tramp < 0x87FFF000"
    using assms by (simp_all add: tramp_ok_def page_aligned_def KERNBASE_def MEM_END_def PAGE_SIZE_def word_less_nat_alt)
  obtain q where q: "unat tramp = 4096 * q" using t(1) by (auto simp: mod_eq_0_iff_dvd dvd_def)
  let ?n = "q - 524288"
  have n: "unat tramp = 0x80000000 + 4096 * ?n" "0 < ?n" "?n < 32767"
    using t(2,3) q by simp_all
  have s: "unat (tramp + PAGE_SIZE) = 0x80000000 + 4096 * Suc ?n"
    using n by (simp add: PAGE_SIZE_def unat_word_ariths)
  have "unat (tramp - KERNBASE) = 4096 * ?n" using n by (simp add: KERNBASE_def unat_sub word_le_nat_alt)
  moreover have "unat (MEM_END - (tramp + PAGE_SIZE)) = 4096 * (32767 - ?n)"
    using n s by (simp add: MEM_END_def unat_sub word_le_nat_alt)
  ultimately show ?thesis using that n s by blast
qed

lemma user_range_sets:
  assumes "unat tramp = 0x80000000 + 4096 * n" "0 < n" "n < 32767"
    "unat (tramp - KERNBASE) = 4096 * n" "unat (tramp + PAGE_SIZE) = 0x80000000 + 4096 * Suc n"
    "unat (MEM_END - (tramp + PAGE_SIZE)) = 4096 * (32767 - n)"
  shows "in_block KERNBASE (unat (tramp - KERNBASE)) va \<longleftrightarrow> 0x80000000 \<le> unat va \<and> unat va < 0x80000000 + 4096 * n"
    "in_block tramp (unat PAGE_SIZE) va \<longleftrightarrow> 0x80000000 + 4096 * n \<le> unat va \<and> unat va < 0x80000000 + 4096 * Suc n"
    "in_block (tramp + PAGE_SIZE) (unat (MEM_END - (tramp + PAGE_SIZE))) va
      \<longleftrightarrow> 0x80000000 + 4096 * Suc n \<le> unat va \<and> unat va < 0x88000000"
    "in_block UART_0 (unat PAGE_SIZE) va \<longleftrightarrow> 0x10000000 \<le> unat va \<and> unat va < 0x10001000"
proof -
  have p: "unat PAGE_SIZE = 4096" "unat KERNBASE = 0x80000000" "unat UART_0 = 0x10000000"
    by (simp_all add: PAGE_SIZE_def KERNBASE_def UART_0_def)
  show "in_block KERNBASE (unat (tramp - KERNBASE)) va \<longleftrightarrow> 0x80000000 \<le> unat va \<and> unat va < 0x80000000 + 4096 * n"
    "in_block tramp (unat PAGE_SIZE) va \<longleftrightarrow> 0x80000000 + 4096 * n \<le> unat va \<and> unat va < 0x80000000 + 4096 * Suc n"
    "in_block UART_0 (unat PAGE_SIZE) va \<longleftrightarrow> 0x10000000 \<le> unat va \<and> unat va < 0x10001000"
    unfolding assms(4) p(1) using assms(1-3) p by (simp_all add: in_block_nowrap)
  show "in_block (tramp + PAGE_SIZE) (unat (MEM_END - (tramp + PAGE_SIZE))) va
      \<longleftrightarrow> 0x80000000 + 4096 * Suc n \<le> unat va \<and> unat va < 0x88000000"
    unfolding assms(6) using assms(3,5) by (subst in_block_nowrap) auto
qed

lemma user_ranges_ok:
  assumes "tramp_ok tramp"
  shows "\<forall>r\<in>set (user_ranges tramp). page_range r"
    and "sorted_wrt (\<lambda>r r'. \<forall>va. \<not> (in_range r va \<and> in_range r' va)) (user_ranges tramp)"
    and "vpn1 ` {va. \<exists>r\<in>set (user_ranges tramp). in_range r va} \<subseteq> of_nat ` {64..<65} \<union> of_nat ` {512..<544}"
proof -
  obtain n where n: "unat tramp = 0x80000000 + 4096 * n" "0 < n" "n < 32767"
    "unat (tramp - KERNBASE) = 4096 * n" "unat (tramp + PAGE_SIZE) = 0x80000000 + 4096 * Suc n"
    "unat (MEM_END - (tramp + PAGE_SIZE)) = 4096 * (32767 - n)" using tramp_okE [OF assms] .
  note b = user_range_sets [OF n]
  have nz: "tramp - KERNBASE \<noteq> 0" "MEM_END - (tramp + PAGE_SIZE) \<noteq> 0"
    using n by (metis (no_types) mult_is_0 unat_0 zero_neq_numeral less_irrefl, metis (no_types) diff_is_0_eq mult_is_0 not_less unat_0 zero_neq_numeral)
  show "\<forall>r\<in>set (user_ranges tramp). page_range r"
    using n nz by (simp add: user_ranges_def page_range_def page_aligned_def KERNBASE_def PAGE_SIZE_def UART_0_def)
  show "sorted_wrt (\<lambda>r r'. \<forall>va. \<not> (in_range r va \<and> in_range r' va)) (user_ranges tramp)"
    using n(3) by (auto simp: user_ranges_def in_range_def b)
  have "in_block UART_0 4096 va \<longleftrightarrow> 0x10000000 \<le> unat va \<and> unat va < 0x10001000"
    "in_block KERNBASE 0x8000000 va \<longleftrightarrow> 0x80000000 \<le> unat va \<and> unat va < 0x88000000" for va
    by (simp_all add: in_block_nowrap UART_0_def KERNBASE_def)
  then have "{va. \<exists>r\<in>set (user_ranges tramp). in_range r va} \<subseteq> {va. in_block UART_0 4096 va} \<union> {va. in_block KERNBASE 0x8000000 va}"
    using n(3) by (auto simp: user_ranges_def in_range_def b)
  then show "vpn1 ` {va. \<exists>r\<in>set (user_ranges tramp). in_range r va} \<subseteq> of_nat ` {64..<65} \<union> of_nat ` {512..<544}"
    using kernel_roots(2) kernel_roots(3) [where va = KERNBASE and k = "0x8000000"] unfolding KERNBASE_def by (auto simp: image_subset_iff)
qed

lemma translate_user_ranges:
  assumes "tramp_ok tramp" "walk m pt = id_map (user_ranges tramp) (\<lambda>_. None)"
  shows "translate m pt = user_kernel_map tramp"
proof
  fix va
  obtain n where n: "unat tramp = 0x80000000 + 4096 * n" "0 < n" "n < 32767"
    "unat (tramp - KERNBASE) = 4096 * n" "unat (tramp + PAGE_SIZE) = 0x80000000 + 4096 * Suc n"
    "unat (MEM_END - (tramp + PAGE_SIZE)) = 4096 * (32767 - n)" using tramp_okE [OF assms(1)] .
  note b = user_range_sets [OF n]
  have al: "page_aligned KERNBASE" "page_aligned UART_0" "page_aligned tramp" "page_aligned (tramp + PAGE_SIZE)"
    using n by (simp_all add: page_aligned_def KERNBASE_def UART_0_def)
  have fl: "flag_bits (PTE_R OR PTE_X OR PTE_V)" "flag_bits (PTE_R OR PTE_W OR PTE_V)"
    by (simp_all add: flag_bits_def PTE_R_def PTE_X_def PTE_W_def PTE_V_def)
  have c: "4096 * (unat len div 4096) = unat len" if "page_aligned len" for len :: u32
    using that by (auto simp: page_aligned_def)
  have l: "page_aligned (tramp - KERNBASE)" "page_aligned PAGE_SIZE" "page_aligned (MEM_END - (tramp + PAGE_SIZE))"
    using n by (simp_all add: page_aligned_def PAGE_SIZE_def)
  have "user_kernel_map tramp va =
     (if 0x80000000 \<le> unat va \<and> unat va < 0x80000000 + 4096 * Suc n then Some (va, PTE_R OR PTE_X OR PTE_V)
      else if 0x80000000 + 4096 * Suc n \<le> unat va \<and> unat va < 0x88000000 then Some (va, PTE_R OR PTE_W OR PTE_V)
      else if 0x10000000 \<le> unat va \<and> unat va < 0x10001000 then Some (va, PTE_R OR PTE_W OR PTE_V)
      else None)"
    unfolding user_kernel_map_def word_le_nat_alt word_less_nat_alt n(5)
    by (simp add: KERNBASE_def MEM_END_def UART_0_def PAGE_SIZE_def)
  moreover have "translate m pt va =
     (if 0x10000000 \<le> unat va \<and> unat va < 0x10001000 then Some (va, PTE_R OR PTE_W OR PTE_V)
      else if 0x80000000 + 4096 * Suc n \<le> unat va \<and> unat va < 0x88000000 then Some (va, PTE_R OR PTE_W OR PTE_V)
      else if 0x80000000 + 4096 * n \<le> unat va \<and> unat va < 0x80000000 + 4096 * Suc n then Some (va, PTE_R OR PTE_X OR PTE_V)
      else if 0x80000000 \<le> unat va \<and> unat va < 0x80000000 + 4096 * n then Some (va, PTE_R OR PTE_X OR PTE_V)
      else None)"
    unfolding translate_def assms(2) id_map_def user_ranges_def
    by (simp add: translate_range al fl c [OF l(1)] c [OF l(2)] c [OF l(3)] b or.assoc)
  ultimately show "translate m pt va = user_kernel_map tramp va"
    using n(3) by (simp split: if_split)
qed

text \<open>No user page is mapped, and nothing at all where user pages go.\<close>

lemma user_kernel_map_no_user:
  assumes "translate m pt = user_kernel_map tramp"
  shows "user_frame m pt 0 va = None"
    and "va < UART_0 \<or> PGROUNDDOWN va = stack_page \<Longrightarrow> tramp_ok tramp \<Longrightarrow> walk m pt va = None"
proof -
  have tr: "translate m pt va = user_kernel_map tramp va" using assms by simp
  show "user_frame m pt 0 va = None"
  proof (cases "walk m pt va")
    case (Some e)
    then have "PTE_FLAGS e = PTE_R OR PTE_X OR PTE_V \<or> PTE_FLAGS e = PTE_R OR PTE_W OR PTE_V"
      using tr by (auto simp: translate_def user_kernel_map_def split: if_splits)
    moreover have "e AND rights 0 = PTE_FLAGS e AND rights 0" by (rule rights_flags) (simp add: flag_bits_def)
    ultimately have "e AND rights 0 \<noteq> rights 0"
      by (auto simp: rights_def PTE_R_def PTE_X_def PTE_W_def PTE_V_def PTE_U_def)
    then show ?thesis using Some by (simp add: user_frame_def)
  qed (simp add: user_frame_def)
  assume "va < UART_0 \<or> PGROUNDDOWN va = stack_page" and ok: "tramp_ok tramp"
  then have va: "unat va < 0x10000000 \<or> 0xFFFFC000 \<le> unat va"
    using unat_PGROUNDDOWN [of va] stack_page_facts(2) div_times_less_eq_dividend [of "unat va" 4096]
    by (auto simp: word_less_nat_alt UART_0_def)
  obtain n where n: "n < 32767" "unat (tramp + PAGE_SIZE) = 0x80000000 + 4096 * Suc n" using tramp_okE [OF ok] by metis
  have "user_kernel_map tramp va = None"
    using va n unfolding user_kernel_map_def word_le_nat_alt word_less_nat_alt n(2)
    by (auto simp: KERNBASE_def MEM_END_def UART_0_def PAGE_SIZE_def)
  then show "walk m pt va = None" using tr by (simp add: translate_def)
qed

lemma as_wf_no_user:
  assumes "pt_wf s pt" "translate (mem s) pt = user_kernel_map tramp" "tramp_ok tramp" "page_aligned sz" "sz \<le> UART_0"
  shows "as_wf s pt sz"
  using assms user_kernel_map_no_user [OF assms(2)] by (simp add: as_wf_def user_wf_def)

text \<open>
  An address space \<open>pt\<close> made from free pages only: nothing else is written, and the free pages
  that are gone are its own.
\<close>

definition new_space :: "'a memst_scheme \<Rightarrow> 'a memst_scheme \<Rightarrow> u32 \<Rightarrow> bool" where
  "new_space s t pt \<longleftrightarrow> mem_step s t (free_pages s) \<and> user_wf t pt \<and> owned (mem t) pt \<union> free_pages t = free_pages s"

lemma new_spaceD:
  assumes "new_space s t pt"
  shows "mem_step s t (free_pages s)" "mem_ready t" "user_wf t pt" "owned (mem t) pt \<union> free_pages t = free_pages s"
    "heap_page t = heap_page s"
  using assms mem_stepD [of s t] unfolding new_space_def by blast+

lemma new_space_step: "new_space s t pt \<Longrightarrow> user_step t u pt \<Longrightarrow> new_space s u pt"
  using mem_step_trans [of s t "free_pages s" u "free_pages s"] user_stepD [of t u pt]
  by (auto simp: new_space_def)

lemma init_userpt_spec:
  assumes s: "mem_ready s" and ok: "tramp_ok tramp"
  obtains (none) t where "init_userpt tramp s = Ok 0 t" "mem_step s t (free_pages s)" "free_pages t = free_pages s"
      "card (free_pages s) \<le> 34"
  | (table) pt t where "init_userpt tramp s = Ok pt t" "pt \<noteq> 0" "new_space s t pt"
      "translate (mem t) pt = user_kernel_map tramp"
proof (cases "free_pages s = {}")
  case True
  then obtain t where "ptcreate s = Ok 0 t" "noise s t" using ptcreate_spec(1) [OF s] by blast
  then show ?thesis using none [of t] True mem_step_noise [of s t] s by (simp add: init_userpt_def noise_ready)
next
  case False
  let ?A = "of_nat ` {64..<65} \<union> of_nat ` {512..<544} :: u32 set"
  obtain pt s0 where s0: "ptcreate s = Ok pt s0" "pt \<noteq> 0" "pt \<in> free_pages s" "mem_ready s0" "pt_wf s0 pt"
    "walk (mem s0) pt = (\<lambda>_. None)" "tables (mem s0) pt = {pt}" "roots (mem s0) pt = {}"
    "free_pages s0 = free_pages s - {pt}" "mem s0 = fill_block pt 4096 0 (mem s)"
    "noise (s\<lparr>mem := mem s0, mem_bitmap := mem_bitmap s0\<rparr>) s0"
    using ptcreate_spec(2) [OF s False] by blast
  have st: "mem_step s s0 (free_pages s)"
    using s0(3,4,10,11) fill_page [OF pt_wfD(2) [OF s0(5)]] by (auto simp: mem_step_def)
  obtain b t where t: "mapping_fails pt (user_ranges tramp) s0 = Ok b t" "pt_grow s0 t pt"
    "if b then free_pages t = {} else walk (mem t) pt = id_map (user_ranges tramp) (\<lambda>_. None)"
    "roots (mem t) pt \<subseteq> roots (mem s0) pt \<union> vpn1 ` {va. \<exists>r\<in>set (user_ranges tramp). in_range r va}"
    using mapping_fails_spec [OF s0(4,5) user_ranges_ok(1) [OF ok] _ user_ranges_ok(2) [OF ok]] s0(6) by auto
  have run: "init_userpt tramp s = (if b then kbind (freewalk pt t) (\<lambda>_ s. Ok 0 s) else Ok pt t)"
    using s0(1,2) t(1) by (simp add: init_userpt_def user_ranges_def)
  have tb: "tables (mem t) pt \<union> free_pages t = free_pages s" "tables (mem t) pt \<subseteq> free_pages s" "pt_wf t pt" "mem_ready t"
    using t(2) s0(3,7,9) by (auto simp: pt_grow_def)
  have st2: "mem_step s t (free_pages s)"
    using mem_step_trans [OF st mem_step_grow [OF t(2)]] tb(2) by (simp add: Un_absorb2)
  show ?thesis
  proof (cases b)
    case False
    then have tr: "translate (mem t) pt = user_kernel_map tramp" using translate_user_ranges [OF ok] t(3) by simp
    have "owned (mem t) pt = tables (mem t) pt"
      using user_kernel_map_no_user(1) [OF tr] by (auto simp: owned_def frames_def)
    moreover have "user_wf t pt"
      using as_wfD(1) [OF as_wf_no_user [OF tb(3) tr ok, of 0]] by (simp add: page_aligned_def)
    ultimately have "new_space s t pt" using st2 tb(1) by (simp add: new_space_def)
    then show ?thesis using table [of pt t] run False s0(2) tr by simp
  next
    case True
    obtain u where u: "freewalk pt t = Ok () u" "mem_step t u (tables (mem t) pt)"
      "free_pages u = free_pages t \<union> tables (mem t) pt"
      using freewalk_spec [OF tb(4,3)] by blast
    have "mem_step s u (free_pages s)" using mem_step_trans [OF st2 u(2)] tb(2) by (simp add: Un_absorb2)
    moreover have "free_pages u = free_pages s" using u(3) tb(1) by auto
    moreover have "card (free_pages s) \<le> 34"
    proof (rule ccontr)
      assume "\<not> card (free_pages s) \<le> 34"
      then have "card ?A < card (free_pages s0)" using s0(3,9) kernel_roots(1) by simp
      moreover have "roots (mem t) pt \<subseteq> roots (mem s0) pt \<union> ?A" using t(4) user_ranges_ok(3) [OF ok] by blast
      ultimately have "free_pages t \<noteq> {}" using enough_pages [OF t(2) s0(5)] by blast
      then show False using t(3) True by simp
    qed
    ultimately show ?thesis using none [of u] run True u(1) by simp
  qed
qed

section \<open>Copying an address space\<close>

text \<open>
  What user code sees at an address: the byte there and the permissions, or nothing.
\<close>

definition user_view :: "memory \<Rightarrow> u32 \<Rightarrow> u32 \<Rightarrow> (u8 \<times> u32) option" where
  "user_view m pt va =
     (case walk m pt va of
        None \<Rightarrow> None
      | Some e \<Rightarrow> if e AND rights 0 = rights 0 then Some (m (PTE2PA e + (va AND 0xFFF)), PTE_FLAGS e) else None)"

lemma user_view_None: "user_view m pt va = None \<longleftrightarrow> user_frame m pt 0 va = None"
  by (auto simp: user_view_def user_frame_def split: option.splits)

lemma user_view_cong:
  assumes "walk m' pt va = walk m pt va" "\<And>f x. user_frame m pt 0 va = Some f \<Longrightarrow> x = f + (va AND 0xFFF) \<Longrightarrow> m' x = m x"
  shows "user_view m' pt va = user_view m pt va"
  using assms by (auto simp: user_view_def user_frame_def split: option.splits)

lemma user_view_added:
  assumes wf: "mem_ready s" "user_wf s pt" and add: "page_added s v pt va f flags m"
    and f: "page_aligned f" and fl: "flag_bits flags" "(flags OR PTE_V) AND rights 0 = rights 0"
  shows "user_view (mem v) pt va' = (if PGROUNDDOWN va' = va then Some (m (f + (va' AND 0xFFF)), flags OR PTE_V)
    else user_view (mem s) pt va')"
proof (cases "PGROUNDDOWN va' = va")
  case True
  have fr: "PTE2PA (PA2PTE f OR flags OR PTE_V) = f" "PTE_FLAGS (PA2PTE f OR flags OR PTE_V) = flags OR PTE_V"
    using PTE2PA_make [of f "flags OR PTE_V"] f fl(1) by (simp_all add: flag_bits_OR or.assoc)
  have w: "walk (mem v) pt va' = Some (PA2PTE f OR flags OR PTE_V)"
    using add True by (simp add: page_added_def map_page_def)
  have "(PA2PTE f OR flags OR PTE_V) AND rights 0 = rights 0"
    using rights_flags [OF flag_bits_0, of "PA2PTE f OR flags OR PTE_V"] fr(2) fl(2) by simp
  moreover have "mem v (f + (va' AND 0xFFF)) = m (f + (va' AND 0xFFF))"
    using add offset_page [OF f, of va'] by (simp add: page_added_def)
  ultimately show ?thesis using True w fr by (simp add: user_view_def)
next
  case False
  have "user_view (mem v) pt va' = user_view (mem s) pt va'"
  proof (rule user_view_cong)
    show "walk (mem v) pt va' = walk (mem s) pt va'" using add False by (simp add: page_added_def map_page_def)
    fix g x
    assume g: "user_frame (mem s) pt 0 va' = Some g" and x: "x = g + (va' AND 0xFFF)"
    have al: "page_aligned g" using heap_page_facts [OF user_wfD(1) [OF wf(2) g] wf(1)] by simp
    have "g \<in> frames (mem s) pt" using g by (auto simp: frames_def)
    then have "g \<noteq> f" "g \<in> frames (mem v) pt" using add by (auto simp: page_added_def)
    moreover have "user_wf v pt" using add user_stepD(3) by (auto simp: page_added_def)
    ultimately have "g \<notin> insert f (tables (mem v) pt)" using user_wfD(3) [of v pt 0] by (auto simp: frames_def)
    then show "mem v x = mem s x" using add offset_page [OF al, of va'] x by (simp add: page_added_def)
  qed
  then show ?thesis using False by simp
qed

lemma as_wf_added:
  assumes wf: "as_wf s pt sz" and add: "page_added s v pt va f flags m"
    and f: "page_aligned f" and fl: "flag_bits flags" "(flags OR PTE_V) AND rights 0 = rights 0"
    and va: "\<forall>va'. PGROUNDDOWN va' = va \<longrightarrow> user_region sz va'"
  shows "as_wf v pt sz"
proof -
  have w: "walk (mem v) pt = map_page (walk (mem s) pt) va (PA2PTE f OR flags OR PTE_V)" "user_wf v pt"
    using add user_stepD(3) by (auto simp: page_added_def)
  note uf = user_frame_map_page [OF fl(1) flag_bits_0 f w(1)]
  have "user_frame (mem v) pt 0 va' \<noteq> None" if "PGROUNDDOWN va' = va" for va' using uf fl(2) that by simp
  then show ?thesis
    using as_wfD [OF wf] w va unfolding as_wf_def by (auto simp: uf fl(2) map_page_def split: if_splits)
qed

text \<open>Work on other pages does not touch an address space.\<close>

lemma mem_step_other:
  assumes st: "mem_step s t A" and s: "mem_ready s" "user_wf s pt"
    and A: "A \<inter> owned (mem s) pt = {}" "free_pages t \<inter> owned (mem s) pt = {}"
  shows "user_wf t pt" "walk (mem t) pt = walk (mem s) pt" "owned (mem t) pt = owned (mem s) pt"
    "user_view (mem t) pt = user_view (mem s) pt" "frames (mem t) pt = frames (mem s) pt"
proof -
  note o = user_wf_other [OF st s(2) A]
  show "user_wf t pt" "walk (mem t) pt = walk (mem s) pt" "owned (mem t) pt = owned (mem s) pt"
    "frames (mem t) pt = frames (mem s) pt" using o by blast+
  show "user_view (mem t) pt = user_view (mem s) pt"
  proof
    fix va
    show "user_view (mem t) pt va = user_view (mem s) pt va"
    proof (rule user_view_cong)
      show "walk (mem t) pt va = walk (mem s) pt va" using o(1) by simp
      fix f x
      assume f: "user_frame (mem s) pt 0 va = Some f" and x: "x = f + (va AND 0xFFF)"
      have "page_aligned f" using heap_page_facts [OF user_wfD(1) [OF s(2) f] s(1)] by simp
      then show "mem t x = mem s x"
        using f x A(1) offset_page [of f va] by (intro mem_stepD(3) [OF st]) (auto simp: owned_def frames_def)
    qed
  qed
qed

lemma user_step_other:
  assumes st: "user_step s t new" and s: "mem_ready s" "user_wf s old" and dj: "owned (mem s) new \<inter> owned (mem s) old = {}"
  shows "user_wf t old" "walk (mem t) old = walk (mem s) old" "owned (mem t) old = owned (mem s) old"
    "owned (mem t) new \<inter> owned (mem t) old = {}" "user_view (mem t) old = user_view (mem s) old"
proof -
  let ?A = "owned (mem s) new \<union> free_pages s"
  have A: "?A \<inter> owned (mem s) old = {}" using dj user_wf_free(2) [OF s(2)] by auto
  then have fr: "free_pages t \<inter> owned (mem s) old = {}" using user_stepD(5) [OF st] by auto
  note o = mem_step_other [OF user_stepD(1) [OF st] s A fr]
  show "user_wf t old" "walk (mem t) old = walk (mem s) old" and ow: "owned (mem t) old = owned (mem s) old"
    and "user_view (mem t) old = user_view (mem s) old"
    using o by blast+
  show "owned (mem t) new \<inter> owned (mem t) old = {}" using user_stepD(5) [OF st] A ow by auto
qed

lemma new_space_other:
  assumes st: "new_space s t new" and s: "mem_ready s" "user_wf s old"
  shows "user_wf t old" "walk (mem t) old = walk (mem s) old" "owned (mem t) old = owned (mem s) old"
    "owned (mem t) new \<inter> owned (mem t) old = {}" "user_view (mem t) old = user_view (mem s) old"
    "frames (mem t) old = frames (mem s) old"
proof -
  have A: "free_pages s \<inter> owned (mem s) old = {}" using user_wf_free(2) [OF s(2)] by auto
  then have fr: "free_pages t \<inter> owned (mem s) old = {}" using new_spaceD(4) [OF st] by auto
  note o = mem_step_other [OF new_spaceD(1) [OF st] s A fr]
  show "user_wf t old" "walk (mem t) old = walk (mem s) old" and ow: "owned (mem t) old = owned (mem s) old"
    and "user_view (mem t) old = user_view (mem s) old" "frames (mem t) old = frames (mem s) old"
    using o by blast+
  show "owned (mem t) new \<inter> owned (mem t) old = {}" using new_spaceD(4) [OF st] A ow by auto
qed

lemma lookup_pte:
  assumes "mem_ready s" "pt_wf s pt"
  obtains (none) p where "find_pte pt va False s = Ok p s" "p = 0 \<or> load32 (mem s) p AND PTE_V = 0" "walk (mem s) pt va = None"
  | (some) p where "find_pte pt va False s = Ok p s" "p \<noteq> 0" "load32 (mem s) p AND PTE_V \<noteq> 0"
      "walk (mem s) pt va = Some (load32 (mem s) p)"
proof (cases "valid (entry (mem s) pt (vpn1 va))")
  case True
  then show ?thesis
    using none [OF find_pte_valid [OF True]] some [OF find_pte_valid [OF True]] walk_leaf [OF True] leaf_nonzero [OF assms True]
    by (auto simp: valid_def split: if_splits)
next
  case False
  then show ?thesis using none [OF find_pte_invalid [OF False]] walk_invalid by simp
qed

lemma page_top: "page_aligned p \<Longrightarrow> unat p + 4096 \<le> 4294967296"
proof -
  assume "page_aligned p"
  then obtain k where "unat p = 4096 * k" by (auto simp: page_aligned_def mod_eq_0_iff_dvd dvd_def)
  then show ?thesis using unat_u32_lt [of p] by simp
qed

lemma or_absorb: "(a :: u32) AND b = b \<Longrightarrow> a OR b = a"
proof -
  assume "a AND b = b"
  moreover have "a OR (a AND b) = a" by (rule bit_word_eqI) (auto simp: bit_simps)
  ultimately show ?thesis by simp
qed

lemma leaf_flags:
  assumes "e AND rights 0 = rights 0"
  shows "flag_bits (PTE_FLAGS e)" "PTE_FLAGS e OR PTE_V = PTE_FLAGS e" "(PTE_FLAGS e OR PTE_V) AND rights 0 = rights 0"
proof -
  show "flag_bits (PTE_FLAGS e)" by (simp add: flag_bits_def PTE_FLAGS_def and.assoc)
  have "e AND PTE_V = PTE_V" using assms and_weaken [of e PTE_V "PTE_U OR 0"] by (simp add: rights_def or.assoc)
  then have "PTE_FLAGS e AND PTE_V = PTE_V" 
    using rights_flags [of 0 e] by (simp add: PTE_FLAGS_def PTE_V_def and.assoc)
  then show v: "PTE_FLAGS e OR PTE_V = PTE_FLAGS e" by (rule or_absorb)
  show "(PTE_FLAGS e OR PTE_V) AND rights 0 = rights 0"
    unfolding v using assms rights_flags [OF flag_bits_0, of e] by simp
qed

lemma copy_page_spec:
  assumes s: "mem_ready s" "as_wf s new sz" "user_wf s old" "owned (mem s) new \<inter> owned (mem s) old = {}"
    and e: "walk (mem s) old va = Some e" "user_frame (mem s) old 0 va \<noteq> None"
    and va: "page_aligned va" "\<forall>va'. PGROUNDDOWN va' = va \<longrightarrow> user_region sz va'" "walk (mem s) new va = None"
    and nul: "CHR 0x00 \<notin> set a" "CHR 0x00 \<notin> set b"
  obtains (copied) t where "copy_page a b new va (PTE2PA e) (PTE_FLAGS e) s = Ok True t" "user_step s t new" "as_wf t new sz"
      "\<forall>va'. user_view (mem t) new va' = (if PGROUNDDOWN va' = va then user_view (mem s) old va' else user_view (mem s) new va')"
  | (failed) t where "copy_page a b new va (PTE2PA e) (PTE_FLAGS e) s = Ok False t" "user_step s t new" "as_wf t new sz"
      "walk (mem t) new = walk (mem s) new" "card (free_pages s) \<le> 1"
proof -
  have wn: "user_wf s new" using as_wfD(1) [OF s(2)] .
  have r: "e AND rights 0 = rights 0" using e by (auto simp: user_frame_def split: if_splits)
  note fl = leaf_flags [OF r]
  have pa: "page_aligned (PTE2PA e)"
    using e(1) r heap_page_facts [OF user_wfD(1) [OF s(3)] s(1), of 0 va "PTE2PA e"] by (simp add: user_frame_def)
  show ?thesis
    using s(1)
  proof (cases rule: kalloc_step)
    case (none t)
    then obtain u where u: "error a t = Ok () u" "noise t u" using error_noise [OF nul(1), of t] s(1) by (auto simp: mem_ready_def)
    have "noise s u" using noise_trans [OF none(3) u(2)] .
    then have "user_step s u new" "walk (mem u) new = walk (mem s) new"
      using user_step_noise [of s u new] s(1) wn by (simp_all add: noise_fields)
    then show ?thesis
      using failed [of u] none(1,2) u(1) as_wf_same [OF s(2), of u] user_stepD(3) [of s u new] by (simp add: copy_page_def)
  next
    case (page q t)
    let ?m = "copy_block q (PTE2PA e) 4096 (mem s)"
    have al: "page_aligned q" using heap_page_facts [OF page(4) s(1)] by simp
    have m: "\<forall>x. PGROUNDDOWN x \<noteq> q \<longrightarrow> ?m x = mem s x" using al by (simp add: copy_block_def in_page_iff)
    have "unat q + 4096 \<le> 4294967296" "unat (PTE2PA e) + 4096 \<le> 4294967296"
      using page_top al pa by simp_all
    then have mv: "memmove q (PTE2PA e) PAGE_SIZE t = Ok q (t\<lparr>mem := ?m\<rparr>)"
      using memmove_copy [of q PAGE_SIZE "PTE2PA e" t] page(6) by (simp add: PAGE_SIZE_def)
    obtain r v where v: "mappage new va q (PTE_FLAGS e) (t\<lparr>mem := ?m\<rparr>) = Ok r v" "kctx v"
      and res: "if r \<noteq> 0 then page_added s v new va q (PTE_FLAGS e) ?m else page_refused s v new va q"
      using add_page [OF s(1) wn page(3,5,6,7) m va(1,3) fl(1,3)] by blast
    show ?thesis
    proof (cases "r = 0")
      case False
      then have add: "page_added s v new va q (PTE_FLAGS e) ?m" using res by simp
      have "user_view (mem v) new va' = (if PGROUNDDOWN va' = va then user_view (mem s) old va' else user_view (mem s) new va')" for va'
      proof -
        have "?m (q + (va' AND 0xFFF)) = mem s (PTE2PA e + (va' AND 0xFFF))"
          using in_page_iff [OF al] offset_page [OF al, of va'] by (simp add: copy_block_def)
        moreover have "walk (mem s) old va' = Some e" if "PGROUNDDOWN va' = va"
          using that e(1) va(1) walk_page [of va' va "mem s" old] by (simp add: PGROUNDDOWN_aligned)
        ultimately show ?thesis
          using user_view_added [OF s(1) wn add al fl(1,3), of va'] r fl(2) \<open>e AND rights 0 = rights 0\<close>
          by (simp add: user_view_def)
      qed
      then show ?thesis
        using copied [of v] page(1,2) mv v(1) False add as_wf_added [OF s(2) add al fl(1,3) va(2)]
        by (simp add: copy_page_def page_added_def)
    next
      case True
      then have bad: "free_pages s = {q}"
        "\<forall>v'. noise v v' \<longrightarrow> (\<exists>w. kfree q v' = Ok () w \<and> user_step s w new \<and> walk (mem w) new = walk (mem s) new)"
        using res by (auto simp: page_refused_def)
      obtain v' where v': "error b v = Ok () v'" "noise v v'" using error_noise [OF nul(2) v(2)] by blast
      obtain w where w: "kfree q v' = Ok () w" "user_step s w new" "walk (mem w) new = walk (mem s) new"
        using bad(2) v'(2) by blast
      then show ?thesis
        using failed [of w] page(1,2) mv v(1) True v'(1) bad(1) as_wf_same [OF s(2) user_stepD(3) [OF w(2)] w(3)]
        by (simp add: copy_page_def)
    qed
  qed
qed

text \<open>
  \<open>copied s t old new sz P\<close>: the steps from \<open>s\<close> to \<open>t\<close> made the addresses that satisfy \<open>P\<close> look in \<open>new\<close>
  as they do in \<open>old\<close>.
\<close>

definition copied :: "'a memst_scheme \<Rightarrow> 'a memst_scheme \<Rightarrow> u32 \<Rightarrow> u32 \<Rightarrow> u32 \<Rightarrow> (u32 \<Rightarrow> bool) \<Rightarrow> bool" where
  "copied s t old new sz P \<longleftrightarrow> user_step s t new \<and> as_wf t new sz
     \<and> (\<forall>va. user_view (mem t) new va = (if P va then user_view (mem s) old va else None))"

text \<open>The pages of an address space, and how many they are.\<close>

definition user_pages :: "memory \<Rightarrow> u32 \<Rightarrow> u32 set" where
  "user_pages m pt = {va. page_aligned va \<and> user_frame m pt 0 va \<noteq> None}"

lemma card_frames:
  assumes "user_wf s pt"
  shows "card (frames (mem s) pt) = card (user_pages (mem s) pt)"
proof -
  have "bij_betw (\<lambda>va. the (user_frame (mem s) pt 0 va)) (user_pages (mem s) pt) (frames (mem s) pt)"
  proof (rule bij_betw_imageI)
    show "inj_on (\<lambda>va. the (user_frame (mem s) pt 0 va)) (user_pages (mem s) pt)"
    proof (rule inj_onI)
      fix va va'
      assume *: "va \<in> user_pages (mem s) pt" "va' \<in> user_pages (mem s) pt"
        "the (user_frame (mem s) pt 0 va) = the (user_frame (mem s) pt 0 va')"
      then obtain f where "user_frame (mem s) pt 0 va = Some f" "user_frame (mem s) pt 0 va' = Some f"
        by (auto simp: user_pages_def)
      then have "PGROUNDDOWN va' = PGROUNDDOWN va" using user_wfD(4) [OF assms] by blast
      then show "va = va'" using * by (simp add: user_pages_def PGROUNDDOWN_aligned)
    qed
    show "(\<lambda>va. the (user_frame (mem s) pt 0 va)) ` user_pages (mem s) pt = frames (mem s) pt"
    proof (intro equalityI subsetI)
      fix f
      assume "f \<in> frames (mem s) pt"
      then obtain va where va: "user_frame (mem s) pt 0 va = Some f" by (auto simp: frames_def)
      have "walk (mem s) pt (PGROUNDDOWN va) = walk (mem s) pt va" by (rule walk_page) (simp add: PGROUNDDOWN_aligned)
      then have "user_frame (mem s) pt 0 (PGROUNDDOWN va) = Some f" using va by (simp add: user_frame_def)
      then show "f \<in> (\<lambda>va. the (user_frame (mem s) pt 0 va)) ` user_pages (mem s) pt"
        by (intro image_eqI [of _ _ "PGROUNDDOWN va"]) (simp_all add: user_pages_def)
    qed (auto simp: user_pages_def frames_def)
  qed
  then show ?thesis using bij_betw_same_card by metis
qed

lemma card_vpn:
  assumes "\<forall>i\<in>A. unat (i :: u32) < 1024"
  shows "card A \<le> 1024"
proof -
  have "A \<subseteq> of_nat ` {..<1024}"
  proof
    fix i
    assume "i \<in> A"
    then have "unat i < 1024" using assms by blast
    then show "i \<in> of_nat ` {..<1024}" by (intro image_eqI [of _ _ "unat i"]) simp_all
  qed
  then have "card A \<le> card ((of_nat :: nat \<Rightarrow> u32) ` {..<1024})" by (simp add: card_mono)
  also have "\<dots> \<le> 1024" using card_image_le [of "{..<1024::nat}" "of_nat :: nat \<Rightarrow> u32"] by simp
  finally show ?thesis .
qed

lemma card_roots: "card (roots m pt) \<le> 1024"
  by (rule card_vpn) (simp add: roots_def)

lemma new_space_count:
  assumes "new_space s t pt"
  shows "card (free_pages s) \<le> card (free_pages t) + card (frames (mem t) pt) + 1025"
  using user_pages_count [OF new_spaceD(3) [OF assms]] new_spaceD(4) [OF assms] card_roots [of "mem t" pt] by simp

text \<open>So a copy that runs out of memory had too little for the pages of the parent and the tables.\<close>

lemma copied_count:
  assumes c: "copied s t old new sz P" and wf: "user_wf s old" "user_wf s new"
  shows "card (free_pages s) \<le> card (frames (mem s) old) + 1024 + card (free_pages t)"
proof -
  have st: "user_step s t new" using c by (simp add: copied_def)
  note w = user_stepD(3) [OF st]
  have "user_pages (mem t) new \<subseteq> user_pages (mem s) old"
    using c by (auto simp: copied_def user_pages_def user_view_None [symmetric] split: if_splits)
  then have "card (frames (mem t) new) \<le> card (frames (mem s) old)"
    by (simp add: card_frames [OF w] card_frames [OF wf(1)] card_mono)
  moreover have "card (roots (mem t) new) \<le> 1024" by (rule card_roots)
  moreover have "card (owned (mem t) new) + card (free_pages t) = card (owned (mem s) new) + card (free_pages s)"
    using user_pages_count(2) [OF wf(2)] user_pages_count(2) [OF w] user_stepD(5) [OF st] by simp
  ultimately show ?thesis using user_pages_count(1) [OF wf(2)] user_pages_count(1) [OF w] by linarith
qed

text \<open>One page of the parent, in a state some copying has led to.\<close>

lemma copied_page:
  assumes s: "mem_ready s" "as_wf s old sz" "user_wf s new" "owned (mem s) new \<inter> owned (mem s) old = {}"
    and c: "copied s t old new sz P" and va: "page_aligned va" "va < UART_0 \<or> va = stack_page" "\<not> P va"
    and P: "\<forall>va'. PGROUNDDOWN va' = va \<longrightarrow> user_region sz va'" "\<forall>va'. PGROUNDDOWN va' = va \<longrightarrow> \<not> P va'"
    and nul: "CHR 0x00 \<notin> set a" "CHR 0x00 \<notin> set b"
    and pte: "find_pte old va False t = Ok p t" "walk (mem t) old va = Some (load32 (mem t) p)"
  obtains (copied) u where "copy_page a b new va (PTE2PA (load32 (mem t) p)) (PTE_FLAGS (load32 (mem t) p)) t = Ok True u"
      "copied s u old new sz (\<lambda>va'. PGROUNDDOWN va' = va \<or> P va')"
  | (failed) u where "copy_page a b new va (PTE2PA (load32 (mem t) p)) (PTE_FLAGS (load32 (mem t) p)) t = Ok False u"
      "user_step s u new" "as_wf u new sz" "card (free_pages s) \<le> card (frames (mem s) old) + 1025"
proof -
  have st: "user_step s t new" "as_wf t new sz"
    and view: "\<forall>va. user_view (mem t) new va = (if P va then user_view (mem s) old va else None)"
    using c by (simp_all add: copied_def)
  note wo = as_wfD(1) [OF s(2)]
  note o = user_step_other [OF st(1) s(1) wo s(4)]
  have va': "va < UART_0 \<or> PGROUNDDOWN va = stack_page" using va(1,2) by (auto simp: PGROUNDDOWN_aligned)
  have "walk (mem s) old va \<noteq> None" using pte(2) o(2) by auto
  then have uf: "user_frame (mem t) old 0 va \<noteq> None"
    using as_wfD(4) [OF s(2) va'] user_frame_cong [OF o(2)] by auto
  have "user_frame (mem t) new 0 va = None" using view va(3) user_view_None [of "mem t" new va] by simp
  then have un: "walk (mem t) new va = None" using as_wfD(4) [OF st(2) va'] by auto
  show ?thesis
    using user_stepD(2) [OF st(1)] st(2) o(1,4) pte(2) uf va(1) P(1) un nul
  proof (cases rule: copy_page_spec)
    case (copied u)
    then show ?thesis
      using that(1) [of u] user_step_trans [OF st(1)] view P(2) o(5) by (auto simp: copied_def)
  next
    case (failed u)
    have "user_step s u new" using user_step_trans [OF st(1) failed(2)] .
    then show ?thesis
      using that(2) [of u] failed copied_count [OF c wo s(3)] by simp
  qed
qed

definition in_image :: "u32 \<Rightarrow> u32 \<Rightarrow> bool" where
  "in_image lim va \<longleftrightarrow> USER_BASE \<le> va \<and> va < lim"

lemma page_of:
  assumes "page_aligned va" "unat va + 4096 < 4294967296"
  shows "PGROUNDDOWN va' = va \<longleftrightarrow> va \<le> va' \<and> va' < va + PAGE_SIZE"
proof -
  have "unat (va + PAGE_SIZE) = unat va + 4096" using assms(2) by (simp add: PAGE_SIZE_def unat_word_ariths)
  then show ?thesis
    using in_page_iff [OF assms(1), of va'] in_block_nowrap [of va 4096 va'] assms(2)
    by (simp add: word_le_nat_alt word_less_nat_alt)
qed

lemma image_next:
  assumes "page_aligned va" "USER_BASE \<le> va" "va < UART_0"
  shows "in_image (va + PAGE_SIZE) va' \<longleftrightarrow> PGROUNDDOWN va' = va \<or> in_image va va'"
proof -
  have v: "4096 \<le> unat va" "unat va < 0x10000000"
    using assms by (simp_all add: word_le_nat_alt word_less_nat_alt USER_BASE_def UART_0_def)
  moreover from this have "unat (va + PAGE_SIZE) = unat va + 4096" by (simp add: PAGE_SIZE_def unat_word_ariths)
  ultimately show ?thesis
    using page_of [OF assms(1), of va'] by (auto simp: in_image_def word_le_nat_alt word_less_nat_alt USER_BASE_def)
qed

lemma uvmcopy_step:
  assumes s: "mem_ready s" "as_wf s old sz" "user_wf s new" "owned (mem s) new \<inter> owned (mem s) old = {}"
    and c: "copied s t old new sz (in_image va)" and va: "page_aligned va" "USER_BASE \<le> va" "va < sz"
  shows "(\<exists>u. uvmcopy_body old new sz va t = Ok (Inl (va + PAGE_SIZE)) u \<and> copied s u old new sz (in_image (va + PAGE_SIZE)))
    \<or> (\<exists>u. uvmcopy_body old new sz va t = Ok (Inr False) u \<and> user_step s u new \<and> as_wf u new sz
        \<and> card (free_pages s) \<le> card (frames (mem s) old) + 1025)"
proof -
  have st: "user_step s t new" using c by (simp add: copied_def)
  note wo = as_wfD(1) [OF s(2)]
  note o = user_step_other [OF st s(1) wo s(4)]
  have lt: "va < UART_0" using va(3) as_wfD(3) [OF s(2)] by (rule less_le_trans)
  have nx: "in_image (va + PAGE_SIZE) = (\<lambda>va'. PGROUNDDOWN va' = va \<or> in_image va va')"
    using image_next [OF va(1,2) lt] by (simp add: fun_eq_iff)
  have np: "\<not> in_image va va'" if "PGROUNDDOWN va' = va" for va'
  proof -
    have "unat va + 4096 < 4294967296" using lt by (simp add: word_less_nat_alt UART_0_def)
    then have "va \<le> va'" using that page_of [OF va(1), of va'] by blast
    then show ?thesis by (auto simp: in_image_def)
  qed
  have rg: "user_region sz va'" if *: "PGROUNDDOWN va' = va" for va'
  proof -
    have "in_image (va + PAGE_SIZE) va'" using * unfolding nx by simp
    moreover have "va + PAGE_SIZE \<le> sz"
    proof -
      obtain k where "unat va = 4096 * k" using page_count [OF va(1)] by metis
      moreover obtain n where "unat sz = 4096 * n" using page_count [OF as_wfD(2) [OF s(2)]] by metis
      moreover have "unat (va + PAGE_SIZE) = unat va + 4096"
        using lt by (simp add: PAGE_SIZE_def unat_word_ariths word_less_nat_alt UART_0_def)
      ultimately show ?thesis using va(3) by (simp add: word_le_nat_alt word_less_nat_alt)
    qed
    ultimately show ?thesis using less_le_trans [of va' "va + PAGE_SIZE" sz] by (simp add: user_region_def in_image_def)
  qed
  have pt: "pt_wf t old" using o(1) by (simp add: user_wf_def)
  show ?thesis
    using user_stepD(2) [OF st] pt
  proof (cases rule: lookup_pte [where va = va])
    case (none p)
    have "walk (mem s) old va' = None" if "PGROUNDDOWN va' = va" for va'
      using that none(3) o(2) va(1) walk_page [of va' va "mem s" old] by (simp add: PGROUNDDOWN_aligned)
    then have "user_view (mem s) old va' = None" if "PGROUNDDOWN va' = va" for va'
      using that by (simp add: user_view_def)
    then have "copied s t old new sz (in_image (va + PAGE_SIZE))"
      using c np unfolding nx copied_def by auto
    then show ?thesis using none(1,2) va(3) by (auto simp: uvmcopy_body_def)
  next
    case (some p)
    have nv: "\<not> in_image va va" "va < UART_0 \<or> va = stack_page" using lt by (simp_all add: in_image_def)
    have cs: "CHR 0x00 \<notin> set ''uvmcopy: kalloc''" "CHR 0x00 \<notin> set ''uvmcopy: mappage''" by simp_all
    have al: "\<forall>va'. PGROUNDDOWN va' = va \<longrightarrow> user_region sz va'" "\<forall>va'. PGROUNDDOWN va' = va \<longrightarrow> \<not> in_image va va'"
      using rg np by blast+
    show ?thesis
      using s c va(1) nv(2,1) al cs some(1,4)
    proof (cases rule: copied_page)
      case (copied u)
      then have "uvmcopy_body old new sz va t = Ok (Inl (va + PAGE_SIZE)) u"
        using some va(3) by (simp add: uvmcopy_body_def)
      then show ?thesis using copied(2) unfolding nx by blast
    next
      case (failed u)
      then have "uvmcopy_body old new sz va t = Ok (Inr False) u"
        using some va(3) by (simp add: uvmcopy_body_def)
      then show ?thesis using failed(2-4) by blast
    qed
  qed
qed

lemma uvmcopy_loop:
  assumes s: "mem_ready s" "as_wf s old sz" "as_wf s new sz" "owned (mem s) new \<inter> owned (mem s) old = {}"
    and empty: "frames (mem s) new = {}"
  shows "\<exists>ok t. kloop (uvmcopy_body old new sz) USER_BASE s = Ok ok t
    \<and> (if ok then copied s t old new sz (in_image sz)
       else user_step s t new \<and> as_wf t new sz \<and> card (free_pages s) \<le> card (frames (mem s) old) + 1025)"
proof -
  let ?Q = "\<lambda>ok t. if ok then copied s t old new sz (in_image sz)
    else user_step s t new \<and> as_wf t new sz \<and> card (free_pages s) \<le> card (frames (mem s) old) + 1025"
  let ?I = "\<lambda>n va t. n = (unat sz - unat va) div 4096 \<and> page_aligned va \<and> USER_BASE \<le> va
    \<and> (va \<le> sz \<or> va = USER_BASE) \<and> copied s t old new sz (in_image va)"
  have al: "page_aligned sz" using as_wfD(2) [OF s(2)] .
  have wn: "user_wf s new" using as_wfD(1) [OF s(3)] .
  have "user_frame (mem s) new 0 va = None" for va
    using empty by (cases "user_frame (mem s) new 0 va") (auto simp: frames_def)
  then have "\<forall>va. user_view (mem s) new va = None" by (simp add: user_view_None)
  then have "copied s s old new sz (in_image USER_BASE)"
    using s(3) user_step_refl [OF s(1) wn] by (auto simp: copied_def in_image_def)
  then have "?I ((unat sz - unat USER_BASE) div 4096) USER_BASE s" by (simp add: USER_BASE_def page_aligned_def)
  then show ?thesis
  proof (rule kloop_count [where I = ?I])
    fix n va t
    assume I: "?I (Suc n) va t"
    then have va: "page_aligned va" "USER_BASE \<le> va" and c: "copied s t old new sz (in_image va)" by blast+
    obtain k where k: "unat va = 4096 * k" using page_count [OF va(1)] .
    obtain N where N: "unat sz = 4096 * N" using page_count [OF al] .
    have n: "Suc n = N - k" using I k N by (simp add: diff_mult_distrib2 [symmetric])
    then have lt: "va < sz" using k N by (simp add: word_less_nat_alt)
    have nx: "unat (va + PAGE_SIZE) = 4096 * Suc k"
      using k N n unat_u32_lt [of sz] by (simp add: PAGE_SIZE_def unat_word_ariths)
    have "n = (unat sz - unat (va + PAGE_SIZE)) div 4096"
      unfolding nx N diff_mult_distrib2 [symmetric] using n by simp
    moreover have "page_aligned (va + PAGE_SIZE)" "USER_BASE \<le> va + PAGE_SIZE" "va + PAGE_SIZE \<le> sz"
      using nx N n va(2) k by (simp_all add: page_aligned_def word_le_nat_alt)
    ultimately show "(\<exists>y u. uvmcopy_body old new sz va t = Ok (Inl y) u \<and> ?I n y u)
      \<or> (\<exists>ok u. uvmcopy_body old new sz va t = Ok (Inr ok) u \<and> ?Q ok u)"
      using uvmcopy_step [OF s(1,2) wn s(4) c va lt] by (auto intro: exI [of _ False])
  next
    fix va t
    assume I: "?I 0 va t"
    then have va: "page_aligned va" "va \<le> sz \<or> va = USER_BASE" and c: "copied s t old new sz (in_image va)" by blast+
    obtain k where k: "unat va = 4096 * k" using page_count [OF va(1)] .
    obtain N where N: "unat sz = 4096 * N" using page_count [OF al] .
    have "N \<le> k" using I k N by (simp add: diff_mult_distrib2 [symmetric])
    then have le: "sz \<le> va" using k N by (simp add: word_le_nat_alt)
    have "in_image va = in_image sz"
    proof (cases "va = sz")
      case False
      then have "va = USER_BASE" using va(2) le by auto
      moreover from this have "\<not> in_image sz x" for x using le by (auto simp: in_image_def)
      ultimately show ?thesis by (auto simp: in_image_def fun_eq_iff)
    qed simp
    with c have "copied s t old new sz (in_image sz)" by simp
    moreover have "uvmcopy_body old new sz va t = Ok (Inr True) t" using le by (simp add: uvmcopy_body_def leD)
    ultimately show "\<exists>ok u. uvmcopy_body old new sz va t = Ok (Inr ok) u \<and> ?Q ok u"
      by (intro exI [of _ True] exI [of _ t]) simp
  qed
qed

lemma uvmcopy_spec:
  assumes s: "mem_ready s" "as_wf s old sz" "as_wf s new sz" "owned (mem s) new \<inter> owned (mem s) old = {}"
    and empty: "frames (mem s) new = {}"
  obtains (copied) t where "uvmcopy old new sz s = Ok 0 t" "user_step s t new" "as_wf t new sz"
      "user_view (mem t) new = user_view (mem s) old"
  | (failed) t where "uvmcopy old new sz s = Ok (-1) t" "user_step s t new" "as_wf t new sz"
      "walk (mem s) old stack_page = None \<or> card (free_pages s) \<le> card (frames (mem s) old) + 1025"
proof -
  note wo = as_wfD(1) [OF s(2)] and wn = as_wfD(1) [OF s(3)]
  obtain ok t where t: "kloop (uvmcopy_body old new sz) USER_BASE s = Ok ok t"
    "if ok then copied s t old new sz (in_image sz)
     else user_step s t new \<and> as_wf t new sz \<and> card (free_pages s) \<le> card (frames (mem s) old) + 1025"
    using uvmcopy_loop [OF assms] by blast
  show ?thesis
  proof (cases ok)
    case False
    then show ?thesis using failed [of t] t by (simp add: uvmcopy_def)
  next
    case True
    then have c: "copied s t old new sz (in_image sz)" using t(2) by simp
    then have st: "user_step s t new" by (simp add: copied_def)
    note o = user_step_other [OF st s(1) wo s(4)]
    have pt: "pt_wf t old" using o(1) by (simp add: user_wf_def)
    show ?thesis
      using user_stepD(2) [OF st] pt
    proof (cases rule: lookup_pte [where va = stack_page])
      case (none p)
      have "kctx t" using user_stepD(2) [OF st] by (simp add: mem_ready_def)
      then obtain u where u: "error ''uvmcopy: parent has no stack mapped'' t = Ok () u" "noise t u"
        using error_noise [of "''uvmcopy: parent has no stack mapped''" t] by auto
      have "user_step s u new" "as_wf u new sz"
        using user_step_trans [OF st user_step_noise [OF u(2) user_stepD(2,3) [OF st]]]
          as_wf_same [of t new sz u] user_wf_noise [OF u(2)] noise_fields(3) [OF u(2)] user_stepD(3) [OF st] c
        by (simp_all add: copied_def)
      then show ?thesis
        using failed [of u] none o(2) t(1) True u(1) by (simp add: uvmcopy_def stack_page_def)
    next
      case (some p)
      have ni: "\<not> in_image sz va" if "PGROUNDDOWN va = stack_page" for va
        using stack_not_image [OF that as_wfD(3) [OF s(2)]] by (simp add: in_image_def)
      have st0: "PGROUNDDOWN stack_page = stack_page" using stack_page_facts(1) by (simp add: PGROUNDDOWN_aligned)
      have nv: "stack_page < UART_0 \<or> stack_page = stack_page" "\<not> in_image sz stack_page" using ni [OF st0] by simp_all
      have cs: "CHR 0x00 \<notin> set ''uvmcopy: kalloc (stack)''" "CHR 0x00 \<notin> set ''uvmcopy: mappage (stack)''" by simp_all
      have al: "\<forall>va. PGROUNDDOWN va = stack_page \<longrightarrow> user_region sz va" "\<forall>va. PGROUNDDOWN va = stack_page \<longrightarrow> \<not> in_image sz va"
        using ni by (simp_all add: user_region_def)
      show ?thesis
        using s(1,2) wn s(4) c stack_page_facts(1) nv al cs some(1,4)
      proof (cases rule: copied_page)
        case c2: (copied u)
        have "user_view (mem u) new va = user_view (mem s) old va" for va
        proof (cases "user_view (mem s) old va = None")
          case False
          then have "user_region sz va"
            using as_wfD(5) [OF s(2), of va] by (auto simp: user_view_None)
          then show ?thesis using c2(2) by (auto simp: copied_def user_region_def in_image_def)
        qed (use c2(2) in \<open>simp add: copied_def\<close>)
        then have "user_view (mem u) new = user_view (mem s) old" by blast
        then show ?thesis
          using copied [of u] t(1) True some(1-3) c2 by (simp add: uvmcopy_def copied_def stack_page_def)
      next
        case f2: (failed u)
        then show ?thesis
          using failed [of u] t(1) True some(1-3) by (simp add: uvmcopy_def stack_page_def)
      qed
    qed
  qed
qed

text \<open>
  C29 (functional). \<open>uvmcopy\<close> into a fresh address space makes a separate copy: when it returns 0
  the child sees at every address the byte and the permissions its parent sees there. When it
  returns -1 the parent has no stack or memory is short. Either way the parent sees what it
  saw, the two share no page, no page is lost, and the child can be freed with the parent's
  size.
\<close>

theorem uvmcopy_separate_copy:
  assumes "mem_ready s" "as_wf s old sz" "as_wf s new sz" "owned (mem s) new \<inter> owned (mem s) old = {}"
    and "frames (mem s) new = {}"
  shows "\<exists>r t. uvmcopy old new sz s = Ok r t
    \<and> (r = 0 \<and> user_view (mem t) new = user_view (mem s) old
       \<or> r = -1 \<and> (walk (mem s) old stack_page = None \<or> card (free_pages s) \<le> card (frames (mem s) old) + 1025))
    \<and> user_view (mem t) old = user_view (mem s) old \<and> as_wf t old sz
    \<and> owned (mem t) new \<inter> owned (mem t) old = {}
    \<and> owned (mem t) new \<union> free_pages t = owned (mem s) new \<union> free_pages s
    \<and> as_wf t new sz"
proof -
  obtain r t where t: "uvmcopy old new sz s = Ok r t" "user_step s t new" "as_wf t new sz"
    "r = 0 \<and> user_view (mem t) new = user_view (mem s) old
     \<or> r = -1 \<and> (walk (mem s) old stack_page = None \<or> card (free_pages s) \<le> card (frames (mem s) old) + 1025)"
    using assms by (cases rule: uvmcopy_spec) blast+
  note o = user_step_other [OF t(2) assms(1) as_wfD(1) [OF assms(2)] assms(4)]
  show ?thesis
    using t o(4,5) as_wf_same [OF assms(2) o(1,2)] user_stepD(5) [OF t(2)] by blast
qed

text \<open>A concrete parent with a stack page, and a child without one.\<close>

lemma stack_added:
  assumes s: "mem_ready s" "as_wf s pt sz" "translate (mem s) pt = user_kernel_map tramp" "tramp_ok tramp"
    and many: "1026 < card (free_pages s)"
  obtains t where "user_step s t pt" "as_wf t pt sz" "card (frames (mem t) pt) = 1" "user_frame (mem t) pt 0 stack_page \<noteq> None"
    "card (free_pages s) \<le> card (free_pages t) + 1026"
proof -
  let ?fl = "PTE_R OR PTE_U OR PTE_W"
  have fl: "flag_bits ?fl" "(?fl OR PTE_V) AND rights 0 = rights 0"
    by (simp_all add: flag_bits_def rights_def PTE_R_def PTE_U_def PTE_W_def PTE_V_def)
  note e = user_kernel_map_no_user [OF s(3)]
  have em: "frames (mem s) pt = {}" "walk (mem s) pt stack_page = None"
    using e(1) e(2) [of stack_page] s(4) stack_page_facts(1) by (simp_all add: frames_def PGROUNDDOWN_aligned)
  obtain f u where u: "f \<in> free_pages s" "mem_step s u {}" "mem u = mem s" "free_pages u = free_pages s - {f}" "heap_page s f"
    using s(1) many by (cases rule: kalloc_step) auto
  have al: "page_aligned f" using heap_page_facts [OF u(5) s(1)] by simp
  obtain r t where "mappage pt stack_page f ?fl (u\<lparr>mem := mem s\<rparr>) = Ok r t"
    "if r \<noteq> 0 then page_added s t pt stack_page f ?fl (mem s) else page_refused s t pt stack_page f"
    using add_page [OF s(1) as_wfD(1) [OF s(2)] u(1-4) _ stack_page_facts(1) em(2) fl, of "mem s"] by blast
  moreover have "\<not> page_refused s t pt stack_page f" using many by (auto simp: page_refused_def)
  ultimately have add: "page_added s t pt stack_page f ?fl (mem s)" by (auto split: if_splits)
  have st: "user_step s t pt" "card (frames (mem t) pt) = 1" using add em(1) by (simp_all add: page_added_def)
  have as: "as_wf t pt sz" using as_wf_added [OF s(2) add al fl] by (simp add: user_region_def)
  have "user_frame (mem t) pt 0 stack_page \<noteq> None"
    using add user_frame_map_page [OF fl(1) flag_bits_0 al, of "mem t" pt "mem s" stack_page stack_page] fl(2)
      stack_page_facts(1) by (simp add: page_added_def PGROUNDDOWN_aligned)
  moreover have "card (free_pages s) \<le> card (free_pages t) + 1026"
    using user_stepD(5) [OF st(1)] user_pages_count [OF as_wfD(1) [OF as]] user_pages_count(2) [OF as_wfD(1) [OF s(2)]]
      st(2) card_roots [of "mem t" pt] by simp
  ultimately show ?thesis using that st as by blast
qed

lemma small_parent:
  obtains s :: memst and old new where "mem_ready s" "as_wf s old 0x1000" "as_wf s new 0x1000" "owned (mem s) new \<inter> owned (mem s) old = {}"
    "frames (mem s) new = {}" "user_frame (mem s) old 0 stack_page \<noteq> None" "card (frames (mem s) old) = 1"
    "2000 < card (free_pages s)"
proof -
  have ok: "tramp_ok 0x80008000" by (simp add: tramp_ok_def page_aligned_def KERNBASE_def MEM_END_def PAGE_SIZE_def)
  have sz: "page_aligned 0x1000" "0x1000 \<le> UART_0" by (simp_all add: page_aligned_def UART_0_def)
  obtain old s1 where s1: "new_space large_mem s1 old" "translate (mem s1) old = user_kernel_map 0x80008000"
    using large_mem_ready ok by (cases rule: init_userpt_spec) (auto simp: large_mem_free)
  note n1 = new_spaceD [OF s1(1)]
  have f1: "frames (mem s1) old = {}" using user_kernel_map_no_user(1) [OF s1(2)] by (simp add: frames_def)
  have as1: "as_wf s1 old 0x1000" using as_wf_no_user [OF _ s1(2) ok sz] n1(3) by (simp add: user_wf_def)
  have c1: "31000 < card (free_pages s1)" using new_space_count [OF s1(1)] f1 by (simp add: large_mem_free)
  obtain s3 where s3: "user_step s1 s3 old" "as_wf s3 old 0x1000" "card (frames (mem s3) old) = 1"
    "user_frame (mem s3) old 0 stack_page \<noteq> None" "card (free_pages s1) \<le> card (free_pages s3) + 1026"
    using stack_added [OF n1(2) as1 s1(2) ok] c1 by auto
  have r3: "mem_ready s3" using user_stepD(2) [OF s3(1)] .
  obtain new s4 where s4: "new_space s3 s4 new" "translate (mem s4) new = user_kernel_map 0x80008000"
    using r3 ok by (cases rule: init_userpt_spec) (use c1 s3(5) in auto)
  note o = new_space_other [OF s4(1) r3 as_wfD(1) [OF s3(2)]]
  have f4: "frames (mem s4) new = {}" using user_kernel_map_no_user(1) [OF s4(2)] by (simp add: frames_def)
  have "as_wf s4 new 0x1000" using as_wf_no_user [OF _ s4(2) ok sz] new_spaceD(3) [OF s4(1)] by (simp add: user_wf_def)
  moreover have "as_wf s4 old 0x1000" using as_wf_same [OF s3(2) o(1,2)] .
  moreover have "2000 < card (free_pages s4)" using new_space_count [OF s4(1)] f4 c1 s3(5) by simp
  ultimately show ?thesis
    using that [of s4 old new] new_spaceD(2) [OF s4(1)] o(4,6) s3(3,4) f4 user_frame_cong [OF o(2)] by simp
qed

theorem uvmcopy_separate_copy_witness:
  "\<exists>(s :: memst) old new t. as_wf s old 0x1000 \<and> user_frame (mem s) old 0 stack_page \<noteq> None
    \<and> uvmcopy old new 0x1000 s = Ok 0 t \<and> user_view (mem t) new = user_view (mem s) old"
proof -
  obtain s :: memst and old new where s: "mem_ready s" "as_wf s old 0x1000" "as_wf s new 0x1000"
    "owned (mem s) new \<inter> owned (mem s) old = {}" "frames (mem s) new = {}"
    and st: "user_frame (mem s) old 0 stack_page \<noteq> None" "card (frames (mem s) old) = 1" "2000 < card (free_pages s)"
    using small_parent .
  have "walk (mem s) old stack_page \<noteq> None" using st(1) by (auto simp: user_frame_def split: option.splits)
  then obtain t where "uvmcopy old new 0x1000 s = Ok 0 t" "user_view (mem t) new = user_view (mem s) old"
    using uvmcopy_separate_copy [OF s] st by auto
  then show ?thesis using s(2) st(1) by blast
qed

end
