(* ===== verification/Process.thy ===== *)
theory Process
  imports Address_Space
begin

text \<open>
  The process table (\<^verbatim>\<open>proc.c\<close>, \<^verbatim>\<open>proc.h\<close>): slots, process ids, allocation and release. A slot owns
  its trapframe page, its kernel stack and its address space; \<open>procalloc\<close> hands out a slot with
  all of them or gives everything back, \<open>releaseproc\<close> returns exactly what the slot owns.
\<close>

section \<open>State\<close>

datatype procstate = UNUSED | NEW | READY | RUNNING | WAITING | ZOMBIE

text \<open>What a process can wait for: the address of a slot or of the tick counter.\<close>

datatype chan = Proc_chan nat | Ticks_chan

text \<open>
  A slot of the table. Pointers to slots are indices; the lock of slot \<open>i\<close> is \<open>Proc_lock i\<close>; \<open>p_tf\<close>,
  \<open>p_pt\<close> and \<open>p_kstack\<close> are addresses, 0 for none.
\<close>

record proc =
  p_pid :: int
  p_state :: procstate
  p_name :: cptr
  p_pt :: u32
  p_kstack :: u32
  p_sz :: u32
  p_tf :: u32
  p_xstate :: u32
  p_chan :: "chan option"
  p_context :: kcontext
  p_parent :: "nat option"

record procst = vmst +
  proctable :: "nat \<Rightarrow> proc"
  curr_pid :: int
  ticks :: u32

definition NPROC :: nat where "NPROC = 32"

definition set_proc :: "nat \<Rightarrow> (proc \<Rightarrow> proc) \<Rightarrow> 'a procst_scheme \<Rightarrow> 'a procst_scheme" where
  "set_proc i f s = s\<lparr>proctable := (proctable s)(i := f (proctable s i))\<rparr>"

definition zero_context :: kcontext where
  "zero_context = \<lparr>x_ra = 0, x_sp = 0, x_s0 = 0, x_s1 = 0, x_s2 = 0, x_s3 = 0, x_s4 = 0,
     x_s5 = 0, x_s6 = 0, x_s7 = 0, x_s8 = 0, x_s9 = 0, x_s10 = 0, x_s11 = 0\<rparr>"

section \<open>Operations\<close>

definition myproc :: "'a lockst_scheme \<Rightarrow> (nat option, 'a lockst_scheme) res" where
  "myproc s =
     (let s = push_off s;
          p = c_proc (cpus s (this_cpu s))
      in kbind (pop_off s) (\<lambda>_ s. Ok p s))"

definition init_proctable :: "'a procst_scheme \<Rightarrow> 'a procst_scheme" where
  "init_proctable s =
     fold (\<lambda>i s. set_proc i (\<lambda>p. p\<lparr>p_kstack := 0, p_state := UNUSED\<rparr>) (init_lock (Proc_lock i) ''proc'' s))
       [0..<NPROC] (init_lock Wait_lock ''wait'' (init_lock Pid_lock ''pid'' s))"

text \<open>The increment of the counter is signed: past \<open>INT_MAX\<close> it is undefined.\<close>

definition allocpid :: "'a procst_scheme \<Rightarrow> (int, 'a procst_scheme) res" where
  "allocpid s =
     kbind (lock Pid_lock s) (\<lambda>_ s.
       let pid = curr_pid s
       in if pid = 0x7FFFFFFF then Undef s
          else kbind (unlock Pid_lock (s\<lparr>curr_pid := pid + 1\<rparr>)) (\<lambda>_ s. Ok pid s))"

text \<open>The fields as \<open>releaseproc\<close> leaves them.\<close>

definition clear_slot :: "proc \<Rightarrow> proc" where
  "clear_slot p = p\<lparr>p_pid := 0, p_name := (p_name p)(0 := 0), p_pt := 0, p_kstack := 0, p_sz := 0, p_tf := 0,
     p_parent := None, p_xstate := 0, p_chan := None, p_context := zero_context, p_state := UNUSED\<rparr>"

definition releaseproc :: "nat \<Rightarrow> 'a procst_scheme \<Rightarrow> (unit, 'a procst_scheme) res" where
  "releaseproc i s =
     (if \<not> holding (Proc_lock i) s then panic ''releaseproc: lock not held'' s
      else kbind (if p_tf (proctable s i) \<noteq> 0 then kfree (p_tf (proctable s i)) s else Ok () s) (\<lambda>_ s.
           kbind (if p_pt (proctable s i) \<noteq> 0 then uvmfree (p_pt (proctable s i)) (p_sz (proctable s i)) s else Ok () s) (\<lambda>_ s.
           kbind (if p_kstack (proctable s i) \<noteq> 0 then kfree (p_kstack (proctable s i)) s else Ok () s) (\<lambda>_ s.
             Ok () (set_proc i clear_slot s)))))"

definition procalloc_body :: "nat \<Rightarrow> 'a procst_scheme \<Rightarrow> (nat + nat option, 'a procst_scheme) res" where
  "procalloc_body i s =
     (if i < NPROC
      then kbind (lock (Proc_lock i) s) (\<lambda>_ s.
        if p_state (proctable s i) = UNUSED
        then kbind (unlock (Proc_lock i) (set_proc i (\<lambda>p. p\<lparr>p_state := NEW\<rparr>) s)) (\<lambda>_ s. Ok (Inr (Some i)) s)
        else kbind (unlock (Proc_lock i) s) (\<lambda>_ s. Ok (Inl (Suc i)) s))
      else Ok (Inr None) s)"

definition procalloc_fail :: "nat \<Rightarrow> 'a procst_scheme \<Rightarrow> (nat option, 'a procst_scheme) res" where
  "procalloc_fail i s =
     kbind (lock (Proc_lock i) s) (\<lambda>_ s.
     kbind (releaseproc i s) (\<lambda>_ s.
     kbind (unlock (Proc_lock i) s) (\<lambda>_ s. Ok None s)))"

text \<open>
  The rest of \<open>procalloc\<close>, once slot \<open>i\<close> is claimed. \<open>tramp\<close> and \<open>fret\<close> are the addresses of
  \<^verbatim>\<open>_trampoline\<close> and \<^verbatim>\<open>forkret\<close>.
\<close>

definition procalloc_fill :: "u32 \<Rightarrow> u32 \<Rightarrow> nat \<Rightarrow> 'a procst_scheme \<Rightarrow> (nat option, 'a procst_scheme) res" where
  "procalloc_fill tramp fret i s =
     kbind (allocpid s) (\<lambda>pid s.
     kbind (kalloc (set_proc i (\<lambda>p. p\<lparr>p_pid := pid\<rparr>) s)) (\<lambda>kstack_pa s.
       if kstack_pa = 0 then procalloc_fail i s
       else kbind (kalloc (set_proc i (\<lambda>p. p\<lparr>p_kstack := kstack_pa\<rparr>) s)) (\<lambda>tf s.
         let s = set_proc i (\<lambda>p. p\<lparr>p_tf := tf\<rparr>) s
         in if tf = 0 then procalloc_fail i s
            else kbind (memset tf 0 PAGE_SIZE s) (\<lambda>_ s.
              kbind (init_userpt tramp s) (\<lambda>pt s.
                let s = set_proc i (\<lambda>p. p\<lparr>p_pt := pt\<rparr>) s
                in if pt = 0 then procalloc_fail i s
                   else Ok (Some i) (set_proc i (\<lambda>p. p\<lparr>p_context :=
                          zero_context\<lparr>x_ra := fret, x_sp := p_kstack p + PAGE_SIZE\<rparr>\<rparr>) s))))))"

definition procalloc :: "u32 \<Rightarrow> u32 \<Rightarrow> 'a procst_scheme \<Rightarrow> (nat option, 'a procst_scheme) res" where
  "procalloc tramp fret s =
     kbind (kloop procalloc_body 0 s) (\<lambda>found s.
       case found of None \<Rightarrow> Ok None s | Some i \<Rightarrow> procalloc_fill tramp fret i s)"

definition state_number :: "procstate \<Rightarrow> u32" where
  "state_number st = (case st of UNUSED \<Rightarrow> 0 | NEW \<Rightarrow> 1 | READY \<Rightarrow> 2 | RUNNING \<Rightarrow> 3 | WAITING \<Rightarrow> 4 | ZOMBIE \<Rightarrow> 5)"

definition print_proc :: "proc \<Rightarrow> 'a lockst_scheme \<Rightarrow> (unit, 'a lockst_scheme) res" where
  "print_proc p s =
     kbind (printf (''Process PID: %d'' @ [CHR 0x0A]) [VInt (of_int (p_pid p))] s) (\<lambda>_ s.
     kbind (printf (''State: %d'' @ [CHR 0x0A]) [VInt (state_number (p_state p))] s) (\<lambda>_ s.
     kbind (printf (''Kernel Stack: %p'' @ [CHR 0x0A]) [VInt (p_kstack p)] s) (\<lambda>_ s.
       printf (''Page Table: %p'' @ [CHR 0x0A]) [VInt (p_pt p)] s)))"

definition print_proctable_body :: "nat \<Rightarrow> 'a procst_scheme \<Rightarrow> (nat + unit, 'a procst_scheme) res" where
  "print_proctable_body i s =
     (if i < NPROC
      then kbind (printf (''%d sp %p'' @ [CHR 0x0A]) [VInt (of_nat i), VInt (p_kstack (proctable s i))] s) (\<lambda>_ s.
        Ok (Inl (Suc i)) s)
      else Ok (Inr ()) s)"

definition print_proctable :: "'a procst_scheme \<Rightarrow> (unit, 'a procst_scheme) res" where
  "print_proctable s = kloop print_proctable_body 0 s"

section \<open>Steps of the kernel\<close>

text \<open>The memory and the tables of \<open>t\<close>, with the registers, locks and CPUs of \<open>s\<close>.\<close>

definition with_data :: "'a procst_scheme \<Rightarrow> 'a procst_scheme \<Rightarrow> 'a procst_scheme" where
  "with_data s t = s\<lparr>mem := mem t, mem_bitmap := mem_bitmap t, proctable := proctable t,
     curr_pid := curr_pid t, ticks := ticks t\<rparr>"

text \<open>
  \<open>kstep s t A\<close>: from \<open>s\<close> to \<open>t\<close> the kernel wrote pages of \<open>A\<close>, the bitmap, the process table, the
  counters and the console; registers, locks and interrupt nesting are as they were.
\<close>

definition kstep :: "'a procst_scheme \<Rightarrow> 'a procst_scheme \<Rightarrow> u32 set \<Rightarrow> bool" where
  "kstep s t A \<longleftrightarrow> noise (with_data s t) t \<and> mem_ready t \<and> (\<forall>x. PGROUNDDOWN x \<notin> A \<longrightarrow> mem t x = mem s x)"

lemma noise_procst:
  assumes "noise s t"
  shows "proctable t = proctable s" "curr_pid t = curr_pid s" "ticks t = ticks s" "kptable t = kptable s"
  using assms by (auto simp: noise_def)

lemma noise_more: "noise s t \<Longrightarrow> procst.more t = procst.more s" "noise s t \<Longrightarrow> clock t = clock s" "noise s t \<Longrightarrow> instant t = instant s"
  by (auto simp: noise_def)

lemma noise_proc_upd:
  assumes "noise s t"
  shows "noise (s\<lparr>proctable := p\<rparr>) (t\<lparr>proctable := p\<rparr>)" "noise (s\<lparr>curr_pid := c\<rparr>) (t\<lparr>curr_pid := c\<rparr>)"
    "noise (s\<lparr>ticks := k\<rparr>) (t\<lparr>ticks := k\<rparr>)"
proof -
  obtain n out i where t: "t = s\<lparr>mmio_n := n, mmio_out := out, cpus := (cpus s)(this_cpu s := (cpus s (this_cpu s))
      \<lparr>c_intena := (if c_depth (cpus s (this_cpu s)) = 0 then i else c_intena (cpus s (this_cpu s)))\<rparr>)\<rparr>"
    using assms unfolding noise_def by blast
  show "noise (s\<lparr>proctable := p\<rparr>) (t\<lparr>proctable := p\<rparr>)" "noise (s\<lparr>curr_pid := c\<rparr>) (t\<lparr>curr_pid := c\<rparr>)"
    "noise (s\<lparr>ticks := k\<rparr>) (t\<lparr>ticks := k\<rparr>)"
    unfolding noise_def t by (rule exI [of _ n], rule exI [of _ out], rule exI [of _ i], simp add: hart_defs)+
qed

lemma with_data_simps [simp]:
  "mem (with_data s t) = mem t" "mem_bitmap (with_data s t) = mem_bitmap t" "proctable (with_data s t) = proctable t"
  "curr_pid (with_data s t) = curr_pid t" "ticks (with_data s t) = ticks t"
  "csrs (with_data s t) = csrs s" "gprs (with_data s t) = gprs s" "cpus (with_data s t) = cpus s" "locks (with_data s t) = locks s"
  "start_page (with_data s t) = start_page s" "kptable (with_data s t) = kptable s" "hang (with_data s t) = hang s"
  "mmio_in (with_data s t) = mmio_in s" "with_data (with_data s t) u = with_data s u" "with_data s s = s"
  "with_data s (set_proc i f t) = set_proc i f (with_data s t)"
  "clock (with_data s t) = clock s" "instant (with_data s t) = instant s" "procst.more (with_data s t) = procst.more s"
  by (simp_all add: with_data_def set_proc_def)

lemma with_data_upd:
  "with_data s (s\<lparr>curr_pid := c\<rparr>) = s\<lparr>curr_pid := c\<rparr>" "with_data s (s\<lparr>ticks := k\<rparr>) = s\<lparr>ticks := k\<rparr>"
  by (simp_all add: with_data_def)

lemma set_proc_simps [simp]:
  "mem (set_proc i f s) = mem s" "mem_bitmap (set_proc i f s) = mem_bitmap s" "cpus (set_proc i f s) = cpus s"
  "locks (set_proc i f s) = locks s" "csrs (set_proc i f s) = csrs s" "gprs (set_proc i f s) = gprs s"
  "start_page (set_proc i f s) = start_page s" "hang (set_proc i f s) = hang s" "mmio_in (set_proc i f s) = mmio_in s"
  "proctable (set_proc i f s) = (proctable s)(i := f (proctable s i))" "curr_pid (set_proc i f s) = curr_pid s"
  "ticks (set_proc i f s) = ticks s" "kptable (set_proc i f s) = kptable s"
  by (simp_all add: set_proc_def)

lemma ready_cong:
  assumes "csrs t = csrs s" "gprs t = gprs s" "cpus t = cpus s" "locks t = locks s" "hang t = hang s" "mmio_in t = mmio_in s"
    "mem_bitmap t = mem_bitmap s" "start_page t = start_page s"
  shows "mem_ready t = mem_ready s" "free_pages t = free_pages s" "heap_page t = heap_page s"
  using assms by (simp_all add: mem_ready_def alloc_wf_def kctx_def uart_live_def intr_ok_def is_interrupt_def lk_free_def
      hart_defs free_pages_def heap_page_def fun_eq_iff)

lemma set_proc_ready [simp]:
  "mem_ready (set_proc i f s) = mem_ready s" "free_pages (set_proc i f s) = free_pages s" "heap_page (set_proc i f s) = heap_page s"
  by (rule ready_cong, simp_all)+

lemma noise_set_proc: "noise s t \<Longrightarrow> noise (set_proc i f s) (set_proc i f t)"
  using noise_proc_upd(1) [of s t] noise_procst(1) [of s t] by (simp add: set_proc_def)

lemma noise_with_data: "noise s t \<Longrightarrow> noise (with_data s u) (with_data t u)"
  unfolding with_data_def by (intro noise_proc_upd noise_upd)

lemma noise_with_data_eq: "noise s t \<Longrightarrow> with_data s t = s"
  by (simp add: with_data_def noise_fields noise_memst noise_procst)

lemma kstepD:
  assumes "kstep s t A"
  shows "mem_ready t" "PGROUNDDOWN x \<notin> A \<Longrightarrow> mem t x = mem s x" "locks t = locks s" "csrs t = csrs s" "gprs t = gprs s"
    "this_cpu t = this_cpu s" "heap_page t = heap_page s" "kptable t = kptable s"
    "c_depth (cpus s (this_cpu s)) \<noteq> 0 \<Longrightarrow> cpus t = cpus s"
proof -
  have n: "noise (with_data s t) t" using assms by (simp add: kstep_def)
  show "mem_ready t" "PGROUNDDOWN x \<notin> A \<Longrightarrow> mem t x = mem s x" using assms by (simp_all add: kstep_def)
  show "locks t = locks s" "csrs t = csrs s" "gprs t = gprs s" "kptable t = kptable s"
    using noise_fields [OF n] noise_procst(4) [OF n] by simp_all
  then show c: "this_cpu t = this_cpu s" by (simp add: hart_defs)
  show "heap_page t = heap_page s" using noise_start [OF n] by (simp add: heap_page_def fun_eq_iff)
  have "this_cpu (with_data s t) = this_cpu s" by (simp add: hart_defs)
  then show "cpus t = cpus s" if "c_depth (cpus s (this_cpu s)) \<noteq> 0" using noise_cpus [OF n] that by simp
qed

lemma kstep_refl: "mem_ready s \<Longrightarrow> kstep s s A"
  by (simp add: kstep_def)

lemma kstep_mono: "kstep s t A \<Longrightarrow> A \<subseteq> B \<Longrightarrow> kstep s t B"
  by (auto simp: kstep_def)

lemma kstep_trans: "kstep s t A \<Longrightarrow> kstep t u B \<Longrightarrow> kstep s u (A \<union> B)"
proof -
  assume st: "kstep s t A" and tu: "kstep t u B"
  have "noise (with_data (with_data s t) u) (with_data t u)" using st by (intro noise_with_data) (simp add: kstep_def)
  moreover have "noise (with_data t u) u" using tu by (simp add: kstep_def)
  ultimately have "noise (with_data s u) u" by (metis noise_trans with_data_simps(14))
  then show ?thesis using st tu by (auto simp: kstep_def)
qed

lemma kstep_set_proc: "kstep s t A \<Longrightarrow> kstep s (set_proc i f t) A"
  using noise_set_proc [of "with_data s t" t i f] by (simp add: kstep_def)

lemma kstep_noise: "kstep s t A \<Longrightarrow> noise t u \<Longrightarrow> kstep s u A"
  using noise_trans [of "with_data s t" t u]
  by (simp add: kstep_def with_data_def noise_fields noise_memst noise_procst noise_ready)

lemma mem_step_kstep:
  assumes "mem_step s t A"
  shows "kstep s t A" "proctable t = proctable s" "curr_pid t = curr_pid s" "ticks t = ticks s"
proof -
  have n: "noise (s\<lparr>mem := mem t, mem_bitmap := mem_bitmap t\<rparr>) t" using assms by (simp add: mem_step_def)
  show "proctable t = proctable s" "curr_pid t = curr_pid s" "ticks t = ticks s"
    using noise_procst [OF n] by simp_all
  then have "with_data s t = s\<lparr>mem := mem t, mem_bitmap := mem_bitmap t\<rparr>" by (simp add: with_data_def)
  then show "kstep s t A" using assms n by (simp add: kstep_def mem_step_def)
qed

section \<open>Critical sections\<close>

lemma enter_machine [simp]:
  "mem (enter lk s) = mem s" "hang (enter lk s) = hang s" "mmio_in (enter lk s) = mmio_in s" "gprs (enter lk s) = gprs s"
  "this_cpu (enter lk s) = this_cpu s" "clock (enter lk s) = clock s" "instant (enter lk s) = instant s"
  by (simp_all add: enter_eq hart_defs)

lemma enter_memst_fields [simp]:
  "mem_bitmap (enter lk s) = mem_bitmap s" "start_page (enter lk s) = start_page s"
  by (simp_all add: enter_eq)

lemma enter_procst [simp]:
  "proctable (enter lk s) = proctable s" "curr_pid (enter lk s) = curr_pid s" "ticks (enter lk s) = ticks s"
  "kptable (enter lk s) = kptable s" "procst.more (enter lk s) = procst.more s"
  by (simp_all add: enter_eq)

lemma enter_ready:
  assumes "mem_ready s" "lk \<noteq> Mem_lock" "lk \<noteq> Print_lock"
  shows "mem_ready (enter lk s)" "free_pages (enter lk s) = free_pages s" "heap_page (enter lk s) = heap_page s"
proof -
  have d: "0 \<le> c_depth (cpus s (this_cpu s))" using assms(1) by (simp add: mem_ready_def kctx_def intr_ok_def)
  have "intr_ok (enter lk s)"
    using d unfolding intr_ok_def enter_machine by (simp add: enter_eq is_interrupt_def csr_defs csrr_def)
  moreover have "lk_free l (enter lk s) = lk_free l s" if "l \<noteq> lk" for l
    using that by (simp add: lk_free_def enter_eq)
  ultimately show "mem_ready (enter lk s)"
    using assms by (simp add: mem_ready_def kctx_def alloc_wf_def uart_live_def)
  show "free_pages (enter lk s) = free_pages s" "heap_page (enter lk s) = heap_page s"
    by (simp_all add: free_pages_def heap_page_def fun_eq_iff)
qed

lemma enter_depth: "mem_ready s \<Longrightarrow> c_depth (cpus (enter lk s) (this_cpu s)) \<noteq> 0"
  by (simp add: mem_ready_def kctx_def intr_ok_def enter_eq)

lemma holding_enter: "kstep (enter lk s) t A \<Longrightarrow> holding lk t"
proof -
  assume st: "kstep (enter lk s) t A"
  have "holding lk (enter lk s)" by (simp add: holding_def) (simp add: enter_eq)
  then show ?thesis using kstepD(3,6) [OF st] by (simp add: holding_def)
qed

text \<open>Leaving a critical section: what was done inside stays, the rest is as before it.\<close>

lemma unlock_kstep:
  assumes free: "lk_free lk s" and s: "mem_ready s" and lk: "lk \<noteq> Mem_lock" "lk \<noteq> Print_lock"
    and st: "kstep (enter lk s) t A"
  obtains u where "unlock lk t = Ok () u" "kstep s u A" "mem u = mem t" "mem_bitmap u = mem_bitmap t"
    "proctable u = proctable t" "curr_pid u = curr_pid t" "ticks u = ticks t" "free_pages u = free_pages t"
proof -
  let ?u = "t\<lparr>csrs := csrs s, cpus := cpus (touch s), locks := locks s\<rparr>"
  have ok: "intr_ok s" using s by (simp add: mem_ready_def kctx_def)
  have c: "cpus t = cpus (enter lk s)" using kstepD(9) [OF st] enter_depth [OF s, of lk] by simp
  have run: "unlock lk t = Ok () ?u"
    using kstepD(3-5) [OF st] by (intro unlock_bracket [OF free ok c]) simp_all
  have n: "noise (with_data (enter lk s) t) t" using st by (simp add: kstep_def)
  have eq: "?u = (with_data s ?u)\<lparr>mmio_n := mmio_n t, mmio_out := mmio_out t, cpus := cpus (touch s)\<rparr>"
    using noise_fields [OF n] noise_procst [OF n] noise_start [OF n] noise_more [OF n]
    by (intro procst.equality) simp_all
  have nu: "noise (with_data s ?u) ?u"
    by (subst (2) eq, unfold noise_def, rule exI [of _ "mmio_n t"], rule exI [of _ "mmio_out t"],
        rule exI [of _ "r_sstatus s AND SSTATUS_SIE"]) (simp add: touch_def set_cpu_def hart_defs)
  have "alloc_wf (with_data s ?u)"
    using kstepD(1) [OF st] noise_start [OF n] by (simp add: mem_ready_def alloc_wf_def)
  then have "mem_ready (with_data s ?u)"
    using s by (simp add: mem_ready_def kctx_def uart_live_def intr_ok_def is_interrupt_def lk_free_def hart_defs)
  then have "kstep s ?u A" using nu noise_ready(1) [OF nu] kstepD(2) [OF st] by (simp add: kstep_def)
  then show ?thesis
    by (rule that [OF run]) (simp_all add: free_pages_def)
qed

text \<open>The whole section: take the lock, work, release the lock.\<close>

lemma critical_section:
  assumes "lk_free lk s" "mem_ready s" "lk \<noteq> Mem_lock" "lk \<noteq> Print_lock"
    and "body (enter lk s) = Ok r t" "kstep (enter lk s) t A"
  obtains u where "kbind (lock lk s) (\<lambda>_ s. kbind (body s) (\<lambda>r s. kbind (unlock lk s) (\<lambda>_ s. k r s))) = k r u"
    "kstep s u A" "mem u = mem t" "mem_bitmap u = mem_bitmap t"
    "proctable u = proctable t" "curr_pid u = curr_pid t" "ticks u = ticks t" "free_pages u = free_pages t"
proof -
  obtain u where "unlock lk t = Ok () u" "kstep s u A" "mem u = mem t" "mem_bitmap u = mem_bitmap t"
    "proctable u = proctable t" "curr_pid u = curr_pid t" "ticks u = ticks t" "free_pages u = free_pages t"
    using unlock_kstep [OF assms(1-4,6)] .
  then show ?thesis using that [of u] assms(5) lock_free [OF assms(1)] by simp
qed

lemma myproc_touch:
  assumes "mem_ready s"
  shows "myproc s = Ok (c_proc (cpus s (this_cpu s))) (touch s)"
proof -
  have "myproc s = Ok (c_proc (cpus s (this_cpu s))) ((push_off s)\<lparr>csrs := csrs s, cpus := cpus (touch s)\<rparr>)"
    using assms pop_off_bracket [of s "push_off s"]
    by (simp add: myproc_def Let_def mem_ready_def kctx_def push_off_cpus touch_def)
  moreover have "(push_off s)\<lparr>csrs := csrs s, cpus := cpus (touch s)\<rparr> = touch s"
    by (simp add: push_off_def Let_def interrupt_csrw csrw_def set_cpu_def touch_def)
  ultimately show ?thesis by simp
qed

lemma myproc_spec:
  assumes "mem_ready s"
  obtains t where "myproc s = Ok (c_proc (cpus s (this_cpu s))) t" "noise s t"
  using that [OF myproc_touch [OF assms] noise_touch] .

section \<open>What a slot owns\<close>

definition ptr_page :: "u32 \<Rightarrow> u32 set" where
  "ptr_page a = (if a = 0 then {} else {a})"

definition pt_pages :: "memory \<Rightarrow> u32 \<Rightarrow> u32 set" where
  "pt_pages m pt = (if pt = 0 then {} else owned m pt)"

definition owns :: "memory \<Rightarrow> proc \<Rightarrow> u32 set" where
  "owns m p = ptr_page (p_tf p) \<union> ptr_page (p_kstack p) \<union> pt_pages m (p_pt p)"

text \<open>The pages of a slot are allocated and all different.\<close>

definition slot_wf :: "'a memst_scheme \<Rightarrow> proc \<Rightarrow> bool" where
  "slot_wf s p \<longleftrightarrow> (\<forall>a\<in>ptr_page (p_tf p) \<union> ptr_page (p_kstack p). heap_page s a \<and> a \<notin> free_pages s)
     \<and> (p_pt p \<noteq> 0 \<longrightarrow> as_wf s (p_pt p) (p_sz p))
     \<and> ptr_page (p_tf p) \<inter> ptr_page (p_kstack p) = {}
     \<and> (ptr_page (p_tf p) \<union> ptr_page (p_kstack p)) \<inter> pt_pages (mem s) (p_pt p) = {}"

lemma ptr_page_simps [simp]: "ptr_page 0 = {}" "a \<noteq> 0 \<Longrightarrow> ptr_page a = {a}" "pt_pages m 0 = {}"
  "pt \<noteq> 0 \<Longrightarrow> pt_pages m pt = owned m pt"
  by (simp_all add: ptr_page_def pt_pages_def)

lemma as_wf_cong:
  assumes "mem t = mem s" "free_pages t = free_pages s" "heap_page t = heap_page s"
  shows "as_wf t pt sz = as_wf s pt sz" "user_wf t pt = user_wf s pt"
  using assms by (simp_all add: as_wf_def user_wf_def pt_wf_def)

lemma slot_wf_cong:
  assumes "mem t = mem s" "free_pages t = free_pages s" "heap_page t = heap_page s"
  shows "slot_wf t p = slot_wf s p"
  using assms by (simp add: slot_wf_def as_wf_cong [OF assms])

lemma slot_wf_owns:
  assumes "slot_wf s p" "a \<in> owns (mem s) p"
  shows "heap_page s a" "a \<notin> free_pages s"
  using assms user_wf_free [OF as_wfD(1), of s "p_pt p" "p_sz p" a]
  by (auto simp: slot_wf_def owns_def pt_pages_def split: if_splits)

lemma kstep_mem_step:
  assumes "kstep s t A"
  shows "mem_step (s\<lparr>proctable := proctable t, curr_pid := curr_pid t, ticks := ticks t\<rparr>) t A"
proof -
  have "s\<lparr>proctable := proctable t, curr_pid := curr_pid t, ticks := ticks t, mem := mem t, mem_bitmap := mem_bitmap t\<rparr> = with_data s t"
    by (simp add: with_data_def)
  then show ?thesis using assms by (simp add: kstep_def mem_step_def)
qed

lemma data_cong:
  "free_pages (s\<lparr>proctable := p, curr_pid := c, ticks := k\<rparr>) = free_pages s"
  "heap_page (s\<lparr>proctable := p, curr_pid := c, ticks := k\<rparr>) = heap_page s"
  "mem_ready (s\<lparr>proctable := p, curr_pid := c, ticks := k\<rparr>) = mem_ready s"
  by (rule ready_cong, simp_all)+

text \<open>A slot does not notice work on pages it does not own.\<close>

lemma slot_other:
  assumes st: "kstep s t A" and s: "mem_ready s" "slot_wf s p" and dj: "(A \<union> free_pages t) \<inter> owns (mem s) p = {}"
  shows "slot_wf t p" "owns (mem t) p = owns (mem s) p"
    "p_pt p \<noteq> 0 \<Longrightarrow> user_view (mem t) (p_pt p) = user_view (mem s) (p_pt p)"
    "p_pt p \<noteq> 0 \<Longrightarrow> as_wf t (p_pt p) (p_sz p)" "p_pt p \<noteq> 0 \<Longrightarrow> walk (mem t) (p_pt p) = walk (mem s) (p_pt p)"
proof -
  let ?s = "s\<lparr>proctable := proctable t, curr_pid := curr_pid t, ticks := ticks t\<rparr>"
  have hp: "heap_page t = heap_page s" using kstepD(7) [OF st] .
  have own: "pt_pages (mem t) (p_pt p) = pt_pages (mem s) (p_pt p)
      \<and> (p_pt p \<noteq> 0 \<longrightarrow> as_wf t (p_pt p) (p_sz p) \<and> user_view (mem t) (p_pt p) = user_view (mem s) (p_pt p)
        \<and> walk (mem t) (p_pt p) = walk (mem s) (p_pt p))"
  proof (cases "p_pt p = 0")
    case False
    then have wf: "as_wf s (p_pt p) (p_sz p)" using s(2) by (simp add: slot_wf_def)
    have rs: "mem_ready ?s" using s(1) by (simp add: data_cong)
    have uw: "user_wf ?s (p_pt p)" using as_wfD(1) [OF wf] by (simp add: as_wf_cong [of ?s s] data_cong)
    have dj': "A \<inter> owned (mem ?s) (p_pt p) = {}" "free_pages t \<inter> owned (mem ?s) (p_pt p) = {}"
      using dj False by (auto simp: owns_def)
    note o = mem_step_other [OF kstep_mem_step [OF st] rs uw dj']
    have "as_wf ?s (p_pt p) (p_sz p)" using wf by (simp add: as_wf_cong [of ?s s] data_cong)
    from as_wf_same [OF this o(1)] show ?thesis using o False by simp
  qed simp
  then show ow: "owns (mem t) p = owns (mem s) p" by (simp add: owns_def)
  show "p_pt p \<noteq> 0 \<Longrightarrow> user_view (mem t) (p_pt p) = user_view (mem s) (p_pt p)"
    "p_pt p \<noteq> 0 \<Longrightarrow> as_wf t (p_pt p) (p_sz p)" "p_pt p \<noteq> 0 \<Longrightarrow> walk (mem t) (p_pt p) = walk (mem s) (p_pt p)"
    using own by blast+
  show "slot_wf t p"
    using s(2) dj own hp unfolding slot_wf_def owns_def by (auto simp: ptr_page_def)
qed

section \<open>Steps of a slot\<close>

text \<open>
  \<open>slot_step s t i\<close>: the kernel worked for slot \<open>i\<close>. It wrote only pages of the slot and free pages,
  left the other slots alone, and every page the slot owned or that was free still is one or
  the other.
\<close>

definition slot_step :: "'a procst_scheme \<Rightarrow> 'a procst_scheme \<Rightarrow> nat \<Rightarrow> bool" where
  "slot_step s t i \<longleftrightarrow> kstep s t (owns (mem s) (proctable s i) \<union> free_pages s)
     \<and> (\<forall>j. j \<noteq> i \<longrightarrow> proctable t j = proctable s j) \<and> slot_wf t (proctable t i)
     \<and> owns (mem t) (proctable t i) \<union> free_pages t = owns (mem s) (proctable s i) \<union> free_pages s"

lemma slot_stepD:
  assumes "slot_step s t i"
  shows "kstep s t (owns (mem s) (proctable s i) \<union> free_pages s)" "mem_ready t" "slot_wf t (proctable t i)"
    "owns (mem t) (proctable t i) \<union> free_pages t = owns (mem s) (proctable s i) \<union> free_pages s"
    "j \<noteq> i \<Longrightarrow> proctable t j = proctable s j" "heap_page t = heap_page s" "locks t = locks s"
  using assms kstepD(1,3,7) [of s t] unfolding slot_step_def by blast+

lemma slot_step_refl: "mem_ready s \<Longrightarrow> slot_wf s (proctable s i) \<Longrightarrow> slot_step s s i"
  by (simp add: slot_step_def kstep_refl)

lemma slot_step_trans: "slot_step s t i \<Longrightarrow> slot_step t u i \<Longrightarrow> slot_step s u i"
proof -
  assume st: "slot_step s t i" and tu: "slot_step t u i"
  have "kstep s u (owns (mem s) (proctable s i) \<union> free_pages s)"
    using kstep_trans [OF slot_stepD(1) [OF st] slot_stepD(1) [OF tu]] slot_stepD(4) [OF st] by simp
  moreover have "owns (mem u) (proctable u i) \<union> free_pages u = owns (mem s) (proctable s i) \<union> free_pages s"
    using slot_stepD(4) [OF st] slot_stepD(4) [OF tu] by simp
  ultimately show ?thesis
    using slot_stepD(3) [OF tu] slot_stepD(5) [OF st] slot_stepD(5) [OF tu] by (simp add: slot_step_def)
qed

text \<open>A field that holds no page.\<close>

lemma slot_step_field:
  assumes "slot_step s t i" "p_tf (f (proctable t i)) = p_tf (proctable t i)" "p_kstack (f (proctable t i)) = p_kstack (proctable t i)"
    "p_pt (f (proctable t i)) = p_pt (proctable t i)" "p_sz (f (proctable t i)) = p_sz (proctable t i)"
  shows "slot_step s (set_proc i f t) i"
proof -
  have "slot_wf (set_proc i f t) p = slot_wf t p" for p by (rule slot_wf_cong) simp_all
  then show ?thesis
    using assms kstep_set_proc [OF slot_stepD(1) [OF assms(1)]] slot_stepD(3-5) [OF assms(1)]
    by (simp add: slot_step_def) (simp add: slot_wf_def owns_def)
qed

lemma slot_step_noise: "slot_step s t i \<Longrightarrow> noise t u \<Longrightarrow> slot_step s u i"
  using kstep_noise [OF slot_stepD(1), of s t i u] slot_wf_cong [of u t]
  by (simp add: slot_step_def noise_fields noise_procst noise_ready)

text \<open>Inside the critical section of some lock.\<close>

lemma slot_step_enter:
  assumes "mem_ready s" "lk \<noteq> Mem_lock" "lk \<noteq> Print_lock"
  shows "slot_wf (enter lk s) p = slot_wf s p"
  using enter_ready [OF assms] by (intro slot_wf_cong) simp_all

lemma slot_step_unlock:
  assumes "lk_free lk s" "mem_ready s" "lk \<noteq> Mem_lock" "lk \<noteq> Print_lock" "slot_step (enter lk s) t i"
  obtains u where "unlock lk t = Ok () u" "slot_step s u i" "proctable u = proctable t" "mem u = mem t"
    "free_pages u = free_pages t" "curr_pid u = curr_pid t" "ticks u = ticks t"
proof -
  have st: "kstep (enter lk s) t (owns (mem s) (proctable s i) \<union> free_pages s)"
    using slot_stepD(1) [OF assms(5)] enter_ready(2) [OF assms(2-4)] by simp
  obtain u where u: "unlock lk t = Ok () u" "kstep s u (owns (mem s) (proctable s i) \<union> free_pages s)" "mem u = mem t"
    "mem_bitmap u = mem_bitmap t" "proctable u = proctable t" "curr_pid u = curr_pid t" "ticks u = ticks t" "free_pages u = free_pages t"
    using unlock_kstep [OF assms(1-4) st] .
  have "heap_page u = heap_page t" using kstepD(7) [OF u(2)] kstepD(7) [OF st] enter_ready(3) [OF assms(2-4)] by simp
  then have "slot_wf u (proctable u i)" using slot_wf_cong [of u t] u slot_stepD(3) [OF assms(5)] by simp
  then have "slot_step s u i"
    using u slot_stepD(4,5) [OF assms(5)] enter_ready(2) [OF assms(2-4)] by (simp add: slot_step_def)
  then show ?thesis using that u by blast
qed

text \<open>A page of the heap put into an empty pointer field.\<close>

lemma slot_step_page:
  assumes st: "slot_step s t i" and t: "mem_step t u {}" "mem u = mem t" "a \<in> free_pages t" "free_pages u = free_pages t - {a}" "a \<noteq> 0"
  shows "p_kstack (proctable t i) = 0 \<Longrightarrow> slot_step s (set_proc i (\<lambda>p. p\<lparr>p_kstack := a\<rparr>) u) i"
    and "p_tf (proctable t i) = 0 \<Longrightarrow> slot_step s (set_proc i (\<lambda>p. p\<lparr>p_tf := a\<rparr>) u) i"
proof -
  note k = mem_step_kstep [OF t(1)]
  have hp: "heap_page u = heap_page t" using kstepD(7) [OF k(1)] .
  have ah: "heap_page u a" using hp free_pages_heap [OF slot_stepD(2) [OF st] t(3)] by simp
  have wf: "slot_wf t (proctable t i)" using slot_stepD(3) [OF st] .
  have na: "a \<notin> owns (mem t) (proctable t i)" using slot_wf_owns(2) [OF wf] t(3) by blast
  have as: "p_pt (proctable t i) \<noteq> 0 \<Longrightarrow> as_wf u (p_pt (proctable t i)) (p_sz (proctable t i))"
    using slot_other(4) [OF k(1) slot_stepD(2) [OF st] wf] slot_wf_owns(2) [OF wf] t(4) by auto
  have ks: "kstep t (set_proc i f u) A" for f A by (rule kstep_set_proc, rule kstep_mono [OF k(1)]) simp
  have swf: "slot_wf (set_proc i f u) p = slot_wf u p" for f p by (rule slot_wf_cong) simp_all
  show "slot_step s (set_proc i (\<lambda>p. p\<lparr>p_kstack := a\<rparr>) u) i" if z: "p_kstack (proctable t i) = 0"
  proof (rule slot_step_trans [OF st])
    have "slot_wf u ((proctable t i)\<lparr>p_kstack := a\<rparr>)"
      using wf na ah hp t as z by (auto simp: slot_wf_def owns_def)
    then show "slot_step t (set_proc i (\<lambda>p. p\<lparr>p_kstack := a\<rparr>) u) i"
      using ks swf k(2) t z by (auto simp: slot_step_def owns_def)
  qed
  show "slot_step s (set_proc i (\<lambda>p. p\<lparr>p_tf := a\<rparr>) u) i" if z: "p_tf (proctable t i) = 0"
  proof (rule slot_step_trans [OF st])
    have "slot_wf u ((proctable t i)\<lparr>p_tf := a\<rparr>)"
      using wf na ah hp t as z by (auto simp: slot_wf_def owns_def)
    then show "slot_step t (set_proc i (\<lambda>p. p\<lparr>p_tf := a\<rparr>) u) i"
      using ks swf k(2) t z by (auto simp: slot_step_def owns_def)
  qed
qed

text \<open>A new address space put into a slot that has none.\<close>

lemma slot_step_space:
  assumes st: "slot_step s t i" and t: "new_space t u pt" "pt \<noteq> 0" "p_pt (proctable t i) = 0"
    and as: "as_wf u pt (p_sz (proctable t i))"
  shows "slot_step s (set_proc i (\<lambda>p. p\<lparr>p_pt := pt\<rparr>) u) i"
proof (rule slot_step_trans [OF st])
  note k = mem_step_kstep [OF new_spaceD(1) [OF t(1)]]
  have wf: "slot_wf t (proctable t i)" using slot_stepD(3) [OF st] .
  have dj: "free_pages t \<inter> owns (mem t) (proctable t i) = {}" using slot_wf_owns(2) [OF wf] by blast
  then have fu: "(free_pages t \<union> free_pages u) \<inter> owns (mem t) (proctable t i) = {}" using new_spaceD(4) [OF t(1)] by auto
  note o = slot_other [OF k(1) slot_stepD(2) [OF st] wf fu]
  have "slot_wf u ((proctable t i)\<lparr>p_pt := pt\<rparr>)"
    using o(1,2) as t dj new_spaceD(4) [OF t(1)] by (auto simp: slot_wf_def owns_def)
  moreover have "slot_wf (set_proc i f u) p = slot_wf u p" for f p by (rule slot_wf_cong) simp_all
  moreover have "kstep t (set_proc i (\<lambda>p. p\<lparr>p_pt := pt\<rparr>) u) (owns (mem t) (proctable t i) \<union> free_pages t)"
    by (rule kstep_set_proc, rule kstep_mono [OF k(1)]) simp
  ultimately show "slot_step t (set_proc i (\<lambda>p. p\<lparr>p_pt := pt\<rparr>) u) i"
    using k(2) new_spaceD(4) [OF t(1)] t o(2) by (auto simp: slot_step_def owns_def)
qed

text \<open>Writing the trapframe.\<close>

lemma slot_step_frame:
  assumes st: "slot_step s t i" and m: "\<And>x. PGROUNDDOWN x \<notin> ptr_page (p_tf (proctable t i)) \<Longrightarrow> m x = mem t x"
  shows "slot_step s (t\<lparr>mem := m\<rparr>) i"
proof (rule slot_step_trans [OF st])
  let ?p = "proctable t i"
  have wf: "slot_wf t ?p" and rt: "mem_ready t" using slot_stepD(2,3) [OF st] by blast+
  have ms: "mem_step t (t\<lparr>mem := m\<rparr>) (ptr_page (p_tf ?p))" by (rule mem_step_write [OF rt m])
  have fr: "free_pages (t\<lparr>mem := m\<rparr>) = free_pages t" by (simp add: free_pages_def)
  have hp: "heap_page (t\<lparr>mem := m\<rparr>) = heap_page t" by (simp add: heap_page_def fun_eq_iff)
  have pt: "pt_pages m (p_pt ?p) = pt_pages (mem t) (p_pt ?p) \<and> (p_pt ?p \<noteq> 0 \<longrightarrow> as_wf (t\<lparr>mem := m\<rparr>) (p_pt ?p) (p_sz ?p))"
  proof (cases "p_pt ?p = 0")
    case False
    then have as: "as_wf t (p_pt ?p) (p_sz ?p)" using wf by (simp add: slot_wf_def)
    have "ptr_page (p_tf ?p) \<inter> owned (mem t) (p_pt ?p) = {}" "free_pages t \<inter> owned (mem t) (p_pt ?p) = {}"
      using wf False slot_wf_owns(2) [OF wf] by (auto simp: slot_wf_def owns_def)
    note o = mem_step_other [OF ms rt as_wfD(1) [OF as], unfolded fr, OF this]
    from as_wf_same [OF as o(1,2)] show ?thesis using o(3) False by simp
  qed simp
  then have "slot_wf (t\<lparr>mem := m\<rparr>) ?p" using wf fr hp by (simp add: slot_wf_def)
  moreover have "kstep t (t\<lparr>mem := m\<rparr>) (owns (mem t) ?p \<union> free_pages t)"
    by (rule kstep_mono [OF mem_step_kstep(1) [OF ms]]) (auto simp: owns_def)
  ultimately show "slot_step t (t\<lparr>mem := m\<rparr>) i" using fr pt by (simp add: slot_step_def owns_def)
qed

section \<open>Releasing a slot\<close>

lemma opt_kfree:
  assumes s: "mem_ready s" and a: "\<forall>x\<in>ptr_page a. heap_page s x \<and> x \<notin> free_pages s"
  obtains t where "(if a \<noteq> 0 then kfree a s else Ok () s) = Ok () t" "mem_step s t (ptr_page a)"
    "free_pages t = free_pages s \<union> ptr_page a"
proof (cases "a = 0")
  case True
  then show ?thesis using that [of s] mem_step_refl [OF s] by simp
next
  case False
  obtain t where "kfree a s = Ok () t" "mem_step s t {a}" "free_pages t = insert a (free_pages s)"
    using kfree_step [OF s, of a] a False by auto
  then show ?thesis using that [of t] False by simp
qed

lemma opt_uvmfree:
  assumes s: "mem_ready s" and a: "pt \<noteq> 0 \<longrightarrow> as_wf s pt sz"
  obtains t where "(if pt \<noteq> 0 then uvmfree pt sz s else Ok () s) = Ok () t" "mem_step s t (pt_pages (mem s) pt \<union> free_pages s)"
    "free_pages t = free_pages s \<union> pt_pages (mem s) pt"
proof (cases "pt = 0")
  case True
  then show ?thesis using that [of s] mem_step_refl [OF s] by simp
next
  case False
  then show ?thesis using that uvmfree_spec [OF s, of pt sz] a by auto
qed

lemma releaseproc_spec:
  assumes s: "mem_ready s" "holding (Proc_lock i) s" "slot_wf s (proctable s i)"
  obtains t where "releaseproc i s = Ok () t" "slot_step s t i" "proctable t i = clear_slot (proctable s i)"
    "free_pages t = free_pages s \<union> owns (mem s) (proctable s i)" "curr_pid t = curr_pid s" "ticks t = ticks s"
proof -
  let ?p = "proctable s i"
  have wf: "\<forall>x\<in>ptr_page (p_tf ?p). heap_page s x \<and> x \<notin> free_pages s" "\<forall>x\<in>ptr_page (p_kstack ?p). heap_page s x \<and> x \<notin> free_pages s"
    "ptr_page (p_tf ?p) \<inter> ptr_page (p_kstack ?p) = {}"
    "(ptr_page (p_tf ?p) \<union> ptr_page (p_kstack ?p)) \<inter> pt_pages (mem s) (p_pt ?p) = {}"
    using s(3) by (auto simp: slot_wf_def)
  obtain t where t: "(if p_tf ?p \<noteq> 0 then kfree (p_tf ?p) s else Ok () s) = Ok () t" "mem_step s t (ptr_page (p_tf ?p))"
    "free_pages t = free_pages s \<union> ptr_page (p_tf ?p)" using opt_kfree [OF s(1) wf(1)] .
  note kt = mem_step_kstep [OF t(2)]
  let ?q = "?p\<lparr>p_tf := 0\<rparr>"
  have wq: "slot_wf s ?q" "owns (mem s) ?q \<inter> ptr_page (p_tf ?p) = {}" "owns (mem s) ?p = ptr_page (p_tf ?p) \<union> owns (mem s) ?q"
    using s(3) wf(3,4) by (auto simp: slot_wf_def owns_def)
  then have dq: "(ptr_page (p_tf ?p) \<union> free_pages t) \<inter> owns (mem s) ?q = {}"
    using slot_wf_owns(2) [OF wq(1)] t(3) by auto
  note o = slot_other [OF kt(1) s(1) wq(1) dq]
  have pq: "pt_pages (mem t) (p_pt ?p) \<union> ptr_page (p_kstack ?p) = owns (mem s) ?q"
    "(pt_pages (mem t) (p_pt ?p)) \<inter> ptr_page (p_kstack ?p) = {}"
    using o(1,2) by (auto simp: owns_def slot_wf_def)
  obtain u where u: "(if p_pt ?p \<noteq> 0 then uvmfree (p_pt ?p) (p_sz ?p) t else Ok () t) = Ok () u"
    "mem_step t u (pt_pages (mem t) (p_pt ?p) \<union> free_pages t)" "free_pages u = free_pages t \<union> pt_pages (mem t) (p_pt ?p)"
    using opt_uvmfree [OF kstepD(1) [OF kt(1)], of "p_pt ?p" "p_sz ?p"] o(4) by auto
  note ku = mem_step_kstep [OF u(2)]
  have "\<forall>x\<in>ptr_page (p_kstack ?p). heap_page u x \<and> x \<notin> free_pages u"
    using wf(2,3) pq(2) t(3) u(3) kstepD(7) [OF kt(1)] kstepD(7) [OF ku(1)] by auto
  then obtain v where v: "(if p_kstack ?p \<noteq> 0 then kfree (p_kstack ?p) u else Ok () u) = Ok () v"
    "mem_step u v (ptr_page (p_kstack ?p))" "free_pages v = free_pages u \<union> ptr_page (p_kstack ?p)"
    using opt_kfree [OF kstepD(1) [OF ku(1)]] by blast
  note kv = mem_step_kstep [OF v(2)]
  let ?v = "set_proc i clear_slot v"
  have run: "releaseproc i s = Ok () ?v"
    unfolding releaseproc_def
    by (simp only: s(2) not_True_eq_False if_False t(1) kbind.simps kt(2) u(1) ku(2) v(1))
  have fv: "free_pages v = free_pages s \<union> owns (mem s) ?p" using t(3) u(3) v(3) wq(3) pq(1) by auto
  have "kstep s ?v (owns (mem s) ?p \<union> free_pages s)"
  proof (rule kstep_set_proc, rule kstep_mono)
    show "kstep s v (ptr_page (p_tf ?p) \<union> (pt_pages (mem t) (p_pt ?p) \<union> free_pages t) \<union> ptr_page (p_kstack ?p))"
      using kstep_trans [OF kstep_trans [OF kt(1) ku(1)] kv(1)] .
  qed (use t(3) wq(3) pq(1) in auto)
  moreover have "slot_wf ?v (clear_slot p)" "owns m (clear_slot p) = {}" for p m
    by (simp_all add: slot_wf_def owns_def clear_slot_def)
  ultimately have "slot_step s ?v i" using kt(2) ku(2) kv(2) fv by (auto simp: slot_step_def)
  then show ?thesis using that [OF run] kt(2-4) ku(2-4) kv(2-4) fv by simp
qed

section \<open>The table\<close>

definition idle_slot :: "proc \<Rightarrow> bool" where
  "idle_slot p \<longleftrightarrow> p_pid p = 0 \<and> p_pt p = 0 \<and> p_kstack p = 0 \<and> p_tf p = 0 \<and> p_sz p = 0 \<and> p_parent p = None \<and> p_chan p = None"

text \<open>Every slot is well formed, free slots are empty, and no two slots share a page.\<close>

definition table_wf :: "'a procst_scheme \<Rightarrow> bool" where
  "table_wf s \<longleftrightarrow> (\<forall>i<NPROC. slot_wf s (proctable s i) \<and> (p_state (proctable s i) = UNUSED \<longrightarrow> idle_slot (proctable s i)))
     \<and> (\<forall>i<NPROC. \<forall>j<NPROC. i \<noteq> j \<longrightarrow> owns (mem s) (proctable s i) \<inter> owns (mem s) (proctable s j) = {})"

definition all_pages :: "'a procst_scheme \<Rightarrow> u32 set" where
  "all_pages s = free_pages s \<union> (\<Union>i<NPROC. owns (mem s) (proctable s i))"

lemma table_wfD:
  assumes "table_wf s" "i < NPROC"
  shows "slot_wf s (proctable s i)" "p_state (proctable s i) = UNUSED \<Longrightarrow> idle_slot (proctable s i)"
    "j < NPROC \<Longrightarrow> i \<noteq> j \<Longrightarrow> owns (mem s) (proctable s i) \<inter> owns (mem s) (proctable s j) = {}"
  using assms by (auto simp: table_wf_def)

text \<open>Work for one slot keeps the table well formed, loses no page and leaves the others as they were.\<close>

lemma slot_step_table:
  assumes st: "slot_step s t i" and s: "mem_ready s" "table_wf s" "i < NPROC"
    and idle: "p_state (proctable t i) = UNUSED \<longrightarrow> idle_slot (proctable t i)"
  shows "table_wf t" "all_pages t = all_pages s"
    "j < NPROC \<Longrightarrow> j \<noteq> i \<Longrightarrow> owns (mem t) (proctable t j) = owns (mem s) (proctable s j)"
    "j < NPROC \<Longrightarrow> j \<noteq> i \<Longrightarrow> p_pt (proctable s j) \<noteq> 0 \<Longrightarrow>
       user_view (mem t) (p_pt (proctable s j)) = user_view (mem s) (p_pt (proctable s j))"
    "j < NPROC \<Longrightarrow> j \<noteq> i \<Longrightarrow> p_pt (proctable s j) \<noteq> 0 \<Longrightarrow> walk (mem t) (p_pt (proctable s j)) = walk (mem s) (p_pt (proctable s j))"
proof -
  let ?o = "\<lambda>s i. owns (mem s) (proctable s i)"
  have wfi: "slot_wf t (proctable t i)" and cons: "?o t i \<union> free_pages t = ?o s i \<union> free_pages s"
    using slot_stepD(3,4) [OF st] by blast+
  have other: "slot_wf t (proctable t j) \<and> ?o t j = ?o s j \<and> proctable t j = proctable s j
      \<and> (p_pt (proctable s j) \<noteq> 0 \<longrightarrow> user_view (mem t) (p_pt (proctable s j)) = user_view (mem s) (p_pt (proctable s j))
        \<and> walk (mem t) (p_pt (proctable s j)) = walk (mem s) (p_pt (proctable s j)))"
    if "j < NPROC" "j \<noteq> i" for j
  proof -
    have wf: "slot_wf s (proctable s j)" using table_wfD(1) [OF s(2) that(1)] .
    have "?o s i \<inter> ?o s j = {}" using table_wfD(3) [OF s(2,3) that(1)] that(2) by auto
    moreover have "free_pages s \<inter> ?o s j = {}" using slot_wf_owns(2) [OF wf] by blast
    ultimately have "((?o s i \<union> free_pages s) \<union> free_pages t) \<inter> ?o s j = {}" using cons by auto
    from slot_other [OF slot_stepD(1) [OF st] s(1) wf this] show ?thesis
      using slot_stepD(5) [OF st that(2)] by simp
  qed
  show "owns (mem t) (proctable t j) = owns (mem s) (proctable s j)" if "j < NPROC" "j \<noteq> i" for j
    using other [OF that] by blast
  show "j < NPROC \<Longrightarrow> j \<noteq> i \<Longrightarrow> p_pt (proctable s j) \<noteq> 0 \<Longrightarrow>
       user_view (mem t) (p_pt (proctable s j)) = user_view (mem s) (p_pt (proctable s j))"
    "j < NPROC \<Longrightarrow> j \<noteq> i \<Longrightarrow> p_pt (proctable s j) \<noteq> 0 \<Longrightarrow> walk (mem t) (p_pt (proctable s j)) = walk (mem s) (p_pt (proctable s j))"
    using other by blast+
  have dj: "?o t i \<inter> ?o t j = {}" if "j < NPROC" "j \<noteq> i" for j
  proof -
    have "(?o s i \<union> free_pages s) \<inter> ?o s j = {}"
      using table_wfD(3) [OF s(2,3) that(1)] that(2) slot_wf_owns(2) [OF table_wfD(1) [OF s(2) that(1)]] by auto
    then show ?thesis using cons other [OF that] by auto
  qed
  show "table_wf t"
    unfolding table_wf_def
  proof (intro conjI allI impI)
    fix j
    assume j: "j < NPROC"
    show "slot_wf t (proctable t j)" using other [OF j] wfi by (cases "j = i") auto
    show "idle_slot (proctable t j)" if "p_state (proctable t j) = UNUSED"
      using that other [OF j] idle table_wfD(2) [OF s(2) j] by (cases "j = i") auto
    fix k
    assume k: "k < NPROC" "j \<noteq> k"
    show "?o t j \<inter> ?o t k = {}"
    proof (cases "j = i \<or> k = i")
      case True
      then show ?thesis using dj [of j] dj [of k] j k by auto
    next
      case False
      then have "?o t j = ?o s j" "?o t k = ?o s k" using other j k(1) by blast+
      then show ?thesis using table_wfD(3) [OF s(2) j k] by (simp only:)
    qed
  qed
  have eq: "?o t j = ?o s j" if "j \<in> {..<NPROC} - {i}" for j
    using other [of j] that by blast
  have un: "(\<Union>j<NPROC. ?o u j) = ?o u i \<union> (\<Union>j\<in>{..<NPROC} - {i}. ?o u j)" for u :: "'a procst_scheme"
  proof -
    have "{..<NPROC} = insert i ({..<NPROC} - {i})" using s(3) by auto
    then show ?thesis by (metis UN_insert)
  qed
  have "free_pages t \<union> (?o t i \<union> X) = free_pages s \<union> (?o s i \<union> X)" for X using cons by blast
  moreover have "(\<Union>j\<in>{..<NPROC} - {i}. ?o t j) = (\<Union>j\<in>{..<NPROC} - {i}. ?o s j)" by (rule SUP_cong [OF refl eq])
  ultimately show "all_pages t = all_pages s" unfolding all_pages_def un by (simp only:)
qed

section \<open>Allocating a slot\<close>

text \<open>The locks \<open>procalloc\<close> takes are free.\<close>

definition procs_free :: "'a lockst_scheme \<Rightarrow> bool" where
  "procs_free s \<longleftrightarrow> (\<forall>i<NPROC. lk_free (Proc_lock i) s)"

lemma procs_free_kstep: "kstep s t A \<Longrightarrow> procs_free s \<Longrightarrow> procs_free t"
  using kstepD(3) [of s t A] by (simp add: procs_free_def lk_free_def)

text \<open>Nothing but the console, or also one slot, has changed.\<close>

definition same_memory :: "'a procst_scheme \<Rightarrow> 'a procst_scheme \<Rightarrow> bool" where
  "same_memory s t \<longleftrightarrow> kstep s t {} \<and> mem t = mem s \<and> free_pages t = free_pages s \<and> ticks t = ticks s"

lemma same_memory_trans: "same_memory s t \<Longrightarrow> same_memory t u \<Longrightarrow> same_memory s u"
  using kstep_trans [of s t "{}" u "{}"] by (simp add: same_memory_def)

lemma same_memory_section:
  assumes "lk_free lk s" "mem_ready s" "lk \<noteq> Mem_lock" "lk \<noteq> Print_lock" "same_memory (enter lk s) t"
  obtains u where "unlock lk t = Ok () u" "same_memory s u" "proctable u = proctable t" "curr_pid u = curr_pid t"
proof -
  have st: "kstep (enter lk s) t {}" using assms(5) by (simp add: same_memory_def)
  show ?thesis
    using unlock_kstep [OF assms(1-4) st] that enter_ready(2) [OF assms(2-4)] assms(5) by (auto simp: same_memory_def)
qed

lemma same_memory_set_proc: "mem_ready s \<Longrightarrow> same_memory s (set_proc i f s)"
  using kstep_set_proc [OF kstep_refl [of s "{}"], of i f] by (simp add: same_memory_def)

lemma same_memory_slot:
  assumes "same_memory s t" "proctable t = (proctable s)(i := f (proctable s i))" "slot_wf s (proctable s i)"
    "p_tf (f (proctable s i)) = p_tf (proctable s i)" "p_kstack (f (proctable s i)) = p_kstack (proctable s i)"
    "p_pt (f (proctable s i)) = p_pt (proctable s i)" "p_sz (f (proctable s i)) = p_sz (proctable s i)"
  shows "slot_step s t i"
proof -
  have k: "kstep s t {}" and m: "mem t = mem s" "free_pages t = free_pages s" using assms(1) by (simp_all add: same_memory_def)
  have "slot_wf t p = slot_wf s p" for p by (rule slot_wf_cong [OF m kstepD(7) [OF k]])
  then show ?thesis
    using assms(2-) m kstep_mono [OF k, of "owns (mem s) (proctable s i) \<union> free_pages s"]
    by (simp add: slot_step_def) (simp add: slot_wf_def owns_def)
qed

lemma procalloc_scan:
  assumes s: "mem_ready s" "procs_free s"
  obtains (full) t where "kloop procalloc_body 0 s = Ok None t" "same_memory s t" "proctable t = proctable s" "curr_pid t = curr_pid s"
      "\<forall>i<NPROC. p_state (proctable s i) \<noteq> UNUSED"
  | (claimed) i t where "kloop procalloc_body 0 s = Ok (Some i) t" "same_memory s t" "i < NPROC" "p_state (proctable s i) = UNUSED"
      "proctable t = (proctable s)(i := (proctable s i)\<lparr>p_state := NEW\<rparr>)" "curr_pid t = curr_pid s"
      "\<forall>j<i. p_state (proctable s j) \<noteq> UNUSED"
proof -
  let ?I = "\<lambda>n i t. n = NPROC - i \<and> i \<le> NPROC \<and> same_memory s t \<and> proctable t = proctable s \<and> curr_pid t = curr_pid s
    \<and> (\<forall>j<i. p_state (proctable s j) \<noteq> UNUSED)"
  let ?Q = "\<lambda>r t. same_memory s t \<and> curr_pid t = curr_pid s
    \<and> (case r of None \<Rightarrow> proctable t = proctable s \<and> (\<forall>i<NPROC. p_state (proctable s i) \<noteq> UNUSED)
       | Some i \<Rightarrow> i < NPROC \<and> p_state (proctable s i) = UNUSED \<and> proctable t = (proctable s)(i := (proctable s i)\<lparr>p_state := NEW\<rparr>)
           \<and> (\<forall>j<i. p_state (proctable s j) \<noteq> UNUSED))"
  have "?I NPROC 0 s" using s(1) by (simp add: same_memory_def kstep_refl)
  then have "\<exists>r t. kloop procalloc_body 0 s = Ok r t \<and> ?Q r t"
  proof (rule kloop_count [where I = ?I])
    fix n i t
    assume I: "?I (Suc n) i t"
    then have i: "i < NPROC" and sm: "same_memory s t" and pt: "proctable t = proctable s" "curr_pid t = curr_pid s" by auto
    have k: "kstep s t {}" using sm by (simp add: same_memory_def)
    have rt: "mem_ready t" using kstepD(1) [OF k] .
    have fl: "lk_free (Proc_lock i) t" using procs_free_kstep [OF k s(2)] i by (simp add: procs_free_def)
    let ?e = "enter (Proc_lock i) t"
    have re: "mem_ready ?e" using enter_ready(1) [OF rt] by simp
    show "(\<exists>j u. procalloc_body i t = Ok (Inl j) u \<and> ?I n j u) \<or> (\<exists>r u. procalloc_body i t = Ok (Inr r) u \<and> ?Q r u)"
    proof (cases "p_state (proctable s i) = UNUSED")
      case True
      obtain u where u: "unlock (Proc_lock i) (set_proc i (\<lambda>p. p\<lparr>p_state := NEW\<rparr>) ?e) = Ok () u" "same_memory t u"
        "proctable u = proctable (set_proc i (\<lambda>p. p\<lparr>p_state := NEW\<rparr>) ?e)" "curr_pid u = curr_pid t"
        using same_memory_section [OF fl rt _ _ same_memory_set_proc [OF re]] by (metis enter_procst(2) lockid.distinct(9) lockid.distinct(17) set_proc_simps(11))
      then have "procalloc_body i t = Ok (Inr (Some i)) u"
        using i lock_free [OF fl] True pt by (simp add: procalloc_body_def)
      then show ?thesis using I u(2-4) i True pt same_memory_trans [OF sm u(2)] by (intro disjI2 exI [of _ "Some i"] exI [of _ u]) simp
    next
      case False
      have "same_memory ?e ?e" using re by (simp add: same_memory_def kstep_refl)
      then obtain u where u: "unlock (Proc_lock i) ?e = Ok () u" "same_memory t u" "proctable u = proctable ?e" "curr_pid u = curr_pid ?e"
        using same_memory_section [OF fl rt] by blast
      then have "procalloc_body i t = Ok (Inl (Suc i)) u"
        using i lock_free [OF fl] False pt by (simp add: procalloc_body_def)
      moreover have "?I n (Suc i) u" using I u(2-4) False same_memory_trans [OF sm u(2)] by (auto simp: less_Suc_eq)
      ultimately show ?thesis by blast
    qed
  next
    fix i t
    assume "?I 0 i t"
    then show "\<exists>r u. procalloc_body i t = Ok (Inr r) u \<and> ?Q r u"
      by (intro exI [of _ None] exI [of _ t]) (simp add: procalloc_body_def)
  qed
  then obtain r t where "kloop procalloc_body 0 s = Ok r t" "?Q r t" by blast
  then show ?thesis using full claimed by (cases r) auto
qed

lemma allocpid_spec:
  assumes "mem_ready s" "lk_free Pid_lock s" "curr_pid s < 0x7FFFFFFF"
  obtains t where "allocpid s = Ok (curr_pid s) t" "same_memory s t" "proctable t = proctable s" "curr_pid t = curr_pid s + 1"
proof -
  let ?e = "enter Pid_lock s"
  have e: "mem_ready ?e" using enter_ready(1) [OF assms(1)] by simp
  have "noise (with_data ?e (?e\<lparr>curr_pid := c\<rparr>)) (?e\<lparr>curr_pid := c\<rparr>)" for c by (simp add: with_data_upd)
  moreover have "mem_ready (?e\<lparr>curr_pid := c\<rparr>) = mem_ready ?e" "free_pages (?e\<lparr>curr_pid := c\<rparr>) = free_pages ?e" for c
    by (rule ready_cong; simp)+
  ultimately have "same_memory ?e (?e\<lparr>curr_pid := curr_pid s + 1\<rparr>)" using e by (simp add: same_memory_def kstep_def)
  then obtain u where u: "unlock Pid_lock (?e\<lparr>curr_pid := curr_pid s + 1\<rparr>) = Ok () u" "same_memory s u"
    "proctable u = proctable (?e\<lparr>curr_pid := curr_pid s + 1\<rparr>)" "curr_pid u = curr_pid (?e\<lparr>curr_pid := curr_pid s + 1\<rparr>)"
    using same_memory_section [OF assms(2,1)] by blast
  then have "allocpid s = Ok (curr_pid s) u"
    using lock_free [OF assms(2)] assms(3) by (simp add: allocpid_def Let_def)
  then show ?thesis using that u by simp
qed

lemma slot_step_mem:
  assumes st: "slot_step s t i" and u: "mem_step t u (free_pages t)" "free_pages u = free_pages t"
  shows "slot_step s u i"
proof (rule slot_step_trans [OF st])
  note k = mem_step_kstep [OF u(1)]
  have wf: "slot_wf t (proctable t i)" using slot_stepD(3) [OF st] .
  have "(free_pages t \<union> free_pages u) \<inter> owns (mem t) (proctable t i) = {}" using slot_wf_owns(2) [OF wf] u(2) by auto
  note o = slot_other [OF k(1) slot_stepD(2) [OF st] wf this]
  have "kstep t u (owns (mem t) (proctable t i) \<union> free_pages t)" by (rule kstep_mono [OF k(1)]) simp
  then show "slot_step t u i" using o(1,2) k(2) u(2) by (simp add: slot_step_def)
qed

lemma procalloc_fail_spec:
  assumes s: "mem_ready s" "procs_free s" "i < NPROC" "slot_wf s (proctable s i)"
  obtains t where "procalloc_fail i s = Ok None t" "slot_step s t i" "proctable t i = clear_slot (proctable s i)"
    "free_pages t = free_pages s \<union> owns (mem s) (proctable s i)" "curr_pid t = curr_pid s" "ticks t = ticks s"
proof -
  let ?e = "enter (Proc_lock i) s"
  have fl: "lk_free (Proc_lock i) s" using s(2,3) by (simp add: procs_free_def)
  have e: "mem_ready ?e" "slot_wf ?e (proctable ?e i)"
    using enter_ready(1) [OF s(1)] slot_step_enter [OF s(1)] s(4) by simp_all
  have eh: "holding (Proc_lock i) ?e" by (rule holding_enter [OF kstep_refl [OF e(1)]])
  obtain t where t: "releaseproc i ?e = Ok () t" "slot_step ?e t i" "proctable t i = clear_slot (proctable ?e i)"
    "free_pages t = free_pages ?e \<union> owns (mem ?e) (proctable ?e i)" "curr_pid t = curr_pid ?e" "ticks t = ticks ?e"
    using releaseproc_spec [OF e(1) eh e(2)] .
  obtain u where u: "unlock (Proc_lock i) t = Ok () u" "slot_step s u i" "proctable u = proctable t" "mem u = mem t"
    "free_pages u = free_pages t" "curr_pid u = curr_pid t" "ticks u = ticks t"
    using slot_step_unlock [OF fl s(1) _ _ t(2)] by auto
  then show ?thesis
    using that [of u] t lock_free [OF fl] enter_ready(2) [OF s(1), of "Proc_lock i"] by (simp add: procalloc_fail_def)
qed

text \<open>Giving up: what the slot got so far goes back.\<close>

lemma procalloc_give_up:
  assumes st: "slot_step s t i" and s: "procs_free s" "i < NPROC" and own: "owns (mem s) (proctable s i) = {}"
  obtains u where "procalloc_fail i t = Ok None u" "slot_step s u i" "proctable u i = clear_slot (proctable t i)"
    "free_pages u = free_pages s" "curr_pid u = curr_pid t" "ticks u = ticks t"
proof -
  have "procs_free t" using procs_free_kstep [OF slot_stepD(1) [OF st] s(1)] .
  then obtain u where u: "procalloc_fail i t = Ok None u" "slot_step t u i" "proctable u i = clear_slot (proctable t i)"
    "free_pages u = free_pages t \<union> owns (mem t) (proctable t i)" "curr_pid u = curr_pid t" "ticks u = ticks t"
    using procalloc_fail_spec [OF slot_stepD(2) [OF st] _ s(2) slot_stepD(3) [OF st]] by blast
  have "free_pages u = free_pages s" using u(4) slot_stepD(4) [OF st] own by auto
  then show ?thesis using that u slot_step_trans [OF st u(2)] by blast
qed

text \<open>What \<open>procalloc\<close> puts into an empty slot.\<close>

definition filled :: "u32 \<Rightarrow> u32 \<Rightarrow> memory \<Rightarrow> proc \<Rightarrow> proc \<Rightarrow> int \<Rightarrow> bool" where
  "filled tramp fret m p q pid \<longleftrightarrow> p_tf q \<noteq> 0 \<and> p_kstack q \<noteq> 0 \<and> p_pt q \<noteq> 0
     \<and> q = p\<lparr>p_pid := pid, p_kstack := p_kstack q, p_tf := p_tf q, p_pt := p_pt q,
          p_context := zero_context\<lparr>x_ra := fret, x_sp := p_kstack q + PAGE_SIZE\<rparr>\<rparr>
     \<and> (\<forall>x. PGROUNDDOWN x = p_tf q \<longrightarrow> m x = 0)
     \<and> translate m (p_pt q) = user_kernel_map tramp"

lemma filledD:
  assumes "filled tramp fret m p q pid"
  shows "p_state q = p_state p" "p_pid q = pid" "p_sz q = p_sz p" "p_parent q = p_parent p" "p_chan q = p_chan p"
    "p_tf q \<noteq> 0" "p_kstack q \<noteq> 0" "p_pt q \<noteq> 0" "translate m (p_pt q) = user_kernel_map tramp"
    "PGROUNDDOWN x = p_tf q \<Longrightarrow> m x = 0"
    "p_context q = zero_context\<lparr>x_ra := fret, x_sp := p_kstack q + PAGE_SIZE\<rparr>"
proof -
  have q: "q = p\<lparr>p_pid := pid, p_kstack := p_kstack q, p_tf := p_tf q, p_pt := p_pt q,
          p_context := zero_context\<lparr>x_ra := fret, x_sp := p_kstack q + PAGE_SIZE\<rparr>\<rparr>"
    using assms unfolding filled_def by blast
  show "p_state q = p_state p" by (subst q) simp
  show "p_pid q = pid" by (subst q) simp
  show "p_sz q = p_sz p" by (subst q) simp
  show "p_parent q = p_parent p" by (subst q) simp
  show "p_chan q = p_chan p" by (subst q) simp
  show "p_context q = zero_context\<lparr>x_ra := fret, x_sp := p_kstack q + PAGE_SIZE\<rparr>" by (subst q) simp
  show "p_tf q \<noteq> 0" "p_kstack q \<noteq> 0" "p_pt q \<noteq> 0" "translate m (p_pt q) = user_kernel_map tramp"
    "PGROUNDDOWN x = p_tf q \<Longrightarrow> m x = 0"
    using assms unfolding filled_def by blast+
qed

lemma procalloc_fill_spec:
  assumes s: "mem_ready s" "procs_free s" "lk_free Pid_lock s" "curr_pid s < 0x7FFFFFFF" "tramp_ok tramp" "i < NPROC"
    and p: "p_tf (proctable s i) = 0" "p_kstack (proctable s i) = 0" "p_pt (proctable s i) = 0" "p_sz (proctable s i) = 0"
  obtains (failed) t p where "procalloc_fill tramp fret i s = Ok None t" "slot_step s t i" "proctable t i = clear_slot p"
      "free_pages t = free_pages s" "card (free_pages s) \<le> 36" "curr_pid t = curr_pid s + 1"
  | (ready) t where "procalloc_fill tramp fret i s = Ok (Some i) t" "slot_step s t i"
      "filled tramp fret (mem t) (proctable s i) (proctable t i) (curr_pid s)" "curr_pid t = curr_pid s + 1"
proof -
  let ?p = "proctable s i"
  have own: "owns (mem s) ?p = {}" and wf: "slot_wf s ?p" using p by (simp_all add: owns_def slot_wf_def)
  obtain s1 where s1: "allocpid s = Ok (curr_pid s) s1" "same_memory s s1" "proctable s1 = proctable s" "curr_pid s1 = curr_pid s + 1"
    using allocpid_spec [OF s(1,3,4)] .
  let ?t1 = "set_proc i (\<lambda>p. p\<lparr>p_pid := curr_pid s\<rparr>) s1"
  have "slot_step s s1 i" using same_memory_slot [OF s1(2), of i "\<lambda>p. p"] s1(3) wf by simp
  then have st1: "slot_step s ?t1 i" by (rule slot_step_field) simp_all
  have c1: "curr_pid ?t1 = curr_pid s + 1" "free_pages ?t1 = free_pages s" using s1 by (simp_all add: same_memory_def)
  show ?thesis
    using slot_stepD(2) [OF st1]
  proof (cases rule: kalloc_step)
    case (none t)
    have st: "slot_step s t i" by (rule slot_step_noise [OF st1 none(3)])
    obtain u where u: "procalloc_fail i t = Ok None u" "slot_step s u i" "proctable u i = clear_slot (proctable t i)"
      "free_pages u = free_pages s" "curr_pid u = curr_pid t" using procalloc_give_up [OF st s(2,6) own] .
    show ?thesis
      using failed [of u] u s1(1) none c1 noise_procst(2) [OF none(3)] by (simp add: procalloc_fill_def)
  next
    case (page ks t)
    let ?t2 = "set_proc i (\<lambda>p. p\<lparr>p_kstack := ks\<rparr>) t"
    have pt: "proctable t = proctable ?t1" "curr_pid t = curr_pid s + 1" using mem_step_kstep [OF page(5)] c1 by simp_all
    have st2: "slot_step s ?t2 i" using slot_step_page(1) [OF st1 page(5,6,3,7,2)] p s1(3) by simp
    have card2: "card (free_pages s) \<le> Suc (card (free_pages ?t2))" using page(3,7) c1 by simp
    show ?thesis
      using slot_stepD(2) [OF st2]
    proof (cases rule: kalloc_step)
      case none2: (none u)
      let ?u = "set_proc i (\<lambda>p. p\<lparr>p_tf := 0\<rparr>) u"
      have "slot_step s ?u i"
        by (rule slot_step_field [OF slot_step_noise [OF st2 none2(3)]])
          (use noise_procst(1) [OF none2(3)] pt(1) s1(3) p in simp_all)
      then obtain v where "procalloc_fail i ?u = Ok None v" "slot_step s v i" "proctable v i = clear_slot (proctable ?u i)"
        "free_pages v = free_pages s" "curr_pid v = curr_pid ?u" using procalloc_give_up [OF _ s(2,6) own] by blast
      then show ?thesis
        using failed [of v] s1(1) page(1,2) none2 card2 pt(2) noise_procst(2) [OF none2(3)]
        by (simp add: procalloc_fill_def)
    next
      case page2: (page tf u)
      let ?t3 = "set_proc i (\<lambda>p. p\<lparr>p_tf := tf\<rparr>) u"
      let ?t4 = "?t3\<lparr>mem := fill_block tf 4096 0 (mem u)\<rparr>"
      have pu: "proctable u = proctable ?t2" "curr_pid u = curr_pid s + 1" using mem_step_kstep [OF page2(5)] pt(2) by simp_all
      have st3: "slot_step s ?t3 i" using slot_step_page(2) [OF st2 page2(5,6,3,7,2)] pt(1) p s1(3) by simp
      have al: "page_aligned tf" using heap_page_facts [OF page2(4) slot_stepD(2) [OF st2]] by simp
      have st4: "slot_step s ?t4 i"
        using al page2(2) pu(1) by (intro slot_step_frame [OF st3]) (simp add: fill_page)
      have ms: "memset tf 0 PAGE_SIZE ?t3 = Ok tf ?t4" by (simp add: memset_fill PAGE_SIZE_def)
      have card4: "card (free_pages s) \<le> Suc (Suc (card (free_pages ?t4)))"
        using card2 page2(3,7) by (simp add: ready_cong(2) [of ?t4 ?t3])
      show ?thesis
        using slot_stepD(2) [OF st4] s(5)
      proof (cases rule: init_userpt_spec)
        case none4: (none v)
        let ?v = "set_proc i (\<lambda>p. p\<lparr>p_pt := 0\<rparr>) v"
        note kv = mem_step_kstep [OF none4(2)]
        have "slot_step s ?v i"
          by (rule slot_step_field [OF slot_step_mem [OF st4 none4(2,3)]]) (use kv(2) pu(1) pt(1) s1(3) p in simp_all)
        then obtain w where w: "procalloc_fail i ?v = Ok None w" "slot_step s w i" "proctable w i = clear_slot (proctable ?v i)"
          "free_pages w = free_pages s" "curr_pid w = curr_pid ?v" using procalloc_give_up [OF _ s(2,6) own] by blast
        have "procalloc_fill tramp fret i s = Ok None w"
          using s1(1) page(1,2) page2(1,2) ms none4(1) w(1) by (simp add: procalloc_fill_def Let_def)
        then show ?thesis
          using failed [of w] w kv(3) pu(2) card4 none4(4) by simp
      next
        case table: (table pt' v)
        let ?v = "set_proc i (\<lambda>p. p\<lparr>p_pt := pt'\<rparr>) v"
        let ?f = "\<lambda>p. p\<lparr>p_context := zero_context\<lparr>x_ra := fret, x_sp := p_kstack p + PAGE_SIZE\<rparr>\<rparr>"
        note kv = mem_step_kstep [OF new_spaceD(1) [OF table(3)]]
        have "as_wf v pt' 0"
          using as_wf_no_user [OF _ table(4) s(5)] new_spaceD(3) [OF table(3)] by (simp add: user_wf_def page_aligned_def)
        then have "slot_step s ?v i"
          using pu(1) pt(1) s1(3) p table(2) by (intro slot_step_space [OF st4 table(3)]) simp_all
        then have st: "slot_step s (set_proc i ?f ?v) i" by (rule slot_step_field) simp_all
        have run: "procalloc_fill tramp fret i s = Ok (Some i) (set_proc i ?f ?v)"
          using s1(1) page(1,2) page2(1,2) ms table(1,2) by (simp add: procalloc_fill_def Let_def)
        have "mem v x = 0" if "PGROUNDDOWN x = tf" for x
        proof -
          have "tf \<notin> free_pages ?t4" using page2(7) by (simp add: ready_cong(2) [of ?t4 ?t3])
          then show ?thesis using mem_stepD(3) [OF new_spaceD(1) [OF table(3)], of x] that al by (simp add: fill_page)
        qed
        then have "filled tramp fret (mem v) ?p (proctable (set_proc i ?f ?v) i) (curr_pid s)"
          using kv(2) pu(1) pt(1) s1(3) page(2) page2(2) table(2,4) by (simp add: filled_def)
        then show ?thesis using ready [OF run st] kv(3) pu(2) by simp
      qed
    qed
  qed
qed

lemma procalloc_spec:
  assumes s: "mem_ready s" "procs_free s" "lk_free Pid_lock s" "curr_pid s < 0x7FFFFFFF" "tramp_ok tramp" "table_wf s"
  obtains (full) t where "procalloc tramp fret s = Ok None t" "same_memory s t" "proctable t = proctable s"
      "\<forall>i<NPROC. p_state (proctable s i) \<noteq> UNUSED"
  | (failed) i t p where "procalloc tramp fret s = Ok None t" "slot_step s t i" "i < NPROC" "p_state (proctable s i) = UNUSED"
      "proctable t i = clear_slot p" "free_pages t = free_pages s" "card (free_pages s) \<le> 36"
  | (found) i t where "procalloc tramp fret s = Ok (Some i) t" "slot_step s t i" "i < NPROC" "p_state (proctable s i) = UNUSED"
      "filled tramp fret (mem t) ((proctable s i)\<lparr>p_state := NEW\<rparr>) (proctable t i) (curr_pid s)" "curr_pid t = curr_pid s + 1"
      "\<forall>j<i. p_state (proctable s j) \<noteq> UNUSED"
  using s(1,2)
proof (cases rule: procalloc_scan)
  case f: (full t)
  show ?thesis using full [of t] f by (simp add: procalloc_def)
next
  case c: (claimed i t)
  have k: "kstep s t {}" using c(2) by (simp add: same_memory_def)
  have idle: "idle_slot (proctable s i)" using table_wfD(2) [OF s(6) c(3,4)] .
  have st: "slot_step s t i"
    using same_memory_slot [OF c(2), of i "\<lambda>p. p\<lparr>p_state := NEW\<rparr>"] c(5) table_wfD(1) [OF s(6) c(3)] by simp
  have t: "mem_ready t" "procs_free t" "lk_free Pid_lock t" "curr_pid t < 0x7FFFFFFF"
    using kstepD(1,3) [OF k] procs_free_kstep [OF k s(2)] s(3,4) c(6) by (simp_all add: lk_free_def)
  have p: "p_tf (proctable t i) = 0" "p_kstack (proctable t i) = 0" "p_pt (proctable t i) = 0" "p_sz (proctable t i) = 0"
    using idle c(5) by (simp_all add: idle_slot_def)
  have fr: "free_pages t = free_pages s" using c(2) by (simp add: same_memory_def)
  show ?thesis
    using t s(5) c(3) p
  proof (cases rule: procalloc_fill_spec [where fret = fret])
    case f: (failed u p)
    then show ?thesis
      using failed [of u i p] c(1,3,4) slot_step_trans [OF st f(2)] fr by (simp add: procalloc_def)
  next
    case r: (ready u)
    then show ?thesis
      using found [of i u] c(1,3-7) slot_step_trans [OF st r(2)] by (simp add: procalloc_def)
  qed
qed

lemma idle_clear [simp]: "idle_slot (clear_slot p)" "p_state (clear_slot p) = UNUSED"
  by (simp_all add: idle_slot_def clear_slot_def)

lemma same_memory_table:
  assumes "same_memory s t" "proctable t = proctable s"
  shows "table_wf t = table_wf s" "all_pages t = all_pages s"
proof -
  have m: "mem t = mem s" "free_pages t = free_pages s" and k: "kstep s t {}" using assms(1) by (simp_all add: same_memory_def)
  have "slot_wf t p = slot_wf s p" for p by (rule slot_wf_cong [OF m kstepD(7) [OF k]])
  then show "table_wf t = table_wf s" "all_pages t = all_pages s" using m assms(2) by (simp_all add: table_wf_def all_pages_def)
qed

text \<open>
  C30 (error). \<open>procalloc\<close> is all or nothing. Either it hands out the first slot that was unused, now NEW,
  with the next process id, a zeroed trapframe, a kernel stack, an address space that maps the
  kernel only and a context that starts at \<^verbatim>\<open>forkret\<close>; or it returns NULL because every slot is
  taken or memory is short, and the free pages and the slots in use are what they were. No
  page is lost and no lock is kept either way.
\<close>

theorem procalloc_all_or_nothing:
  assumes "mem_ready s" "procs_free s" "lk_free Pid_lock s" "curr_pid s < 0x7FFFFFFF" "tramp_ok tramp" "table_wf s"
  shows "\<exists>r t. procalloc tramp fret s = Ok r t \<and> table_wf t \<and> all_pages t = all_pages s \<and> locks t = locks s
    \<and> (case r of
         None \<Rightarrow> free_pages t = free_pages s
           \<and> ((\<forall>i<NPROC. p_state (proctable s i) \<noteq> UNUSED) \<or> card (free_pages s) \<le> 36)
           \<and> (\<forall>i<NPROC. if p_state (proctable s i) = UNUSED then p_state (proctable t i) = UNUSED
                else proctable t i = proctable s i)
       | Some i \<Rightarrow> i < NPROC \<and> p_state (proctable s i) = UNUSED \<and> (\<forall>j<i. p_state (proctable s j) \<noteq> UNUSED)
           \<and> proctable t = (proctable s)(i := proctable t i)
           \<and> p_state (proctable t i) = NEW \<and> curr_pid t = curr_pid s + 1
           \<and> filled tramp fret (mem t) ((proctable s i)\<lparr>p_state := NEW\<rparr>) (proctable t i) (curr_pid s))"
  using assms
proof (cases rule: procalloc_spec [where fret = fret])
  case (full t)
  then show ?thesis
    using same_memory_table [OF full(2,3)] assms(6) kstepD(3) [of s t "{}"]
    by (intro exI [of _ None] exI [of _ t]) (simp add: same_memory_def)
next
  case (failed i t p)
  have "table_wf t" "all_pages t = all_pages s"
    using slot_step_table(1,2) [OF failed(2) assms(1,6) failed(3)] failed(5) by simp_all
  moreover have "if p_state (proctable s j) = UNUSED then p_state (proctable t j) = UNUSED else proctable t j = proctable s j" for j
    using failed(4,5) slot_stepD(5) [OF failed(2), of j] by (cases "j = i") simp_all
  ultimately show ?thesis
    using failed(1,6,7) slot_stepD(7) [OF failed(2)] by (intro exI [of _ None] exI [of _ t]) simp
next
  case (found i t)
  have q: "p_state (proctable t i) = NEW" using filledD(1) [OF found(5)] by simp
  have "table_wf t" "all_pages t = all_pages s"
    using slot_step_table(1,2) [OF found(2) assms(1,6) found(3)] q by simp_all
  moreover have "proctable t = (proctable s)(i := proctable t i)"
    using slot_stepD(5) [OF found(2)] by (auto simp: fun_eq_iff)
  ultimately show ?thesis
    unfolding option.case using found(1,3-7) q slot_stepD(7) [OF found(2)] by (intro exI [of _ "Some i"] exI [of _ t]) simp
qed

text \<open>The state at boot, once the table is initialised.\<close>

definition boot_procs :: procst where
  "boot_procs = vmst.extend (memst.extend large_mem (vmst.fields 0))
     (procst.fields (\<lambda>_. \<lparr>p_pid = 0, p_state = UNUSED, p_name = (\<lambda>_. 0), p_pt = 0, p_kstack = 0, p_sz = 0, p_tf = 0,
        p_xstate = 0, p_chan = None, p_context = zero_context, p_parent = None\<rparr>) 1 0)"

lemma boot_procs_ready:
  "mem_ready boot_procs" "procs_free boot_procs" "lk_free lk boot_procs" "table_wf boot_procs" "curr_pid boot_procs = 1"
  "free_pages boot_procs = free_pages large_mem" "p_state (proctable boot_procs i) = UNUSED"
  "c_depth (cpus boot_procs (this_cpu boot_procs)) = 0"
proof -
  note defs = boot_procs_def vmst.defs memst.defs procst.defs
  have f: "csrs boot_procs = csrs large_mem" "gprs boot_procs = gprs large_mem" "cpus boot_procs = cpus large_mem"
    "locks boot_procs = locks large_mem" "hang boot_procs = hang large_mem" "mmio_in boot_procs = mmio_in large_mem"
    "mem_bitmap boot_procs = mem_bitmap large_mem" "start_page boot_procs = start_page large_mem"
    by (simp_all add: defs)
  show "mem_ready boot_procs" "free_pages boot_procs = free_pages large_mem"
    using ready_cong(1,2) [OF f] large_mem_ready by simp_all
  show lf: "lk_free lk boot_procs" for lk
    unfolding lk_free_def f(4) by (simp add: large_mem_def small_mem_def lockst.defs idle_locks_def console.defs memst.defs)
  show "procs_free boot_procs" by (simp add: procs_free_def lf)
  show "c_depth (cpus boot_procs (this_cpu boot_procs)) = 0"
    unfolding f(3) by (simp add: large_mem_def small_mem_def lockst.defs idle_locks_def console.defs memst.defs)
  show "curr_pid boot_procs = 1" "p_state (proctable boot_procs i) = UNUSED" by (simp_all add: defs)
  show "table_wf boot_procs"
    by (simp add: table_wf_def idle_slot_def slot_wf_def owns_def) (simp add: defs)
qed

theorem procalloc_all_or_nothing_witness:
  "\<exists>i t. procalloc 0x80008000 0x80000100 boot_procs = Ok (Some i) t \<and> table_wf t
    \<and> p_state (proctable t i) = NEW \<and> p_pid (proctable t i) = 1 \<and> p_tf (proctable t i) \<noteq> 0"
proof -
  have "tramp_ok 0x80008000" by (simp add: tramp_ok_def page_aligned_def KERNBASE_def MEM_END_def PAGE_SIZE_def)
  then obtain r t where r: "procalloc 0x80008000 0x80000100 boot_procs = Ok r t" "table_wf t"
    and c: "case r of
         None \<Rightarrow> (\<forall>i<NPROC. p_state (proctable boot_procs i) \<noteq> UNUSED) \<or> card (free_pages boot_procs) \<le> 36
       | Some i \<Rightarrow> p_state (proctable t i) = NEW
           \<and> filled 0x80008000 0x80000100 (mem t) ((proctable boot_procs i)\<lparr>p_state := NEW\<rparr>) (proctable t i) (curr_pid boot_procs)"
    using procalloc_all_or_nothing [OF boot_procs_ready(1,2,3) _ _ boot_procs_ready(4), of "0x80008000" "0x80000100"]
    by (auto simp: boot_procs_ready(5) split: option.splits)
  show ?thesis
  proof (cases r)
    case None
    then show ?thesis using c by (simp add: boot_procs_ready large_mem_free NPROC_def) (use zero_less_numeral in blast)
  next
    case (Some i)
    then have f: "p_state (proctable t i) = NEW"
      "filled 0x80008000 0x80000100 (mem t) ((proctable boot_procs i)\<lparr>p_state := NEW\<rparr>) (proctable t i) 1"
      using c boot_procs_ready(5) by simp_all
    then show ?thesis using r Some filledD(2,6) [OF f(2)] by auto
  qed
qed

end
