(* ===== verification/Context_Switch.thy ===== *)
theory Context_Switch
  imports Spinlock Memory
begin

text \<open>
  The assembly routines that save and restore registers: \<^verbatim>\<open>swtch.S\<close>, \<^verbatim>\<open>usertrap.S\<close>, \<^verbatim>\<open>usertrapret.S\<close> and
  \<^verbatim>\<open>kerneltrap.S\<close>, instruction by instruction. Each returns the address at which execution goes
  on. Shown: \<^verbatim>\<open>swtch\<close> stores and loads a \<^verbatim>\<open>struct context\<close>, a trip through the kernel gives a user
  program all its registers back, and a trap in the kernel does the same for the kernel.
\<close>

section \<open>Instructions\<close>

definition sw :: "nat \<Rightarrow> nat \<Rightarrow> nat \<Rightarrow> 'a machine_scheme \<Rightarrow> 'a machine_scheme" where
  "sw r off b s = s\<lparr>mem := store32 (gprs s b + of_nat off) (gprs s r) (mem s)\<rparr>"

definition lw :: "nat \<Rightarrow> nat \<Rightarrow> nat \<Rightarrow> 'a machine_scheme \<Rightarrow> 'a machine_scheme" where
  "lw r off b s = gprw r (load32 (mem s) (gprs s b + of_nat off)) s"

text \<open>A run of stores or loads with one base register, as pairs of register and offset.\<close>

definition sw_all :: "nat \<Rightarrow> (nat \<times> nat) list \<Rightarrow> 'a machine_scheme \<Rightarrow> 'a machine_scheme" where
  "sw_all b tbl s = fold (\<lambda>(r, off). sw r off b) tbl s"

definition lw_all :: "nat \<Rightarrow> (nat \<times> nat) list \<Rightarrow> 'a machine_scheme \<Rightarrow> 'a machine_scheme" where
  "lw_all b tbl s = fold (\<lambda>(r, off). lw r off b) tbl s"

section \<open>Switching contexts\<close>

definition swtch_frame :: "(nat \<times> nat) list" where
  "swtch_frame =
     [(1, 0), (2, 4), (8, 8), (9, 12), (18, 16), (19, 20), (20, 24), (21, 28), (22, 32),
      (23, 36), (24, 40), (25, 44), (26, 48), (27, 52)]"

text \<open>The two arguments are in \<^verbatim>\<open>a0\<close> and \<^verbatim>\<open>a1\<close>.\<close>

definition swtch :: "'a machine_scheme \<Rightarrow> u32 \<times> 'a machine_scheme" where
  "swtch s = (let s = lw_all 11 swtch_frame (sw_all 10 swtch_frame s) in (gprr 1 s, s))"

section \<open>Traps from user mode\<close>

definition user_frame_regs :: "(nat \<times> nat) list" where
  "user_frame_regs =
     [(1, 24), (2, 28), (3, 32), (4, 36), (5, 40), (6, 44), (7, 48), (8, 52), (9, 56),
      (11, 64), (12, 68), (13, 72), (14, 76), (15, 80), (16, 84), (17, 88), (18, 92), (19, 96),
      (20, 100), (21, 104), (22, 108), (23, 112), (24, 116), (25, 120), (26, 124), (27, 128), (28, 132),
      (29, 136), (30, 140), (31, 144)]"

definition usertrap_save :: "'a machine_scheme \<Rightarrow> 'a machine_scheme" where
  "usertrap_save s =
     (let old = gprr 10 s;
          s = w_sscratch old (gprw 10 (r_sscratch s) s);
          s = sw_all 10 user_frame_regs s;
          s = sw 5 60 10 (gprw 5 (r_sscratch s) s)
      in sw 6 16 10 (gprw 6 (r_sepc s) s))"

definition usertrap :: "'a machine_scheme \<Rightarrow> u32 \<times> 'a machine_scheme" where
  "usertrap s =
     (let s = lw_all 10 [(4, 148), (2, 0), (5, 4), (6, 8), (7, 12)] (usertrap_save s);
          s = csrw SATP (gprr 6 s) s;
          s = csrw STVEC (gprr 5 s) s;
          s = gprw 10 (r_scause s) s;
          s = gprw 11 (r_sepc s) s
      in (gprr 7 s, s))"

text \<open>
  \<^verbatim>\<open>sret\<close> leaves the trap: execution goes on at \<^verbatim>\<open>sepc\<close>, the interrupt enable bit is what it was
  before the trap (\<^verbatim>\<open>SPIE\<close>).
\<close>

definition sret :: "'a machine_scheme \<Rightarrow> u32 \<times> 'a machine_scheme" where
  "sret s =
     (let x = r_sstatus s;
          x' = (if x AND SSTATUS_SPIE \<noteq> 0 then x OR SSTATUS_SIE else x AND NOT SSTATUS_SIE);
          x' = (x' OR SSTATUS_SPIE) AND NOT SSTATUS_SPP
      in (r_sepc s, csrw SSTATUS x' s))"

definition usertrapret :: "'a machine_scheme \<Rightarrow> u32 \<times> 'a machine_scheme" where
  "usertrapret s =
     (let s = lw_all 10 user_frame_regs s;
          s = w_sscratch (gprr 10 s) s;
          s = lw 10 60 10 s
      in sret s)"

section \<open>Traps from the kernel\<close>

definition kernel_saves :: "(nat \<times> nat) list" where
  "kernel_saves =
     [(1, 0), (3, 8), (4, 12), (5, 16), (6, 20), (7, 24), (28, 28), (29, 32), (30, 36),
      (31, 40), (10, 44), (11, 48), (12, 52), (13, 56), (14, 60), (15, 64), (16, 68), (17, 72),
      (8, 76), (9, 80), (18, 84), (19, 88), (20, 92), (21, 96), (22, 100), (23, 104), (24, 108),
      (25, 112), (26, 116), (27, 120)]"

definition kernel_restores :: "(nat \<times> nat) list" where
  "kernel_restores =
     [(1, 0), (3, 8), (5, 16), (6, 20), (7, 24), (28, 28), (29, 32), (30, 36), (31, 40),
      (10, 44), (11, 48), (12, 52), (13, 56), (14, 60), (15, 64), (16, 68), (17, 72), (8, 76),
      (9, 80), (18, 84), (19, 88), (20, 92), (21, 96), (22, 100), (23, 104), (24, 108), (25, 112),
      (26, 116), (27, 120)]"

definition kerneltrap_entry :: "'a machine_scheme \<Rightarrow> 'a machine_scheme" where
  "kerneltrap_entry s =
     (let s = gprw 2 (gprr 2 s - 128) s;
          s = sw_all 2 kernel_saves s;
          s = gprw 10 (r_scause s) s
      in gprw 11 (r_sepc s) s)"

text \<open>\<open>handler\<close> is the call of \<^verbatim>\<open>s_trap_handle\<close>, its arguments in \<^verbatim>\<open>a0\<close> and \<^verbatim>\<open>a1\<close>.\<close>

definition kerneltrap :: "('a machine_scheme \<Rightarrow> 'a machine_scheme) \<Rightarrow> 'a machine_scheme \<Rightarrow> u32 \<times> 'a machine_scheme" where
  "kerneltrap handler s =
     (let s = handler (kerneltrap_entry s);
          s = lw_all 2 kernel_restores s;
          s = gprw 2 (gprr 2 s + 128) s
      in sret s)"

section \<open>Frames in memory\<close>

definition put_frame :: "u32 \<Rightarrow> (nat \<Rightarrow> u32) \<Rightarrow> (nat \<times> nat) list \<Rightarrow> memory \<Rightarrow> memory" where
  "put_frame base g tbl m = fold (\<lambda>(r, off). store32 (base + of_nat off) (g r)) tbl m"

definition get_frame :: "u32 \<Rightarrow> memory \<Rightarrow> (nat \<times> nat) list \<Rightarrow> (nat \<Rightarrow> u32) \<Rightarrow> (nat \<Rightarrow> u32)" where
  "get_frame base m tbl g = fold (\<lambda>(r, off) g. g(r := load32 m (base + of_nat off))) tbl g"

text \<open>No register and no word twice, offsets of words.\<close>

definition frame_ok :: "(nat \<times> nat) list \<Rightarrow> bool" where
  "frame_ok tbl \<longleftrightarrow> distinct (map fst tbl) \<and> distinct (map snd tbl) \<and> list_all (\<lambda>(r, off). off mod 4 = 0 \<and> off < 4096) tbl"

lemma sw_all_put: "sw_all b tbl s = s\<lparr>mem := put_frame (gprs s b) (gprs s) tbl (mem s)\<rparr>"
  by (induction tbl arbitrary: s) (simp_all add: sw_all_def put_frame_def sw_def split_beta)

lemma lw_all_get: "b \<notin> fst ` set tbl \<Longrightarrow> lw_all b tbl s = s\<lparr>gprs := get_frame (gprs s b) (mem s) tbl (gprs s)\<rparr>"
  by (induction tbl arbitrary: s) (simp_all add: lw_all_def get_frame_def lw_def gprw_def split_beta)

lemma word_addr_aligned: "unat (a :: u32) mod 4 = 0 \<Longrightarrow> off mod 4 = 0 \<Longrightarrow> unat (a + of_nat off) mod 4 = 0"
  by (simp add: unat_word_ariths unat_of_nat mod_mod_cancel mod_add_eq mod_simps) (metis add.right_neutral mod_0 mod_add_eq)

lemma word_addr_eq: "off < 4096 \<Longrightarrow> off' < 4096 \<Longrightarrow> (a :: u32) + of_nat off = a + of_nat off' \<longleftrightarrow> off = off'"
  by (simp add: unat_eq_iff_u32 [of "of_nat off"] unat_of_nat)

text \<open>Words of the frame are what was put there, other words of the page are untouched.\<close>

lemma put_frame_other:
  assumes "unat base mod 4 = 0" "off mod 4 = 0" "off < 4096" "list_all (\<lambda>(r, off). off mod 4 = 0 \<and> off < 4096) tbl"
    "off \<notin> snd ` set tbl"
  shows "load32 (put_frame base g tbl m) (base + of_nat off) = load32 m (base + of_nat off)"
  using assms(4,5)
proof (induction tbl arbitrary: m)
  case (Cons e tbl)
  obtain r o' where e: "e = (r, o')" by (cases e)
  have "base + of_nat off \<noteq> base + of_nat o'" using Cons.prems assms(3) word_addr_eq [of off o' base] by (auto simp: e)
  then have "load32 (store32 (base + of_nat o') (g r) m) (base + of_nat off) = load32 m (base + of_nat off)"
    using Cons.prems assms(1,2) by (intro load32_store32_other word_addr_aligned) (simp_all add: e)
  then show ?case using Cons by (simp add: put_frame_def e)
qed (simp add: put_frame_def)

lemma put_frame_at:
  assumes "unat base mod 4 = 0" "frame_ok tbl" "(r, off) \<in> set tbl"
  shows "load32 (put_frame base g tbl m) (base + of_nat off) = g r"
  using assms(2,3)
proof (induction tbl arbitrary: m)
  case (Cons e tbl)
  obtain r' o' where e: "e = (r', o')" by (cases e)
  have ok: "frame_ok tbl" "o' \<notin> snd ` set tbl" "o' mod 4 = 0" "o' < 4096"
    using Cons.prems(1) by (auto simp: frame_ok_def e)
  show ?case
  proof (cases "(r, off) \<in> set tbl")
    case True
    then show ?thesis using Cons.IH [OF ok(1)] by (simp add: put_frame_def e)
  next
    case False
    then have "r = r'" "off = o'" using Cons.prems(2) by (auto simp: e)
    moreover have "load32 (put_frame base g tbl (store32 (base + of_nat o') (g r') m)) (base + of_nat o') = g r'"
      using put_frame_other [OF assms(1) ok(3,4) _ ok(2), of g] ok(1) by (simp add: frame_ok_def load32_store32)
    ultimately show ?thesis by (simp add: put_frame_def e)
  qed
qed simp

lemma get_frame_other: "r \<notin> fst ` set tbl \<Longrightarrow> get_frame base m tbl g r = g r"
  by (induction tbl arbitrary: g) (auto simp: get_frame_def split_beta)

lemma get_frame_at:
  assumes "distinct (map fst tbl)" "(r, off) \<in> set tbl"
  shows "get_frame base m tbl g r = load32 m (base + of_nat off)"
  using assms
proof (induction tbl arbitrary: g)
  case (Cons e tbl)
  obtain r' o' where e: "e = (r', o')" by (cases e)
  show ?case
  proof (cases "(r, off) \<in> set tbl")
    case True
    then show ?thesis using Cons by (simp add: get_frame_def e)
  next
    case False
    then have "r = r'" "off = o'" "r \<notin> fst ` set tbl" using Cons.prems by (auto simp: e)
    then show ?thesis using get_frame_other [of r tbl base m] by (simp add: get_frame_def e)
  qed
qed simp

lemma frames_ok [simp]: "frame_ok swtch_frame" "frame_ok user_frame_regs" "frame_ok kernel_saves" "frame_ok kernel_restores"
  by (simp_all add: frame_ok_def swtch_frame_def user_frame_regs_def kernel_saves_def kernel_restores_def)

lemma frame_base [simp]: "11 \<notin> fst ` set swtch_frame" "10 \<notin> fst ` set user_frame_regs" "2 \<notin> fst ` set kernel_restores"
  by (simp_all add: swtch_frame_def user_frame_regs_def kernel_restores_def)

section \<open>Switching contexts stores one and loads the other\<close>

definition context_at :: "memory \<Rightarrow> u32 \<Rightarrow> kcontext" where
  "context_at m a = \<lparr>x_ra = load32 m a, x_sp = load32 m (a + 4), x_s0 = load32 m (a + 8), x_s1 = load32 m (a + 12),
     x_s2 = load32 m (a + 16), x_s3 = load32 m (a + 20), x_s4 = load32 m (a + 24), x_s5 = load32 m (a + 28),
     x_s6 = load32 m (a + 32), x_s7 = load32 m (a + 36), x_s8 = load32 m (a + 40), x_s9 = load32 m (a + 44),
     x_s10 = load32 m (a + 48), x_s11 = load32 m (a + 52)\<rparr>"

definition context_of :: "(nat \<Rightarrow> u32) \<Rightarrow> kcontext" where
  "context_of g = \<lparr>x_ra = g 1, x_sp = g 2, x_s0 = g 8, x_s1 = g 9, x_s2 = g 18, x_s3 = g 19, x_s4 = g 20,
     x_s5 = g 21, x_s6 = g 22, x_s7 = g 23, x_s8 = g 24, x_s9 = g 25, x_s10 = g 26, x_s11 = g 27\<rparr>"

definition load_context :: "kcontext \<Rightarrow> (nat \<Rightarrow> u32) \<Rightarrow> (nat \<Rightarrow> u32)" where
  "load_context c g = g(1 := x_ra c, 2 := x_sp c, 8 := x_s0 c, 9 := x_s1 c, 18 := x_s2 c, 19 := x_s3 c, 20 := x_s4 c,
     21 := x_s5 c, 22 := x_s6 c, 23 := x_s7 c, 24 := x_s8 c, 25 := x_s9 c, 26 := x_s10 c, 27 := x_s11 c)"

lemma load_context_of: "load_context (context_of g) g = g"
  by (simp add: load_context_def context_of_def fun_upd_idem)

lemma get_swtch_frame: "get_frame base m swtch_frame g = load_context (context_at m base) g"
  by (simp add: get_frame_def swtch_frame_def load_context_def context_at_def)

lemma in_block_shift:
  assumes "in_block (base + of_nat off) k x" "off + k \<le> n"
  shows "in_block base n x"
proof -
  let ?d = "x - (base + of_nat off)"
  have "x - base = ?d + of_nat off" by simp
  then have "unat (x - base) \<le> unat ?d + unat (of_nat off :: u32)"
    by (simp only: unat_word_ariths mod_less_eq_dividend)
  moreover have "unat (of_nat off :: u32) \<le> off" by (simp add: unat_of_nat)
  moreover have "unat ?d < k" using assms(1) by (simp add: in_block_def)
  ultimately show ?thesis using assms(2) by (simp add: in_block_def)
qed

lemma put_frame_outside:
  assumes "\<forall>(r, off)\<in>set tbl. off + 4 \<le> n" "\<not> in_block base n x"
  shows "put_frame base g tbl m x = m x"
  using assms(1)
proof (induction tbl arbitrary: m)
  case (Cons e tbl)
  obtain r off where e: "e = (r, off)" by (cases e)
  have "\<not> in_block (base + of_nat off) 4 x"
    using Cons.prems assms(2) in_block_shift [of base off 4 x n] by (auto simp: e)
  then show ?case using Cons by (simp add: put_frame_def e store32_other)
qed (simp add: put_frame_def)

text \<open>
  C31 (refinement). \<^verbatim>\<open>swtch\<close> on two contexts that do not overlap is an exchange of the callee-saved
  registers: the old context becomes that of the registers, the registers those of the new
  context, nothing else changes, and execution goes on at the new return address.
\<close>

theorem swtch_exchanges_contexts:
  assumes al: "unat (gprs s 10) mod 4 = 0"
    and apart: "\<forall>x. \<not> (in_block (gprs s 10) 56 x \<and> in_block (gprs s 11) 56 x)"
  shows "context_at (mem (snd (swtch s))) (gprs s 10) = context_of (gprs s)
    \<and> gprs (snd (swtch s)) = load_context (context_at (mem s) (gprs s 11)) (gprs s)
    \<and> fst (swtch s) = x_ra (context_at (mem s) (gprs s 11))
    \<and> csrs (snd (swtch s)) = csrs s
    \<and> (\<forall>x. in_block (gprs s 10) 56 x \<or> mem (snd (swtch s)) x = mem s x)"
proof -
  let ?m = "put_frame (gprs s 10) (gprs s) swtch_frame (mem s)"
  have run: "snd (swtch s) = s\<lparr>mem := ?m, gprs := load_context (context_at ?m (gprs s 11)) (gprs s)\<rparr>"
    by (simp add: swtch_def Let_def sw_all_put lw_all_get get_swtch_frame)
  have out: "?m x = mem s x" if "\<not> in_block (gprs s 10) 56 x" for x
    using that by (intro put_frame_outside) (auto simp: swtch_frame_def)
  have new: "load32 ?m (gprs s 11 + of_nat off) = load32 (mem s) (gprs s 11 + of_nat off)" if "off + 4 \<le> 56" for off
  proof (rule load32_cong, rule out)
    fix x
    assume "in_block (gprs s 11 + of_nat off) 4 x"
    then have "in_block (gprs s 11) 56 x" by (rule in_block_shift) (rule that)
    then show "\<not> in_block (gprs s 10) 56 x" using apart by blast
  qed
  have "context_at ?m (gprs s 11) = context_at (mem s) (gprs s 11)"
    using new [of 0] new [of 4] new [of 8] new [of 12] new [of 16] new [of 20] new [of 24] new [of 28] new [of 32]
      new [of 36] new [of 40] new [of 44] new [of 48] new [of 52] by (simp add: context_at_def)
  moreover have "load32 ?m (gprs s 10 + of_nat off) = gprs s r" if "(r, off) \<in> set swtch_frame" for r off
    using put_frame_at [OF al _ that] by simp
  from this [of 1 0] this [of 2 4] this [of 8 8] this [of 9 12] this [of 18 16] this [of 19 20] this [of 20 24]
    this [of 21 28] this [of 22 32] this [of 23 36] this [of 24 40] this [of 25 44] this [of 26 48] this [of 27 52]
  have "context_at ?m (gprs s 10) = context_of (gprs s)"
    by (simp add: context_at_def context_of_def swtch_frame_def)
  moreover have "fst (swtch s) = gprs (snd (swtch s)) 1" by (simp add: swtch_def Let_def gprr_def)
  ultimately show ?thesis using run out by (auto simp: load_context_def)
qed

theorem swtch_exchanges_contexts_witness:
  "let s = (machine.make (\<lambda>_. 0) ((\<lambda>r. of_nat (100 + r))(10 := 0x80010000, 11 := 0x80020000)) (\<lambda>_. 0) (\<lambda>_. 0) 0)
   in context_at (mem (snd (swtch s))) 0x80010000 = context_of (gprs s) \<and> fst (swtch s) = 0 \<and> gprs (snd (swtch s)) 4 = 104"
proof -
  let ?s = "machine.make (\<lambda>_. 0) ((\<lambda>r. of_nat (100 + r))(10 := 0x80010000, 11 := 0x80020000)) (\<lambda>_. 0) (\<lambda>_. 0) 0"
  have g: "gprs ?s 10 = 0x80010000" "gprs ?s 11 = 0x80020000" "mem ?s = (\<lambda>_. 0)" by (simp_all add: machine.defs)
  have "\<forall>x. \<not> (in_block (gprs ?s 10) 56 x \<and> in_block (gprs ?s 11) 56 x)"
    unfolding g by (auto simp: in_block_nowrap)
  from swtch_exchanges_contexts [OF _ this] show ?thesis
    unfolding Let_def g by (simp add: context_at_def load32_def load_context_def) (simp add: machine.defs)
qed

section \<open>A trap from user mode and back\<close>

lemma user_frame_reg: "0 < r \<Longrightarrow> r < 32 \<Longrightarrow> r \<noteq> 10 \<Longrightarrow> (r, 20 + 4 * r) \<in> set user_frame_regs"
proof -
  assume r: "0 < r" "r < 32" "r \<noteq> 10"
  have "user_frame_regs = map (\<lambda>r. (r, 20 + 4 * r)) ([1..<10] @ [11..<32])"
    by (simp add: user_frame_regs_def upt_conv_Cons)
  moreover have "r \<in> set ([1..<10] @ [11..<32])" using r by (simp only: set_append set_upt Un_iff atLeastLessThan_iff) arith
  ultimately show ?thesis by (metis (no_types, lifting) image_eqI set_map)
qed

lemma usertrap_run:
  fixes s :: "'a machine_scheme"
  defines "tf \<equiv> r_sscratch s"
  defines "m \<equiv> store32 (tf + 16) (r_sepc s) (store32 (tf + 60) (gprs s 10)
      (put_frame tf ((gprs s)(10 := tf)) user_frame_regs (mem s)))"
  shows "mem (snd (usertrap s)) = m"
    "gprs (snd (usertrap s)) 4 = load32 m (tf + 148)" "gprs (snd (usertrap s)) 2 = load32 m tf"
    "gprs (snd (usertrap s)) 10 = r_scause s" "gprs (snd (usertrap s)) 11 = r_sepc s"
    "r_satp (snd (usertrap s)) = load32 m (tf + 8)" "r_stvec (snd (usertrap s)) = load32 m (tf + 4)"
    "fst (usertrap s) = load32 m (tf + 12)"
proof -
  have u: "gprs (usertrap_save s) 10 = tf" "mem (usertrap_save s) = m" "csrs (usertrap_save s) SCAUSE = csrs s SCAUSE"
    "csrs (usertrap_save s) SEPC = csrs s SEPC"
    by (simp_all add: usertrap_save_def Let_def sw_all_put m_def tf_def sw_def gprw_def gprr_def csrw_def csrr_def
        w_sscratch_def r_sscratch_def r_sepc_def)
  show "mem (snd (usertrap s)) = m"
    "gprs (snd (usertrap s)) 4 = load32 m (tf + 148)" "gprs (snd (usertrap s)) 2 = load32 m tf"
    "gprs (snd (usertrap s)) 10 = r_scause s" "gprs (snd (usertrap s)) 11 = r_sepc s"
    "r_satp (snd (usertrap s)) = load32 m (tf + 8)" "r_stvec (snd (usertrap s)) = load32 m (tf + 4)"
    "fst (usertrap s) = load32 m (tf + 12)"
    unfolding usertrap_def Let_def
    by (simp_all add: lw_all_get get_frame_def u gprw_def gprr_def csrw_def csrr_def r_sepc_def r_scause_def r_satp_def r_stvec_def)
qed

lemma user_frame_words:
  fixes tf e a :: u32 and g :: "nat \<Rightarrow> u32" and m :: memory
  assumes al: "unat tf mod 4 = 0"
  defines "m' \<equiv> store32 (tf + 16) e (store32 (tf + 60) a (put_frame tf g user_frame_regs m))"
  shows "0 < r \<Longrightarrow> r < 32 \<Longrightarrow> r \<noteq> 10 \<Longrightarrow> load32 m' (tf + of_nat (20 + 4 * r)) = g r"
    and "load32 m' (tf + 60) = a" "load32 m' (tf + 16) = e"
    and "off \<in> {0, 4, 8, 12, 148} \<Longrightarrow> load32 m' (tf + of_nat off) = load32 m (tf + of_nat off)"
proof -
  have w: "unat (tf + of_nat off) mod 4 = 0" if "off mod 4 = 0" for off using word_addr_aligned [OF al that] .
  have ne: "load32 (store32 (tf + of_nat o1) v m1) (tf + of_nat o2) = load32 m1 (tf + of_nat o2)"
    if "o1 < 4096" "o2 < 4096" "o1 mod 4 = 0" "o2 mod 4 = 0" "o1 \<noteq> o2" for o1 o2 v m1
    using that w word_addr_eq [of o1 o2 tf] by (intro load32_store32_other) auto
  let ?p = "put_frame tf g user_frame_regs m"
  have c: "tf + 16 = tf + of_nat 16" "tf + 60 = tf + of_nat 60" by simp_all
  show "load32 m' (tf + 60) = a" unfolding m'_def c using ne [of 16 60] by (simp add: load32_store32)
  show "load32 m' (tf + 16) = e" by (simp add: m'_def load32_store32)
  have out: "load32 m' (tf + of_nat k) = load32 ?p (tf + of_nat k)" if "k mod 4 = 0" "k < 4096" "k \<noteq> 16" "k \<noteq> 60" for k
    unfolding m'_def c using that ne [of 16 k] ne [of 60 k] by simp
  show "load32 m' (tf + of_nat (20 + 4 * r)) = g r" if r: "0 < r" "r < 32" "r \<noteq> 10"
  proof -
    have "(20 + 4 * r) mod 4 = 0" by presburger
    moreover have "20 + 4 * r < 4096" "20 + 4 * r \<noteq> 16" "20 + 4 * r \<noteq> 60" using r by simp_all
    ultimately show ?thesis
      using put_frame_at [OF al frames_ok(2) user_frame_reg [OF r]] out [of "20 + 4 * r"] by metis
  qed
  assume off: "off \<in> {0, 4, 8, 12, 148}"
  then have "off mod 4 = 0" "off < 4096" "off \<noteq> 16" "off \<noteq> 60" "off \<notin> snd ` set user_frame_regs"
    by (auto simp: user_frame_regs_def)
  moreover from this have "load32 m' (tf + of_nat off) = load32 ?p (tf + of_nat off)" by (intro out)
  ultimately show "load32 m' (tf + of_nat off) = load32 m (tf + of_nat off)"
    using put_frame_other [OF al, of off user_frame_regs g m] frames_ok(2) by (simp add: frame_ok_def)
qed

lemma sret_fields [simp]:
  "gprs (snd (sret s)) = gprs s" "mem (snd (sret s)) = mem s" "csrs (snd (sret s)) SSCRATCH = csrs s SSCRATCH" "fst (sret s) = csrs s SEPC"
  by (simp_all add: sret_def Let_def csrw_def r_sepc_def csrr_def)

lemma usertrapret_run:
  fixes t :: "'a machine_scheme"
  defines "tf \<equiv> gprs t 10"
  shows "fst (usertrapret t) = r_sepc t" "r_sscratch (snd (usertrapret t)) = tf"
    "gprs (snd (usertrapret t)) 10 = load32 (mem t) (tf + 60)"
    "0 < r \<Longrightarrow> r < 32 \<Longrightarrow> r \<noteq> 10 \<Longrightarrow> gprs (snd (usertrapret t)) r = load32 (mem t) (tf + of_nat (20 + 4 * r))"
proof -
  let ?g = "get_frame tf (mem t) user_frame_regs (gprs t)"
  have g10: "?g 10 = tf" using get_frame_other [OF frame_base(2)] by (simp add: tf_def)
  have run: "gprs (snd (usertrapret t)) = ?g(10 := load32 (mem t) (tf + 60))"
    using g10 by (simp add: usertrapret_def Let_def lw_all_get lw_def gprw_def gprr_def csrw_def w_sscratch_def tf_def)
  then show "gprs (snd (usertrapret t)) 10 = load32 (mem t) (tf + 60)" by simp
  show "gprs (snd (usertrapret t)) r = load32 (mem t) (tf + of_nat (20 + 4 * r))" if r: "0 < r" "r < 32" "r \<noteq> 10"
    unfolding run using get_frame_at [OF _ user_frame_reg [OF r]] r frames_ok(2) by (simp add: frame_ok_def)
  show "fst (usertrapret t) = r_sepc t" "r_sscratch (snd (usertrapret t)) = tf"
    using g10 by (simp_all add: usertrapret_def Let_def lw_all_get lw_def gprw_def gprr_def csrw_def csrr_def
        w_sscratch_def r_sscratch_def r_sepc_def tf_def)
qed

text \<open>
  C32 (roundtrip). From \<^verbatim>\<open>usertrap\<close> to \<^verbatim>\<open>usertrapret\<close> a user program loses no register. On entry the
  kernel runs on the stack, hart id, page table and trap vector of the trapframe, with the cause
  and the program counter as arguments, and the program counter is saved. If on the way out the
  register words of the trapframe are as they were, \<^verbatim>\<open>a0\<close> apart, every register is as before the
  trap and \<^verbatim>\<open>a0\<close> is what the trapframe says. The program goes on at the address in \<^verbatim>\<open>sepc\<close>, which is where
  it was interrupted if the kernel loads \<^verbatim>\<open>sepc\<close> with the word saved on entry.
\<close>

theorem user_registers_survive:
  fixes s t :: "'a machine_scheme"
  defines "tf \<equiv> r_sscratch s"
  assumes al: "unat tf mod 4 = 0" and a0: "gprs t 10 = tf"
    and kept: "\<forall>r\<in>{1..31} - {10}. load32 (mem t) (tf + of_nat (20 + 4 * r)) = load32 (mem (snd (usertrap s))) (tf + of_nat (20 + 4 * r))"
  shows "(\<forall>r\<in>{1..31} - {10}. gprs (snd (usertrapret t)) r = gprs s r)
    \<and> gprs (snd (usertrapret t)) 10 = load32 (mem t) (tf + 60) \<and> load32 (mem (snd (usertrap s))) (tf + 60) = gprs s 10
    \<and> load32 (mem (snd (usertrap s))) (tf + 16) = r_sepc s \<and> fst (usertrapret t) = r_sepc t
    \<and> (r_sepc t = load32 (mem (snd (usertrap s))) (tf + 16) \<longrightarrow> fst (usertrapret t) = r_sepc s)
    \<and> gprs (snd (usertrap s)) 2 = load32 (mem s) tf \<and> gprs (snd (usertrap s)) 4 = load32 (mem s) (tf + 148)
    \<and> gprs (snd (usertrap s)) 10 = r_scause s \<and> gprs (snd (usertrap s)) 11 = r_sepc s
    \<and> r_stvec (snd (usertrap s)) = load32 (mem s) (tf + 4) \<and> r_satp (snd (usertrap s)) = load32 (mem s) (tf + 8)
    \<and> fst (usertrap s) = load32 (mem s) (tf + 12) \<and> r_sscratch (snd (usertrapret t)) = tf"
proof -
  note w = user_frame_words [OF al, where e = "r_sepc s" and a = "gprs s 10" and g = "(gprs s)(10 := tf)" and m = "mem s"]
  note run = usertrap_run [where s = s, folded tf_def]
  note ret = usertrapret_run [where t = t, unfolded a0]
  have "gprs (snd (usertrapret t)) r = gprs s r" if "r \<in> {1..31} - {10}" for r
  proof -
    have r: "0 < r" "r < 32" "r \<noteq> 10" using that by auto
    show ?thesis using ret(4) [OF r] bspec [OF kept that] w(1) [OF r] r(3) unfolding run(1) by simp
  qed
  moreover have "load32 (mem (snd (usertrap s))) (tf + of_nat off) = load32 (mem s) (tf + of_nat off)"
    if "off \<in> {0, 4, 8, 12, 148}" for off unfolding run(1) using w(4) [OF that] .
  from this [of 0] this [of 4] this [of 8] this [of 12] this [of 148]
  have "load32 (mem (snd (usertrap s))) tf = load32 (mem s) tf" "load32 (mem (snd (usertrap s))) (tf + 4) = load32 (mem s) (tf + 4)"
    "load32 (mem (snd (usertrap s))) (tf + 8) = load32 (mem s) (tf + 8)" "load32 (mem (snd (usertrap s))) (tf + 12) = load32 (mem s) (tf + 12)"
    "load32 (mem (snd (usertrap s))) (tf + 148) = load32 (mem s) (tf + 148)" by simp_all
  ultimately show ?thesis using run w(2,3) ret(1,2,3) by simp
qed

text \<open>A trap that saves a user state and returns to it at once.\<close>

definition user_state :: machine where
  "user_state = machine.make ((\<lambda>_. 0)(SSCRATCH := 0x80040000, SEPC := 0x1234, SCAUSE := 8)) (\<lambda>r. of_nat (7 * r)) (\<lambda>_. 0) (\<lambda>_. 0) 0"

theorem user_registers_survive_witness:
  "gprs (snd (usertrapret ((snd (usertrap user_state))\<lparr>gprs := \<lambda>_. 0x80040000\<rparr>))) 17 = 119
    \<and> load32 (mem (snd (usertrap user_state))) 0x80040010 = 0x1234 \<and> gprs (snd (usertrap user_state)) 10 = 8"
proof -
  let ?t = "(snd (usertrap user_state))\<lparr>gprs := \<lambda>_. 0x80040000\<rparr>"
  have s: "r_sscratch user_state = 0x80040000" "r_sepc user_state = 0x1234" "r_scause user_state = 8" "gprs user_state 17 = 119"
    by (simp_all add: user_state_def machine.defs csr_defs csrr_def r_sscratch_def r_sepc_def r_scause_def)
  from user_registers_survive [where s = user_state and t = ?t, unfolded s]
  have "\<forall>r\<in>{1..31} - {10}. gprs (snd (usertrapret ?t)) r = gprs user_state r"
    "load32 (mem (snd (usertrap user_state))) (0x80040000 + 16) = 0x1234" "gprs (snd (usertrap user_state)) 10 = 8"
    by simp_all
  then show ?thesis using s(4) by simp
qed

section \<open>A trap from kernel mode and back\<close>

text \<open>
  A trap in the kernel is invisible to the code it interrupts: if the handler keeps the stack
  pointer and the 128 bytes below it, every register but \<^verbatim>\<open>tp\<close> is as before. \<^verbatim>\<open>tp\<close> is what the handler
  left there: the process may have moved to another hart.
\<close>

lemma kernel_registers_survive:
  assumes al: "unat (gprs s 2) mod 4 = 0"
    and h: "\<And>u. gprs (h u) 2 = gprs u 2" "\<And>u off. off < 128 \<Longrightarrow> off mod 4 = 0 \<Longrightarrow>
      load32 (mem (h u)) (gprs u 2 + of_nat off) = load32 (mem u) (gprs u 2 + of_nat off)"
    and r: "0 < r" "r < 32" "r \<noteq> 4"
  shows "gprs (snd (kerneltrap h s)) r = gprs s r"
proof -
  let ?sp = "gprs s 2 - 128"
  let ?u = "kerneltrap_entry s"
  have u: "gprs ?u 2 = ?sp" "mem ?u = put_frame ?sp ((gprs s)(2 := ?sp)) kernel_saves (mem s)"
    by (simp_all add: kerneltrap_entry_def Let_def sw_all_put gprw_def gprr_def)
  have sa: "unat ?sp mod 4 = 0"
  proof -
    have "(4294967168 :: u32) = - 128" by simp
    then have eq: "?sp = gprs s 2 + 4294967168" by (simp only: diff_conv_add_uminus)
    show ?thesis unfolding eq using word_addr_aligned [OF al, of 4294967168] by simp
  qed
  have run: "gprs (snd (kerneltrap h s)) = (let g = get_frame ?sp (mem (h ?u)) kernel_restores (gprs (h ?u)) in g(2 := g 2 + 128))"
    using h(1) [of ?u] u(1) by (simp add: kerneltrap_def Let_def lw_all_get gprw_def gprr_def)
  have g2: "get_frame ?sp m kernel_restores g 2 = g 2" for m g by (rule get_frame_other) simp
  show ?thesis
  proof (cases "r = 2")
    case True
    then show ?thesis using run g2 h(1) [of ?u] u(1) by (simp add: Let_def)
  next
    case False
    have "list_all (\<lambda>r. r = 2 \<or> r = 4 \<or> r \<in> fst ` set kernel_restores) [1..<32]"
      by (simp add: upt_conv_Cons kernel_restores_def)
    then have "r \<in> fst ` set kernel_restores" 
      using r False unfolding list_all_iff set_upt by (auto dest!: bspec [of _ _ r])
    then obtain x where x: "x \<in> set kernel_restores" "fst x = r" by blast
    let ?off = "snd x"
    have eq: "x = (r, ?off)" using x(2) by (cases x) simp
    have "list_all (\<lambda>x. x \<in> set kernel_saves \<and> snd x < 128 \<and> snd x mod 4 = 0) kernel_restores"
      by (simp add: kernel_restores_def kernel_saves_def)
    then have "x \<in> set kernel_saves \<and> snd x < 128 \<and> snd x mod 4 = 0" using x(1) unfolding list_all_iff by (rule bspec)
    then have off: "(r, ?off) \<in> set kernel_restores" "(r, ?off) \<in> set kernel_saves" "?off < 128" "?off mod 4 = 0"
      using x(1) eq by simp_all
    have "gprs (snd (kerneltrap h s)) r = load32 (mem (h ?u)) (?sp + of_nat ?off)"
      using run False get_frame_at [OF _ off(1)] frames_ok(4) by (simp add: Let_def frame_ok_def)
    also have "\<dots> = load32 (mem ?u) (?sp + of_nat ?off)" using h(2) [OF off(3,4), of ?u] u(1) by simp
    also have "\<dots> = gprs s r" using put_frame_at [OF sa _ off(2)] False u(2) by simp
    finally show ?thesis .
  qed
qed

end
