(* ===== verification/Lifecycle.thy ===== *)
theory Lifecycle
  imports Process Context_Switch
begin

text \<open>
  The life of a process (\<^verbatim>\<open>proc.c\<close>): \<open>fork\<close>, \<open>kexit\<close>, \<open>wait\<close>, and how processes give up and get the
  CPU (\<open>sched\<close>, \<open>yield\<close>, \<open>sleep\<close>, \<open>wakeup\<close>, the scheduler). A process that calls \<open>sched\<close> stops there
  until some hart switches back to it; what all the other processes do in between is the
  argument \<open>others\<close>, any change of the state.
\<close>

section \<open>The trapframe\<close>

text \<open>The fields of \<^verbatim>\<open>struct trapframe_t\<close>, as offsets into the page \<open>p_tf\<close>.\<close>

definition TF_k_sp :: u32 where "TF_k_sp = 0"
definition TF_k_trap :: u32 where "TF_k_trap = 4"
definition TF_k_satp :: u32 where "TF_k_satp = 8"
definition TF_u_trap :: u32 where "TF_u_trap = 12"
definition TF_epc :: u32 where "TF_epc = 16"
definition TF_regs :: "nat \<Rightarrow> u32" where "TF_regs i = 20 + 4 * of_nat i"
definition TF_k_hartid :: u32 where "TF_k_hartid = 148"
definition TF_size :: nat where "TF_size = 152"

definition tf_get :: "u32 \<Rightarrow> u32 \<Rightarrow> 'a machine_scheme \<Rightarrow> u32" where
  "tf_get tf off s = load32 (mem s) (tf + off)"

definition tf_set :: "u32 \<Rightarrow> u32 \<Rightarrow> u32 \<Rightarrow> 'a machine_scheme \<Rightarrow> 'a machine_scheme" where
  "tf_set tf off v s = s\<lparr>mem := store32 (tf + off) v (mem s)\<rparr>"

section \<open>Creating a process\<close>

text \<open>Giving a half-made child back.\<close>

definition fork_undo :: "nat \<Rightarrow> u32 \<Rightarrow> 'a procst_scheme \<Rightarrow> (int, 'a procst_scheme) res" where
  "fork_undo j sz s =
     (let s = set_proc j (\<lambda>p. p\<lparr>p_sz := sz\<rparr>) s
      in kbind (lock (Proc_lock j) s) (\<lambda>_ s.
         kbind (releaseproc j s) (\<lambda>_ s.
         kbind (unlock (Proc_lock j) s) (\<lambda>_ s. Ok (-1) s))))"

text \<open>Filling in the child's slot: size, trapframe, name.\<close>

definition fork_child :: "nat \<Rightarrow> nat \<Rightarrow> 'a procst_scheme \<Rightarrow> 'a procst_scheme" where
  "fork_child i j s =
     (let s = set_proc j (\<lambda>p. p\<lparr>p_sz := p_sz (proctable s i)\<rparr>) s;
          tf = p_tf (proctable s j);
          child_ksp = tf_get tf TF_k_sp s;
          s = s\<lparr>mem := copy_block tf (p_tf (proctable s i)) TF_size (mem s)\<rparr>;
          s = tf_set tf TF_k_sp child_ksp s;
          s = tf_set tf (TF_regs 10) 0 s
      in set_proc j (\<lambda>p. p\<lparr>p_name := (\<lambda>k. if k < 16 then p_name (proctable s i) k else p_name p k)\<rparr>) s)"

text \<open>\<open>fork\<close> once the slot \<open>j\<close> is allocated.\<close>

definition fork_rest :: "nat \<Rightarrow> nat \<Rightarrow> 'a procst_scheme \<Rightarrow> (int, 'a procst_scheme) res" where
  "fork_rest i j s =
     kbind (uvmcopy (p_pt (proctable s i)) (p_pt (proctable s j)) (p_sz (proctable s i)) s) (\<lambda>r s.
       if r < 0 then fork_undo j (p_sz (proctable s i)) s
       else let s = fork_child i j s;
                pid = p_pid (proctable s j)
            in kbind (lock Wait_lock s) (\<lambda>_ s.
               kbind (lock (Proc_lock j) s) (\<lambda>_ s.
               kbind (unlock (Proc_lock j) (set_proc j (\<lambda>p. p\<lparr>p_parent := Some i, p_state := READY\<rparr>) s)) (\<lambda>_ s.
               kbind (unlock Wait_lock s) (\<lambda>_ s. Ok pid s)))))"

definition fork :: "u32 \<Rightarrow> u32 \<Rightarrow> 'a procst_scheme \<Rightarrow> (int, 'a procst_scheme) res" where
  "fork tramp fret s =
     kbind (myproc s) (\<lambda>p s.
     kbind (procalloc tramp fret s) (\<lambda>np s.
       case np of
         None \<Rightarrow> kbind (error ''sys_fork: procalloc fail'' s) (\<lambda>_ s. Ok (-1) s)
       | Some j \<Rightarrow> (case p of None \<Rightarrow> Undef s | Some i \<Rightarrow> fork_rest i j s)))"

section \<open>Giving up the CPU\<close>

text \<open>\<^verbatim>\<open>swtch\<close> on the context of a slot and that of a CPU, both of them records here.\<close>

definition switch_out :: "nat \<Rightarrow> nat \<Rightarrow> 'a procst_scheme \<Rightarrow> 'a procst_scheme" where
  "switch_out i c s =
     (set_proc i (\<lambda>p. p\<lparr>p_context := context_of (gprs s)\<rparr>) s)\<lparr>gprs := load_context (c_context (cpus s c)) (gprs s)\<rparr>"

definition switch_in :: "nat \<Rightarrow> nat \<Rightarrow> 'a procst_scheme \<Rightarrow> 'a procst_scheme" where
  "switch_in c i s =
     (set_cpu c (\<lambda>u. u\<lparr>c_context := context_of (gprs s)\<rparr>) s)\<lparr>gprs := load_context (p_context (proctable s i)) (gprs s)\<rparr>"

definition sched :: "('a procst_scheme \<Rightarrow> 'a procst_scheme) \<Rightarrow> 'a procst_scheme \<Rightarrow> (unit, 'a procst_scheme) res" where
  "sched others s =
     (let c = this_cpu s
      in case c_proc (cpus s c) of
           None \<Rightarrow> Undef s
         | Some i \<Rightarrow>
           if \<not> holding (Proc_lock i) s then panic ''sched: no lock'' s
           else if c_depth (cpus s c) \<noteq> 1 then panic ''sched: multiple lock held'' s
           else if p_state (proctable s i) = RUNNING then panic ''sched: process still running'' s
           else if is_interrupt s then panic ''sched: interruptible'' s
           else let intena = c_intena (cpus s c);
                    s = others (switch_out i c s)
                in Ok () (set_cpu (this_cpu s) (\<lambda>u. u\<lparr>c_intena := intena\<rparr>) s))"

definition yield :: "('a procst_scheme \<Rightarrow> 'a procst_scheme) \<Rightarrow> 'a procst_scheme \<Rightarrow> (unit, 'a procst_scheme) res" where
  "yield others s =
     kbind (myproc s) (\<lambda>p s.
       case p of
         None \<Rightarrow> Undef s
       | Some i \<Rightarrow>
         kbind (lock (Proc_lock i) s) (\<lambda>_ s.
         kbind (sched others (set_proc i (\<lambda>p. p\<lparr>p_state := READY\<rparr>) s)) (\<lambda>_ s.
           unlock (Proc_lock i) s)))"

definition sleep :: "('a procst_scheme \<Rightarrow> 'a procst_scheme) \<Rightarrow> chan option \<Rightarrow> lockid \<Rightarrow> 'a procst_scheme \<Rightarrow> (unit, 'a procst_scheme) res" where
  "sleep others ch lk s =
     kbind (myproc s) (\<lambda>p s.
       case p of
         None \<Rightarrow> Undef s
       | Some i \<Rightarrow>
         kbind (lock (Proc_lock i) s) (\<lambda>_ s.
         kbind (unlock lk s) (\<lambda>_ s.
         kbind (sched others (set_proc i (\<lambda>p. p\<lparr>p_chan := ch, p_state := WAITING\<rparr>) s)) (\<lambda>_ s.
         kbind (unlock (Proc_lock i) (set_proc i (\<lambda>p. p\<lparr>p_chan := None\<rparr>) s)) (\<lambda>_ s.
           lock lk s)))))"

definition wakeup_body :: "chan option \<Rightarrow> nat \<Rightarrow> 'a procst_scheme \<Rightarrow> (nat + unit, 'a procst_scheme) res" where
  "wakeup_body ch q s =
     (if q < NPROC
      then kbind (lock (Proc_lock q) s) (\<lambda>_ s.
        let s = (if p_chan (proctable s q) = ch \<and> p_state (proctable s q) = WAITING
                 then set_proc q (\<lambda>p. p\<lparr>p_state := READY\<rparr>) s else s)
        in kbind (unlock (Proc_lock q) s) (\<lambda>_ s. Ok (Inl (Suc q)) s))
      else Ok (Inr ()) s)"

definition wakeup :: "chan option \<Rightarrow> 'a procst_scheme \<Rightarrow> (unit, 'a procst_scheme) res" where
  "wakeup ch s = kloop (wakeup_body ch) 0 s"

section \<open>The scheduler\<close>

text \<open>One slot of the loop; the result says whether it was run.\<close>

definition scheduler_visit :: "('a procst_scheme \<Rightarrow> 'a procst_scheme) \<Rightarrow> nat \<Rightarrow> nat \<Rightarrow> 'a procst_scheme \<Rightarrow> (bool, 'a procst_scheme) res" where
  "scheduler_visit others c i s =
     kbind (lock (Proc_lock i) s) (\<lambda>_ s.
     kbind (if p_state (proctable s i) = READY
            then let s = set_proc i (\<lambda>p. p\<lparr>p_state := RUNNING\<rparr>) s;
                     s = set_cpu c (\<lambda>u. u\<lparr>c_proc := Some i\<rparr>) s;
                     s = others (switch_in c i s);
                     s = set_cpu c (\<lambda>u. u\<lparr>c_proc := None\<rparr>) s
                 in kbind (if p_state (proctable s i) = ZOMBIE \<and> p_parent (proctable s i) = None
                           then releaseproc i s else Ok () s) (\<lambda>_ s. Ok True s)
            else Ok False s) (\<lambda>run s.
     kbind (unlock (Proc_lock i) s) (\<lambda>_ s. Ok run s)))"

definition scheduler_body :: "('a procst_scheme \<Rightarrow> 'a procst_scheme) \<Rightarrow> nat \<Rightarrow> nat \<times> bool \<Rightarrow> 'a procst_scheme
    \<Rightarrow> (nat \<times> bool + bool, 'a procst_scheme) res" where
  "scheduler_body others c = (\<lambda>(i, run) s.
     if i < NPROC
     then kbind (scheduler_visit others c i s) (\<lambda>r s. Ok (Inl (Suc i, run \<or> r)) s)
     else Ok (Inr run) s)"

text \<open>One turn of the endless loop; a turn that ran nothing ends in \<^verbatim>\<open>wfi\<close>.\<close>

definition scheduler_turn :: "('a procst_scheme \<Rightarrow> 'a procst_scheme) \<Rightarrow> nat \<Rightarrow> 'a procst_scheme \<Rightarrow> (bool, 'a procst_scheme) res" where
  "scheduler_turn others c s = kloop (scheduler_body others c) (0, False) (interrupt_off (interrupt_on s))"

definition scheduler :: "('a procst_scheme \<Rightarrow> 'a procst_scheme) \<Rightarrow> 'a procst_scheme \<Rightarrow> (unit, 'a procst_scheme) res" where
  "scheduler others s =
     (let c = this_cpu s in kloop (\<lambda>_ s. kbind (scheduler_turn others c s) (\<lambda>_ s. Ok (Inl ()) s)) () s)"

section \<open>Waiting and exiting\<close>

text \<open>
  The scan of \<open>wait\<close> for one slot. The loop carries the slot and whether a child was seen; it ends
  with the return value, if there is one. \<open>xa\<close> is the address of the local variable \<^verbatim>\<open>xstate\<close>.
\<close>

definition wait_reap :: "nat option \<Rightarrow> u32 \<Rightarrow> u32 \<Rightarrow> nat \<Rightarrow> 'a procst_scheme \<Rightarrow> (int, 'a procst_scheme) res" where
  "wait_reap p addr xa q s =
     (let pid = p_pid (proctable s q);
          s = s\<lparr>mem := store32 xa (p_xstate (proctable s q)) (mem s)\<rparr>
      in kbind (if addr \<noteq> 0
                then case p of None \<Rightarrow> Undef s | Some i \<Rightarrow> copyout (p_pt (proctable s i)) addr xa 4 s
                else Ok 0 s) (\<lambda>r s.
           if r < 0 then kbind (unlock (Proc_lock q) s) (\<lambda>_ s. kbind (unlock Wait_lock s) (\<lambda>_ s. Ok (-1) s))
           else kbind (releaseproc q s) (\<lambda>_ s.
                kbind (unlock (Proc_lock q) s) (\<lambda>_ s. kbind (unlock Wait_lock s) (\<lambda>_ s. Ok pid s)))))"

definition wait_body :: "nat option \<Rightarrow> u32 \<Rightarrow> u32 \<Rightarrow> nat \<times> bool \<Rightarrow> 'a procst_scheme
    \<Rightarrow> (nat \<times> bool + int option \<times> bool, 'a procst_scheme) res" where
  "wait_body p addr xa = (\<lambda>(q, have_children) s.
     if q < NPROC
     then if p_parent (proctable s q) \<noteq> p then Ok (Inl (Suc q, have_children)) s
          else kbind (lock (Proc_lock q) s) (\<lambda>_ s.
            if p_state (proctable s q) = ZOMBIE
            then kbind (wait_reap p addr xa q s) (\<lambda>r s. Ok (Inr (Some r, True)) s)
            else kbind (unlock (Proc_lock q) s) (\<lambda>_ s. Ok (Inl (Suc q, True)) s))
     else Ok (Inr (None, have_children)) s)"

definition wait_loop :: "('a procst_scheme \<Rightarrow> 'a procst_scheme) \<Rightarrow> nat option \<Rightarrow> u32 \<Rightarrow> u32 \<Rightarrow> unit \<Rightarrow> 'a procst_scheme
    \<Rightarrow> (unit + int, 'a procst_scheme) res" where
  "wait_loop others p addr xa = (\<lambda>_ s.
     kbind (kloop (wait_body p addr xa) (0, False) s) (\<lambda>(r, have_children) s.
       case r of
         Some r \<Rightarrow> Ok (Inr r) s
       | None \<Rightarrow> if \<not> have_children then kbind (unlock Wait_lock s) (\<lambda>_ s. Ok (Inr (-1)) s)
                else kbind (sleep others (map_option Proc_chan p) Wait_lock s) (\<lambda>_ s. Ok (Inl ()) s)))"

definition wait :: "('a procst_scheme \<Rightarrow> 'a procst_scheme) \<Rightarrow> u32 \<Rightarrow> u32 \<Rightarrow> 'a procst_scheme \<Rightarrow> (int, 'a procst_scheme) res" where
  "wait others addr xa s =
     kbind (myproc s) (\<lambda>p s.
     kbind (lock Wait_lock s) (\<lambda>_ s.
       kloop (wait_loop others p addr xa) () s))"

definition reparent_body :: "nat \<Rightarrow> nat option \<Rightarrow> nat \<times> bool \<Rightarrow> 'a procst_scheme \<Rightarrow> (nat \<times> bool + bool, 'a procst_scheme) res" where
  "reparent_body i reaper = (\<lambda>(q, gave_zombie) s.
     if q < NPROC
     then if p_parent (proctable s q) = Some i
          then kbind (lock (Proc_lock q) s) (\<lambda>_ s.
            let s = set_proc q (\<lambda>p. p\<lparr>p_parent := reaper\<rparr>) s
            in kbind (if p_state (proctable s q) = ZOMBIE
                      then if reaper = None then kbind (releaseproc q s) (\<lambda>_ s. Ok gave_zombie s) else Ok True s
                      else Ok gave_zombie s) (\<lambda>gave s.
               kbind (unlock (Proc_lock q) s) (\<lambda>_ s. Ok (Inl (Suc q, gave)) s)))
          else Ok (Inl (Suc q, gave_zombie)) s
     else Ok (Inr gave_zombie) s)"

text \<open>Everything \<open>kexit\<close> does before it switches away for good.\<close>

definition kexit_prepare :: "u32 \<Rightarrow> 'a procst_scheme \<Rightarrow> (unit, 'a procst_scheme) res" where
  "kexit_prepare status s =
     kbind (myproc s) (\<lambda>p s.
       case p of
         None \<Rightarrow> Undef s
       | Some i \<Rightarrow>
         kbind (uvmfree (p_pt (proctable s i)) (p_sz (proctable s i)) s) (\<lambda>_ s.
         kbind (lock Wait_lock (set_proc i (\<lambda>p. p\<lparr>p_pt := 0\<rparr>) s)) (\<lambda>_ s.
           let reaper = find (\<lambda>q. p_pid (proctable s q) = 1 \<and> q \<noteq> i \<and> p_state (proctable s q) \<noteq> ZOMBIE) [0..<NPROC]
           in kbind (kloop (reparent_body i reaper) (0, False) s) (\<lambda>gave_zombie s.
              kbind (if gave_zombie then wakeup (map_option Proc_chan reaper) s else Ok () s) (\<lambda>_ s.
              kbind (if p_parent (proctable s i) \<noteq> None then wakeup (map_option Proc_chan (p_parent (proctable s i))) s else Ok () s) (\<lambda>_ s.
              kbind (lock (Proc_lock i) s) (\<lambda>_ s.
                unlock Wait_lock (set_proc i (\<lambda>p. p\<lparr>p_xstate := status, p_state := ZOMBIE\<rparr>) s))))))))"

definition kexit :: "('a procst_scheme \<Rightarrow> 'a procst_scheme) \<Rightarrow> u32 \<Rightarrow> 'a procst_scheme \<Rightarrow> (unit, 'a procst_scheme) res" where
  "kexit others status s =
     kbind (kexit_prepare status s) (\<lambda>_ s.
     kbind (sched others s) (\<lambda>_ s. panic ''kexit: zombie returned'' s))"

section \<open>Forking\<close>

lemma slot_step_other_mem:
  assumes st: "slot_step s t j" and s: "table_wf s" "i < NPROC" "j < NPROC" "i \<noteq> j"
    and x: "PGROUNDDOWN x \<in> owns (mem s) (proctable s i)"
  shows "mem t x = mem s x"
proof (rule kstepD(2) [OF slot_stepD(1) [OF st]])
  show "PGROUNDDOWN x \<notin> owns (mem s) (proctable s j) \<union> free_pages s"
    using x table_wfD(3) [OF s(1,2,3,4)] slot_wf_owns(2) [OF table_wfD(1) [OF s(1,2)] x] by auto
qed

lemma slot_step_user:
  assumes st: "slot_step s t j" and u: "user_step t u (p_pt (proctable t j))" "p_pt (proctable t j) \<noteq> 0"
    and as: "as_wf u (p_pt (proctable t j)) sz"
  shows "slot_step s (set_proc j (\<lambda>p. p\<lparr>p_sz := sz\<rparr>) u) j"
proof (rule slot_step_trans [OF st])
  let ?p = "proctable t j"
  note k = mem_step_kstep [OF user_stepD(1) [OF u(1)]]
  have wf: "slot_wf t ?p" using slot_stepD(3) [OF st] .
  have cons: "owned (mem u) (p_pt ?p) \<union> free_pages u = owned (mem t) (p_pt ?p) \<union> free_pages t"
    using user_stepD(5) [OF u(1)] .
  have hp: "heap_page u = heap_page t" using kstepD(7) [OF k(1)] .
  have "slot_wf u (?p\<lparr>p_sz := sz\<rparr>)"
    using wf as u(2) cons hp by (auto simp: slot_wf_def)
  moreover have "slot_wf (set_proc j f u) q = slot_wf u q" for f q by (rule slot_wf_cong) simp_all
  moreover have "kstep t (set_proc j (\<lambda>p. p\<lparr>p_sz := sz\<rparr>) u) (owns (mem t) ?p \<union> free_pages t)"
    by (rule kstep_set_proc, rule kstep_mono [OF k(1)]) (use u(2) in \<open>auto simp: owns_def\<close>)
  ultimately show "slot_step t (set_proc j (\<lambda>p. p\<lparr>p_sz := sz\<rparr>) u) j"
    using k(2) cons u(2) by (auto simp: slot_step_def owns_def)
qed

text \<open>The child's trapframe: the parent's, but for the kernel stack and \<^verbatim>\<open>a0\<close>.\<close>

definition child_frame :: "u32 \<Rightarrow> u32 \<Rightarrow> memory \<Rightarrow> memory" where
  "child_frame tf tf' m = store32 (tf + 60) 0 (store32 tf (load32 m tf) (copy_block tf tf' TF_size m))"

lemma fork_child_eq:
  assumes "i \<noteq> j"
  shows "fork_child i j s = (set_proc j (\<lambda>p. p\<lparr>p_sz := p_sz (proctable s i),
      p_name := (\<lambda>k. if k < 16 then p_name (proctable s i) k else p_name p k)\<rparr>) s)
    \<lparr>mem := child_frame (p_tf (proctable s j)) (p_tf (proctable s i)) (mem s)\<rparr>"
  using assms by (simp add: fork_child_def Let_def child_frame_def tf_get_def tf_set_def TF_k_sp_def TF_regs_def set_proc_def cong: if_cong)

lemma child_frame_facts:
  assumes al: "page_aligned tf"
  shows "PGROUNDDOWN x \<noteq> tf \<Longrightarrow> child_frame tf tf' m x = m x"
    and "load32 (child_frame tf tf' m) (tf + 60) = 0"
    and "k < 152 \<Longrightarrow> 4 \<le> k \<Longrightarrow> k < 60 \<or> 64 \<le> k \<Longrightarrow> child_frame tf tf' m (tf + of_nat k) = m (tf' + of_nat k)"
proof -
  have blk: "in_block (tf + of_nat off) n x \<Longrightarrow> off + n \<le> 4096 \<Longrightarrow> PGROUNDDOWN x = tf" for off n x
    using in_block_shift [of tf off n x 4096] in_page_iff [OF al, of x] by simp
  have b60: "in_block (tf + 60) 4 x \<Longrightarrow> PGROUNDDOWN x = tf" for x using blk [of 60 4 x] by simp
  have b0: "in_block tf n x \<Longrightarrow> n \<le> 4096 \<Longrightarrow> PGROUNDDOWN x = tf" for n x using blk [of 0 n x] by simp
  show "child_frame tf tf' m x = m x" if x: "PGROUNDDOWN x \<noteq> tf"
  proof -
    have "\<not> in_block (tf + 60) 4 x" "\<not> in_block tf 4 x" "\<not> in_block tf 152 x"
      using x b60 [of x] b0 [of 4 x] b0 [of 152 x] by auto
    then show ?thesis by (simp add: child_frame_def store32_other copy_block_def TF_size_def)
  qed
  show "load32 (child_frame tf tf' m) (tf + 60) = 0" by (simp add: child_frame_def load32_store32)
  assume k: "k < 152" "4 \<le> k" "k < 60 \<or> 64 \<le> k"
  have u: "unat (tf + of_nat k - tf) = k" using k(1) by (simp add: unat_of_nat)
  have "\<not> in_block (tf + 60) 4 (tf + of_nat k)"
  proof
    assume "in_block (tf + 60) 4 (tf + of_nat k)"
    then have lt: "unat (of_nat k - 60 :: u32) < 4" by (simp add: in_block_def)
    have "tf + of_nat k = tf + of_nat (60 + unat (of_nat k - 60 :: u32))" by simp
    then have "k = 60 + unat (of_nat k - 60 :: u32)"
      using word_addr_eq [of k "60 + unat (of_nat k - 60 :: u32)" tf] lt k(1) by simp
    then show False using lt k(3) by linarith
  qed
  moreover have "\<not> in_block tf 4 (tf + of_nat k)" "in_block tf 152 (tf + of_nat k)"
    using k u by (simp_all add: in_block_def)
  ultimately show "child_frame tf tf' m (tf + of_nat k) = m (tf' + of_nat k)"
    by (simp add: child_frame_def store32_other copy_block_def TF_size_def)
qed

text \<open>Why copying a process fails: it has no stack, or memory is short.\<close>

definition cannot_copy :: "'a procst_scheme \<Rightarrow> nat \<Rightarrow> bool" where
  "cannot_copy s i \<longleftrightarrow> walk (mem s) (p_pt (proctable s i)) stack_page = None
     \<or> card (free_pages s) \<le> card (frames (mem s) (p_pt (proctable s i))) + 2052"

lemma slot_pages:
  assumes "slot_wf s p" "p_pt p \<noteq> 0" "frames (mem s) (p_pt p) = {}"
  shows "card (owns (mem s) p) \<le> 1027"
proof -
  have "pt_tree (mem s) (p_pt p)" using assms(1,2) pt_wfD(1) by (simp add: slot_wf_def as_wf_def user_wf_def pt_wf_def)
  then have "card (owned (mem s) (p_pt p)) \<le> 1025"
    using card_tables [of "mem s" "p_pt p"] card_roots [of "mem s" "p_pt p"] assms(3) by (simp add: owned_def)
  moreover have "card (ptr_page (p_tf p)) \<le> 1" "card (ptr_page (p_kstack p)) \<le> 1" by (simp_all add: ptr_page_def)
  moreover have "owns (mem s) p = ptr_page (p_tf p) \<union> ptr_page (p_kstack p) \<union> owned (mem s) (p_pt p)"
    using assms(2) by (simp add: owns_def)
  ultimately show ?thesis
    using card_Un_le [of "ptr_page (p_tf p) \<union> ptr_page (p_kstack p)" "owned (mem s) (p_pt p)"]
      card_Un_le [of "ptr_page (p_tf p)" "ptr_page (p_kstack p)"] by (simp only:)
qed

text \<open>The copy of the parent's memory into the new slot, with the size as either way sets it.\<close>

lemma fork_copy:
  assumes st: "slot_step s t j" and s: "mem_ready s" "table_wf s" "i < NPROC" "j < NPROC" "i \<noteq> j"
    and p: "p_pt (proctable s i) \<noteq> 0" "p_state (proctable t j) = NEW" "p_pt (proctable t j) \<noteq> 0"
    and own: "owns (mem s) (proctable s j) = {}"
    and tr: "translate (mem t) (p_pt (proctable t j)) = user_kernel_map tramp" "tramp_ok tramp"
  obtains r u where
    "uvmcopy (p_pt (proctable t i)) (p_pt (proctable t j)) (p_sz (proctable t i)) t = Ok r u"
    "slot_step s (set_proc j (\<lambda>p. p\<lparr>p_sz := p_sz (proctable s i)\<rparr>) u) j" "proctable u = proctable t" "curr_pid u = curr_pid t"
    "r = 0 \<and> user_view (mem u) (p_pt (proctable t j)) = user_view (mem s) (p_pt (proctable s i))
     \<or> r = -1 \<and> cannot_copy s i"
proof -
  let ?P = "proctable s i" and ?C = "proctable t j"
  note tab = slot_step_table [OF st s(1,2,4)]
  have i: "proctable t i = ?P" using slot_stepD(5) [OF st s(5)] .
  have tw: "table_wf t" "user_view (mem t) (p_pt ?P) = user_view (mem s) (p_pt ?P)" "walk (mem t) (p_pt ?P) = walk (mem s) (p_pt ?P)"
    using tab(1,4,5) p(1,2) s(3,5) by simp_all
  have fr: "frames (mem t) (p_pt ?P) = frames (mem s) (p_pt ?P)" using user_frame_cong [OF tw(3)] by (simp add: frames_def)
  have wi: "as_wf t (p_pt ?P) (p_sz ?P)" using table_wfD(1) [OF tw(1) s(3)] p(1) by (simp add: i slot_wf_def)
  have wj: "slot_wf t ?C" using slot_stepD(3) [OF st] .
  have "pt_wf t (p_pt ?C)" using wj p(3) by (simp add: slot_wf_def as_wf_def user_wf_def)
  then have aj: "as_wf t (p_pt ?C) (p_sz ?P)" using as_wf_no_user [OF _ tr as_wfD(2,3) [OF wi]] by blast
  have dj: "owned (mem t) (p_pt ?C) \<inter> owned (mem t) (p_pt ?P) = {}"
    using table_wfD(3) [OF tw(1) s(4,3)] s(5) p(1,3) by (auto simp: i owns_def)
  have em: "frames (mem t) (p_pt ?C) = {}" using user_kernel_map_no_user(1) [OF tr(1)] by (simp add: frames_def)
  have "\<exists>r u. uvmcopy (p_pt ?P) (p_pt ?C) (p_sz ?P) t = Ok r u \<and> user_step t u (p_pt ?C) \<and> as_wf u (p_pt ?C) (p_sz ?P)
    \<and> (r = 0 \<and> user_view (mem u) (p_pt ?C) = user_view (mem t) (p_pt ?P)
       \<or> r = -1 \<and> (walk (mem t) (p_pt ?P) stack_page = None \<or> card (free_pages t) \<le> card (frames (mem t) (p_pt ?P)) + 1025))"
    using slot_stepD(2) [OF st] wi aj dj em by (cases rule: uvmcopy_spec) blast+
  then obtain r u where u: "uvmcopy (p_pt ?P) (p_pt ?C) (p_sz ?P) t = Ok r u" "user_step t u (p_pt ?C)"
    "as_wf u (p_pt ?C) (p_sz ?P)" "r = 0 \<and> user_view (mem u) (p_pt ?C) = user_view (mem t) (p_pt ?P)
       \<or> r = -1 \<and> (walk (mem t) (p_pt ?P) stack_page = None \<or> card (free_pages t) \<le> card (frames (mem t) (p_pt ?P)) + 1025)" by blast
  have "card (free_pages s) \<le> card (free_pages t) + 1027"
    using slot_stepD(4) [OF st] own slot_pages [OF wj p(3) em] card_Un_le [of "owns (mem t) ?C" "free_pages t"] by simp
  then have why: "r = 0 \<and> user_view (mem u) (p_pt ?C) = user_view (mem t) (p_pt ?P) \<or> r = -1 \<and> cannot_copy s i"
    using u(4) unfolding cannot_copy_def tw(3) fr by linarith
  note ku = mem_step_kstep [OF user_stepD(1) [OF u(2)]]
  show ?thesis
    using that [of r u] u(1) why slot_step_user [OF st u(2) p(3) u(3)] ku(2,3) i tw(2) by simp
qed

text \<open>The child as the parent finds it when \<open>fork\<close> returns its process id.\<close>

definition child_of :: "'a procst_scheme \<Rightarrow> 'a procst_scheme \<Rightarrow> nat \<Rightarrow> nat \<Rightarrow> bool" where
  "child_of s t i j \<longleftrightarrow> (let p = proctable s i; c = proctable t j in
     p_pid c = curr_pid s \<and> p_state c = READY \<and> p_parent c = Some i \<and> p_sz c = p_sz p \<and> p_pt c \<noteq> 0 \<and> p_tf c \<noteq> 0
     \<and> (\<forall>k<16. p_name c k = p_name p k)
     \<and> user_view (mem t) (p_pt c) = user_view (mem s) (p_pt p)
     \<and> load32 (mem t) (p_tf c + TF_regs 10) = 0
     \<and> (\<forall>k\<in>{4..<60} \<union> {64..<152}. mem t (p_tf c + of_nat k) = mem s (p_tf p + of_nat k)))"

lemma fork_fill:
  assumes st: "slot_step s (set_proc j (\<lambda>p. p\<lparr>p_sz := p_sz (proctable s i)\<rparr>) u) j"
    and s: "mem_ready s" "table_wf s" "i < NPROC" "j < NPROC" "i \<noteq> j"
    and p: "p_tf (proctable s i) \<noteq> 0" "p_pt (proctable u j) \<noteq> 0" "p_tf (proctable u j) \<noteq> 0"
    and v: "user_view (mem u) (p_pt (proctable u j)) = user_view (mem s) (p_pt (proctable s i))"
    and c: "p_pid (proctable u j) = curr_pid s"
  shows "slot_step s (fork_child i j u) j"
    "child_of s (set_proc j (\<lambda>p. p\<lparr>p_parent := Some i, p_state := READY\<rparr>) (fork_child i j u)) i j"
proof -
  let ?P = "proctable s i" and ?C = "proctable u j"
  let ?f = "\<lambda>p. p\<lparr>p_sz := p_sz ?P, p_name := (\<lambda>k. if k < 16 then p_name ?P k else p_name p k)\<rparr>"
  let ?m = "child_frame (p_tf ?C) (p_tf ?P) (mem u)"
  have i: "proctable u i = ?P" using slot_stepD(5) [OF st s(5)] s(5) by simp
  have eq: "fork_child i j u = (set_proc j ?f u)\<lparr>mem := ?m\<rparr>"
    unfolding fork_child_eq [OF s(5)] i ..
  have "slot_step s (set_proc j (\<lambda>p. p\<lparr>p_name := (\<lambda>k. if k < 16 then p_name ?P k else p_name p k)\<rparr>)
      (set_proc j (\<lambda>p. p\<lparr>p_sz := p_sz ?P\<rparr>) u)) j" by (rule slot_step_field [OF st]) simp_all
  then have st2: "slot_step s (set_proc j ?f u) j" by (simp add: set_proc_def cong: if_cong)
  have wf: "slot_wf (set_proc j ?f u) (?f ?C)" using slot_stepD(3) [OF st2] by simp
  then have "heap_page (set_proc j ?f u) (p_tf ?C)" using p(3) by (simp add: slot_wf_def)
  then have al: "page_aligned (p_tf ?C)" using heap_page_facts [OF _ slot_stepD(2) [OF st2]] by blast
  note cf = child_frame_facts [OF al, where tf' = "p_tf ?P" and m = "mem u"]
  show "slot_step s (fork_child i j u) j"
    unfolding eq using cf(1) p(3) by (intro slot_step_frame [OF st2]) simp
  have rd: "mem_ready u" "user_wf u (p_pt ?C)" "p_tf ?C \<notin> owned (mem u) (p_pt ?C)"
    using slot_stepD(2) [OF st2] wf p(2,3) as_wfD(1) [of u "p_pt ?C" "p_sz ?P"] as_wf_cong(1) [of "set_proc j ?f u" u]
    by (auto simp: slot_wf_def)
  have ms: "mem_step u (u\<lparr>mem := ?m\<rparr>) {p_tf ?C}" using cf(1) by (intro mem_step_write [OF rd(1)]) simp
  have "user_view ?m (p_pt ?C) = user_view (mem u) (p_pt ?C)"
    using mem_step_other(4) [OF ms rd(1,2)] rd(3) user_wf_free(2) [OF rd(2)] by (auto simp: free_pages_def)
  moreover have "?m (p_tf ?C + of_nat k) = mem s (p_tf ?P + of_nat k)" if "k \<in> {4..<60} \<union> {64..<152}" for k
  proof -
    have "?m (p_tf ?C + of_nat k) = mem u (p_tf ?P + of_nat k)" using that by (intro cf(3)) auto
    moreover have "PGROUNDDOWN (p_tf ?P + of_nat k) = p_tf ?P"
    proof -
      have "heap_page s (p_tf ?P)" using table_wfD(1) [OF s(2,3)] p(1) by (simp add: slot_wf_def)
      then have "page_aligned (p_tf ?P)" using heap_page_facts [OF _ s(1)] by blast
      then show ?thesis using in_page_iff in_block_offset [of k 4096 "p_tf ?P"] that by auto
    qed
    then have "mem (set_proc j (\<lambda>p. p\<lparr>p_sz := p_sz ?P\<rparr>) u) (p_tf ?P + of_nat k) = mem s (p_tf ?P + of_nat k)"
      using p(1) by (intro slot_step_other_mem [OF st s(2-5)]) (simp add: owns_def)
    ultimately show ?thesis by simp
  qed
  ultimately show "child_of s (set_proc j (\<lambda>p. p\<lparr>p_parent := Some i, p_state := READY\<rparr>) (fork_child i j u)) i j"
    unfolding eq child_of_def Let_def using v c p(2,3) cf(2) by (simp add: TF_regs_def)
qed

lemma noise_table:
  assumes "noise s t"
  shows "table_wf t = table_wf s" "all_pages t = all_pages s" "free_pages t = free_pages s"
proof -
  show f: "free_pages t = free_pages s" using assms by (simp add: noise_ready)
  have "slot_wf t p = slot_wf s p" for p
    using assms by (intro slot_wf_cong) (simp_all add: noise_fields noise_ready)
  then show "table_wf t = table_wf s" "all_pages t = all_pages s"
    using assms f by (simp_all add: table_wf_def all_pages_def noise_procst noise_fields)
qed

lemma lk_free_enter: "l \<noteq> lk \<Longrightarrow> lk_free l (enter lk s) = lk_free l s"
  by (simp add: lk_free_def enter_eq)

text \<open>The child becomes visible to the scheduler and to its parent under both locks.\<close>

lemma fork_publish:
  assumes st: "slot_step s t j" and s: "procs_free s" "lk_free Wait_lock s" "j < NPROC"
  obtains u where "kbind (lock Wait_lock t) (\<lambda>_ s. kbind (lock (Proc_lock j) s) (\<lambda>_ s.
      kbind (unlock (Proc_lock j) (set_proc j (\<lambda>p. p\<lparr>p_parent := Some i, p_state := READY\<rparr>) s)) (\<lambda>_ s.
      kbind (unlock Wait_lock s) (\<lambda>_ s. Ok r s)))) = Ok r u"
    "slot_step s u j" "proctable u = proctable (set_proc j (\<lambda>p. p\<lparr>p_parent := Some i, p_state := READY\<rparr>) t)" "mem u = mem t"
    "free_pages u = free_pages t" "curr_pid u = curr_pid t"
proof -
  let ?e = "enter Wait_lock t" and ?f = "\<lambda>p. p\<lparr>p_parent := Some i, p_state := READY\<rparr>"
  let ?d = "enter (Proc_lock j) ?e"
  have rt: "mem_ready t" using slot_stepD(2) [OF st] .
  have fl: "lk_free Wait_lock t" "lk_free (Proc_lock j) ?e"
    using s slot_stepD(7) [OF st] by (simp_all add: lk_free_enter) (simp_all add: lk_free_def procs_free_def)
  have re: "mem_ready ?e" using enter_ready(1) [OF rt] by simp
  have rd: "mem_ready ?d" using enter_ready(1) [OF re] by simp
  have "slot_wf ?d (proctable ?d j)" using slot_step_enter [OF re] slot_step_enter [OF rt] slot_stepD(3) [OF st] by simp
  then have "slot_step ?d (set_proc j ?f ?d) j" by (intro slot_step_field [OF slot_step_refl [OF rd]]) simp_all
  then obtain v where v: "unlock (Proc_lock j) (set_proc j ?f ?d) = Ok () v" "slot_step ?e v j" "proctable v = proctable (set_proc j ?f ?d)"
    "mem v = mem (set_proc j ?f ?d)" "free_pages v = free_pages (set_proc j ?f ?d)" "curr_pid v = curr_pid (set_proc j ?f ?d)"
    using slot_step_unlock [OF fl(2) re] by (metis lockid.distinct(9,17))
  obtain u where u: "unlock Wait_lock v = Ok () u" "slot_step t u j" "proctable u = proctable v" "mem u = mem v"
    "free_pages u = free_pages v" "curr_pid u = curr_pid v"
    using slot_step_unlock [OF fl(1) rt _ _ v(2)] by auto
  show ?thesis
    using that [of u] u v(1,3-6) lock_free [OF fl(1)] lock_free [OF fl(2)] slot_step_trans [OF st u(2)]
      enter_ready(2) [OF re, of "Proc_lock j"] enter_ready(2) [OF rt, of Wait_lock] by simp
qed

lemma fork_undo_fail: "fork_undo j sz s = kbind (procalloc_fail j (set_proc j (\<lambda>p. p\<lparr>p_sz := sz\<rparr>) s)) (\<lambda>_ s. Ok (-1) s)"
  by (simp add: fork_undo_def procalloc_fail_def Let_def kbind_assoc)

lemma fork_rest_spec:
  assumes st: "slot_step s t j"
    and s: "mem_ready s" "table_wf s" "i < NPROC" "j < NPROC" "i \<noteq> j" "procs_free s" "lk_free Wait_lock s" "tramp_ok tramp"
    and p: "p_pt (proctable s i) \<noteq> 0" "p_tf (proctable s i) \<noteq> 0" "idle_slot (proctable s j)"
    and f: "filled tramp fret (mem t) ((proctable s j)\<lparr>p_state := NEW\<rparr>) (proctable t j) (curr_pid s)"
  obtains (refused) u q where "fork_rest i j t = Ok (-1) u" "slot_step s u j" "proctable u j = clear_slot q"
      "free_pages u = free_pages s" "cannot_copy s i"
  | (forked) u where "fork_rest i j t = Ok (curr_pid s) u" "slot_step s u j" "child_of s u i j" "curr_pid u = curr_pid t"
proof -
  have own: "owns (mem s) (proctable s j) = {}" using p(3) by (simp add: idle_slot_def owns_def)
  have pj: "p_state (proctable t j) = NEW" "p_pt (proctable t j) \<noteq> 0" using filledD(1,8) [OF f] by simp_all
  have i: "proctable t i = proctable s i" using slot_stepD(5) [OF st s(5)] .
  obtain r u where u: "uvmcopy (p_pt (proctable t i)) (p_pt (proctable t j)) (p_sz (proctable t i)) t = Ok r u"
    "slot_step s (set_proc j (\<lambda>p. p\<lparr>p_sz := p_sz (proctable s i)\<rparr>) u) j" "proctable u = proctable t" "curr_pid u = curr_pid t"
    "r = 0 \<and> user_view (mem u) (p_pt (proctable t j)) = user_view (mem s) (p_pt (proctable s i)) \<or> r = -1 \<and> cannot_copy s i"
    using fork_copy [OF st s(1-5) p(1) pj own filledD(9) [OF f] s(8)] .
  from u(5) show ?thesis
  proof (elim disjE conjE)
    assume r: "r = -1" and why: "cannot_copy s i"
    obtain v where v: "procalloc_fail j (set_proc j (\<lambda>p. p\<lparr>p_sz := p_sz (proctable s i)\<rparr>) u) = Ok None v" "slot_step s v j"
      "proctable v j = clear_slot (proctable (set_proc j (\<lambda>p. p\<lparr>p_sz := p_sz (proctable s i)\<rparr>) u) j)" "free_pages v = free_pages s"
      using procalloc_give_up [OF u(2) s(6,4) own] by blast
    have "fork_rest i j t = Ok (-1) v" using u(1,3) v(1) r i by (simp add: fork_rest_def fork_undo_fail)
    then show ?thesis using refused v(2-4) why by blast
  next
    assume r: "r = 0" and view: "user_view (mem u) (p_pt (proctable t j)) = user_view (mem s) (p_pt (proctable s i))"
    have c: "p_pid (proctable u j) = curr_pid s" "p_tf (proctable u j) \<noteq> 0" "p_pt (proctable u j) \<noteq> 0"
      using filledD(2,6,8) [OF f] u(3) by simp_all
    have pid: "p_pid (proctable (fork_child i j u) j) = curr_pid s" using c(1) by (simp add: fork_child_eq [OF s(5)])
    note ch = fork_fill [OF u(2) s(1-5) p(2) c(3,2) _ c(1)]
    have st2: "slot_step s (fork_child i j u) j"
      and chof: "child_of s (set_proc j (\<lambda>p. p\<lparr>p_parent := Some i, p_state := READY\<rparr>) (fork_child i j u)) i j"
      using ch view u(3) by simp_all
    from fork_publish [OF st2 s(6,7,4), where i = i and r = "curr_pid s"]
    obtain v where v: "kbind (lock Wait_lock (fork_child i j u)) (\<lambda>_ t. kbind (lock (Proc_lock j) t) (\<lambda>_ t.
      kbind (unlock (Proc_lock j) (set_proc j (\<lambda>p. p\<lparr>p_parent := Some i, p_state := READY\<rparr>) t)) (\<lambda>_ t.
      kbind (unlock Wait_lock t) (\<lambda>_ t. Ok (curr_pid s) t)))) = Ok (curr_pid s) v"
      "slot_step s v j" "proctable v = proctable (set_proc j (\<lambda>p. p\<lparr>p_parent := Some i, p_state := READY\<rparr>) (fork_child i j u))"
      "mem v = mem (fork_child i j u)" "curr_pid v = curr_pid (fork_child i j u)" by blast
    have "fork_rest i j t = Ok (curr_pid s) v" using u(1) r pid v(1) by (simp add: fork_rest_def Let_def)
    moreover have "child_of s v i j" using chof v(3,4) by (simp add: child_of_def Let_def)
    moreover have "curr_pid v = curr_pid t" using v(5) u(4) by (simp add: fork_child_eq [OF s(5)])
    ultimately show ?thesis using forked v(2) by blast
  qed
qed

text \<open>A process that runs in the kernel: the table is in order, its slot complete, and no lock is held.\<close>

definition in_process :: "'a procst_scheme \<Rightarrow> nat \<Rightarrow> bool" where
  "in_process s i \<longleftrightarrow> mem_ready s \<and> table_wf s \<and> procs_free s \<and> lk_free Pid_lock s \<and> lk_free Wait_lock s
     \<and> c_proc (cpus s (this_cpu s)) = Some i \<and> i < NPROC
     \<and> p_state (proctable s i) = RUNNING \<and> p_pt (proctable s i) \<noteq> 0 \<and> p_tf (proctable s i) \<noteq> 0"

lemma in_processD:
  assumes "in_process s i"
  shows "mem_ready s" "table_wf s" "procs_free s" "lk_free Pid_lock s" "lk_free Wait_lock s"
    "c_proc (cpus s (this_cpu s)) = Some i" "i < NPROC" "p_state (proctable s i) = RUNNING"
    "p_pt (proctable s i) \<noteq> 0" "p_tf (proctable s i) \<noteq> 0"
  using assms by (simp_all add: in_process_def)

lemma in_process_noise:
  assumes "noise s t" "in_process s i"
  shows "in_process t i"
proof -
  have "c_proc (cpus t (this_cpu t)) = c_proc (cpus s (this_cpu s))"
    using assms(1) by (auto simp: noise_def hart_defs)
  then show ?thesis
    using assms by (simp add: in_process_def noise_table noise_ready noise_procst noise_lk_free procs_free_def)
qed

text \<open>The caller keeps its slot and its memory, and no page is lost.\<close>

definition caller_kept :: "'a procst_scheme \<Rightarrow> 'a procst_scheme \<Rightarrow> nat \<Rightarrow> bool" where
  "caller_kept s t i \<longleftrightarrow> table_wf t \<and> all_pages t = all_pages s \<and> proctable t i = proctable s i
     \<and> user_view (mem t) (p_pt (proctable s i)) = user_view (mem s) (p_pt (proctable s i))"

text \<open>No page and no slot has been taken.\<close>

definition nothing_taken :: "'a procst_scheme \<Rightarrow> 'a procst_scheme \<Rightarrow> bool" where
  "nothing_taken s t \<longleftrightarrow> free_pages t = free_pages s
     \<and> (\<forall>k<NPROC. if p_state (proctable s k) = UNUSED then p_state (proctable t k) = UNUSED else proctable t k = proctable s k)"

lemma fork_frame:
  assumes st: "slot_step s t j" and s: "in_process s i" "j < NPROC" "p_state (proctable s j) = UNUSED"
    and p: "p_state (proctable t j) = UNUSED \<longrightarrow> idle_slot (proctable t j)"
  shows "caller_kept s t i" "proctable t = (proctable s)(j := proctable t j)" "i \<noteq> j"
proof -
  note d = in_processD [OF s(1)]
  show ij: "i \<noteq> j" using s(3) d(8) by auto
  show "caller_kept s t i" "proctable t = (proctable s)(j := proctable t j)"
    using slot_step_table(1,2,4) [OF st d(1,2) s(2) p] d(7,9) ij slot_stepD(5) [OF st]
    by (auto simp: caller_kept_def fun_eq_iff)
qed

lemma fork_nothing:
  assumes st: "slot_step s t j" and s: "in_process s i" "j < NPROC" "p_state (proctable s j) = UNUSED"
    and p: "proctable t j = clear_slot q" "free_pages t = free_pages s"
  shows "caller_kept s t i" "nothing_taken s t"
proof -
  show "caller_kept s t i" using fork_frame(1) [OF st s] p(1) by simp
  have "if p_state (proctable s k) = UNUSED then p_state (proctable t k) = UNUSED else proctable t k = proctable s k" for k
    using s(3) p(1) slot_stepD(5) [OF st, of k] by (cases "k = j") simp_all
  then show "nothing_taken s t" using p(2) by (simp add: nothing_taken_def)
qed

text \<open>Noise before or after changes none of this.\<close>

lemma noise_caller:
  assumes "noise s s'"
  shows "caller_kept s' t i = caller_kept s t i" "nothing_taken s' t = nothing_taken s t" "cannot_copy s' i = cannot_copy s i"
    "child_of s' t i j = child_of s t i j" "caller_kept t s' i = caller_kept t s i" "nothing_taken t s' = nothing_taken t s"
  using noise_table [OF assms] noise_procst [OF assms] noise_fields [OF assms]
  by (simp_all add: caller_kept_def nothing_taken_def cannot_copy_def child_of_def)

lemma fork_no_slot:
  assumes s: "in_process s i" and t: "procalloc tramp fret s = Ok None t" "kctx t"
    "caller_kept s t i" "nothing_taken s t"
  obtains u where "kbind (procalloc tramp fret s) (\<lambda>np s. case np of
         None \<Rightarrow> kbind (error ''sys_fork: procalloc fail'' s) (\<lambda>_ s. Ok (-1) s) | Some j \<Rightarrow> k j s) = Ok (-1) u"
    "caller_kept s u i" "nothing_taken s u"
proof -
  obtain u where "error ''sys_fork: procalloc fail'' t = Ok () u" "noise t u"
    using error_noise [of "''sys_fork: procalloc fail''" t] t(2) by auto
  then show ?thesis using that [of u] t noise_caller(5,6) [of t u] by simp
qed

lemma fork_spec:
  assumes s: "in_process s i" "curr_pid s < 0x7FFFFFFF" "tramp_ok tramp"
  obtains (refused) t where "fork tramp fret s = Ok (-1) t" "caller_kept s t i" "nothing_taken s t"
      "(\<forall>k<NPROC. p_state (proctable s k) \<noteq> UNUSED) \<or> cannot_copy s i"
  | (forked) j t where "fork tramp fret s = Ok (curr_pid s) t" "caller_kept s t i" "j < NPROC" "p_state (proctable s j) = UNUSED"
      "child_of s t i j" "proctable t = (proctable s)(j := proctable t j)"
proof -
  obtain s0 where s0: "myproc s = Ok (Some i) s0" "noise s s0"
    using myproc_spec [OF in_processD(1) [OF s(1)]] in_processD(6) [OF s(1)] by auto
  have ip: "in_process s0 i" using in_process_noise [OF s0(2) s(1)] .
  note d = in_processD [OF ip] and eqs = noise_procst [OF s0(2)] noise_caller [OF s0(2)]
  have cp: "curr_pid s0 < 0x7FFFFFFF" using s(2) eqs by simp
  have fk: "fork tramp fret s = kbind (procalloc tramp fret s0) (\<lambda>np s. case np of
      None \<Rightarrow> kbind (error ''sys_fork: procalloc fail'' s) (\<lambda>_ s. Ok (-1) s) | Some j \<Rightarrow> fork_rest i j s)"
    by (simp add: fork_def s0(1) cong: option.case_cong)
  show ?thesis
    using d(1,3,4) cp s(3) d(2)
  proof (cases rule: procalloc_spec [where fret = fret])
    case (full t)
    have "kctx t" "caller_kept s0 t i" "nothing_taken s0 t"
      using full(2,3) kstepD(1) [of s0 t "{}"] same_memory_table [OF full(2,3)] d(2)
      by (simp_all add: same_memory_def mem_ready_def caller_kept_def nothing_taken_def)
    then obtain u where "fork tramp fret s = Ok (-1) u" "caller_kept s0 u i" "nothing_taken s0 u"
      using fork_no_slot [OF ip full(1), of "fork_rest i"] unfolding fk by blast
    then show ?thesis using refused full(4) eqs by simp
  next
    case (failed j t p)
    have "kctx t" using slot_stepD(2) [OF failed(2)] by (simp add: mem_ready_def)
    then obtain u where "fork tramp fret s = Ok (-1) u" "caller_kept s0 u i" "nothing_taken s0 u"
      using fork_no_slot [OF ip failed(1) _ fork_nothing [OF failed(2) ip failed(3-6)], of "fork_rest i"] unfolding fk by blast
    moreover have "cannot_copy s0 i" using failed(7) by (simp add: cannot_copy_def)
    ultimately show ?thesis using refused eqs by simp
  next
    case (found j t)
    have ij: "i \<noteq> j" using found(4) d(8) by auto
    have run: "fork tramp fret s = fork_rest i j t" using found(1) by (simp add: fk)
    show ?thesis
      using found(2) d(1,2,7) found(3) ij d(3,5) s(3) d(9,10) table_wfD(2) [OF d(2) found(3,4)] found(5)
    proof (cases rule: fork_rest_spec)
      case r: (refused u q)
      then show ?thesis using refused [of u] run eqs fork_nothing [OF r(2) ip found(3,4) r(3,4)] by simp
    next
      case f: (forked u)
      have "p_state (proctable u j) = READY" using f(3) by (simp add: child_of_def Let_def)
      then show ?thesis using forked [of u j] run eqs f(1,3) found(3,4) fork_frame(1,2) [OF f(2) ip found(3,4)] by simp
    qed
  qed
qed

text \<open>
  C33 (functional). \<open>fork\<close> of a running process returns the next process id and leaves a new
  process that is ready to run: its parent is the caller, it sees at every user address the
  byte and the rights the caller sees, its trapframe is the caller's with 0 in the return
  register, and its pages are its own. Or it returns -1, because no slot is free or the caller
  cannot be copied, and every free page and every slot in use is as before. Either way the
  caller's memory and slot are untouched and no page is lost.
\<close>

theorem fork_makes_child:
  assumes "in_process s i" "curr_pid s < 0x7FFFFFFF" "tramp_ok tramp"
  shows "\<exists>r t. fork tramp fret s = Ok r t \<and> table_wf t \<and> all_pages t = all_pages s
    \<and> proctable t i = proctable s i
    \<and> user_view (mem t) (p_pt (proctable s i)) = user_view (mem s) (p_pt (proctable s i))
    \<and> (r = -1 \<and> nothing_taken s t \<and> ((\<forall>k<NPROC. p_state (proctable s k) \<noteq> UNUSED) \<or> cannot_copy s i)
       \<or> r = curr_pid s \<and> (\<exists>j<NPROC. p_state (proctable s j) = UNUSED \<and> child_of s t i j
           \<and> proctable t = (proctable s)(j := proctable t j)))"
  using assms
proof (cases rule: fork_spec [where fret = fret])
  case (refused t)
  then show ?thesis unfolding caller_kept_def by (intro exI [of _ "-1"] exI [of _ t]) simp
next
  case (forked j t)
  then have c: "table_wf t" "all_pages t = all_pages s" "proctable t i = proctable s i"
    "user_view (mem t) (p_pt (proctable s i)) = user_view (mem s) (p_pt (proctable s i))" unfolding caller_kept_def by blast+
  show ?thesis
    by (rule exI [of _ "curr_pid s"], rule exI [of _ t], intro conjI disjI2 exI [of _ j])
      (use forked c in \<open>simp_all only:\<close>)
qed

text \<open>A process with a stack, running on this CPU.\<close>

lemma run_on_cpu:
  fixes s :: "'a procst_scheme" and i
  defines "t \<equiv> set_cpu (this_cpu s) (\<lambda>c. c\<lparr>c_proc := Some i\<rparr>) s"
  assumes s: "mem_ready s" "table_wf s" "procs_free s" "lk_free Pid_lock s" "lk_free Wait_lock s" "i < NPROC"
    "p_state (proctable s i) = RUNNING" "p_pt (proctable s i) \<noteq> 0" "p_tf (proctable s i) \<noteq> 0"
  shows "in_process t i" "mem t = mem s" "proctable t = proctable s" "free_pages t = free_pages s" "curr_pid t = curr_pid s"
proof -
  have f: "mem t = mem s" "proctable t = proctable s" "curr_pid t = curr_pid s" "locks t = locks s" "this_cpu t = this_cpu s"
    by (simp_all add: t_def set_cpu_def hart_defs)
  then show "mem t = mem s" "proctable t = proctable s" "curr_pid t = curr_pid s" by simp_all
  show fp: "free_pages t = free_pages s" by (simp add: free_pages_def t_def set_cpu_def)
  have hp: "heap_page t = heap_page s" by (simp add: heap_page_def t_def set_cpu_def fun_eq_iff)
  have "mem_ready t"
    using s(1) by (simp add: mem_ready_def alloc_wf_def kctx_def uart_live_def intr_ok_def is_interrupt_def lk_free_def hart_defs t_def set_cpu_def)
  moreover have "table_wf t"
    using s(2) f slot_wf_cong [OF f(1) fp hp] by (simp add: table_wf_def)
  moreover have "c_proc (cpus t (this_cpu t)) = Some i" unfolding f(5) by (simp add: t_def set_cpu_def)
  ultimately show "in_process t i"
    using s(3-) f by (simp add: in_process_def procs_free_def lk_free_def)
qed

lemma noise_depth: "noise s t \<Longrightarrow> c_depth (cpus t c) = c_depth (cpus s c)"
  by (auto simp: noise_def)

lemma kstep_depth: "kstep s t A \<Longrightarrow> c_depth (cpus t (this_cpu t)) = c_depth (cpus s (this_cpu s))"
  using noise_depth [of "with_data s t" t "this_cpu s"] kstepD(6) [of s t A] by (simp add: kstep_def)

lemma small_process:
  obtains s :: procst and i where "in_process s i" "curr_pid s = 2" "walk (mem s) (p_pt (proctable s i)) stack_page \<noteq> None"
    "card (frames (mem s) (p_pt (proctable s i))) = 1" "30000 < card (free_pages s)" "\<exists>k<NPROC. p_state (proctable s k) = UNUSED"
    "c_depth (cpus s (this_cpu s)) = 0" "\<forall>lk. lk_free lk s"
proof -
  have ok: "tramp_ok 0x80008000" by (simp add: tramp_ok_def page_aligned_def KERNBASE_def MEM_END_def PAGE_SIZE_def)
  have sz: "page_aligned 0x1000" "0x1000 \<le> UART_0" by (simp_all add: page_aligned_def UART_0_def)
  note b = boot_procs_ready
  have cp: "curr_pid boot_procs < 0x7FFFFFFF" by (simp add: b(5))
  obtain j t where t: "slot_step boot_procs t j" "j < NPROC" "curr_pid t = 2"
    "filled 0x80008000 0 (mem t) ((proctable boot_procs j)\<lparr>p_state := NEW\<rparr>) (proctable t j) 1"
    using b(1,2,3) cp ok b(4)
    by (cases rule: procalloc_spec [where fret = 0]) (auto simp: b large_mem_free NPROC_def intro: zero_less_numeral)
  let ?pt = "p_pt (proctable t j)"
  note q = filledD [OF t(4)]
  have rt: "mem_ready t" and wt: "slot_wf t (proctable t j)" using slot_stepD(2,3) [OF t(1)] by blast+
  have em: "frames (mem t) ?pt = {}" using user_kernel_map_no_user(1) [OF q(9)] by (simp add: frames_def)
  have "pt_wf t ?pt" using wt q(8) by (simp add: slot_wf_def as_wf_def user_wf_def)
  then have as1: "as_wf t ?pt 0x1000" using as_wf_no_user [OF _ q(9) ok sz] by blast
  have "owns (mem boot_procs) (proctable boot_procs j) = {}" using table_wfD(2) [OF b(4) t(2) b(7)] by (simp add: idle_slot_def owns_def)
  then have "card (free_pages boot_procs) \<le> card (free_pages t) + 1027"
    using slot_stepD(4) [OF t(1)] slot_pages [OF wt q(8) em] card_Un_le [of "owns (mem t) (proctable t j)" "free_pages t"] by simp
  then have c1: "31700 < card (free_pages t)" by (simp add: b(6) large_mem_free)
  obtain v where v: "user_step t v ?pt" "as_wf v ?pt 0x1000" "card (frames (mem v) ?pt) = 1"
    "user_frame (mem v) ?pt 0 stack_page \<noteq> None" "card (free_pages t) \<le> card (free_pages v) + 1026"
    using stack_added [OF rt as1 q(9) ok] c1 by auto
  have wk: "walk (mem v) ?pt stack_page \<noteq> None" using v(4) by (auto simp: user_frame_def split: option.splits)
  let ?v = "set_proc j (\<lambda>p. p\<lparr>p_state := RUNNING\<rparr>) (set_proc j (\<lambda>p. p\<lparr>p_sz := 0x1000\<rparr>) v)"
  let ?s = "set_cpu (this_cpu ?v) (\<lambda>c. c\<lparr>c_proc := Some j\<rparr>) ?v"
  have pv: "proctable v = proctable t" "curr_pid v = 2" using mem_step_kstep(2,3) [OF user_stepD(1) [OF v(1)]] t(3) by simp_all
  have sv: "slot_step boot_procs ?v j" by (rule slot_step_field [OF slot_step_user [OF t(1) v(1) q(8) v(2)]]) simp_all
  have "table_wf ?v" using slot_step_table(1) [OF sv b(1,4) t(2)] by simp
  moreover have lf: "lk_free lk ?v" for lk using b(3) slot_stepD(7) [OF sv] by (simp add: lk_free_def)
  ultimately have run: "in_process ?s j" "free_pages ?s = free_pages v" "mem ?s = mem v" "proctable ?s = proctable ?v" "curr_pid ?s = 2"
    using run_on_cpu [of ?v j] slot_stepD(2) [OF sv] t(2) pv q(6,8) by (simp_all add: procs_free_def)
  have "\<exists>k<NPROC. k \<noteq> j" by (cases "j = 0") (auto simp: NPROC_def intro: exI [of _ 1] exI [of _ 0])
  then obtain k where k: "k < NPROC" "k \<noteq> j" by blast
  have "p_state (proctable ?s k) = UNUSED" using slot_stepD(5) [OF sv k(2)] b(7) by (simp only: run(4))
  moreover have "p_pt (proctable ?s j) = ?pt" using pv by (simp only: run(4)) simp
  moreover have "30000 < card (free_pages v)" using c1 v(5) by simp
  moreover have "c_depth (cpus ?v (this_cpu ?v)) = 0" using kstep_depth [OF slot_stepD(1) [OF sv]] b(8) by simp
  then have "c_depth (cpus ?s (this_cpu ?s)) = 0" by simp
  moreover have "lk_free lk ?s" for lk using lf by (simp add: lk_free_def)
  ultimately show ?thesis
    using that [of ?s j] run v(3) wk k(1) by auto
qed

theorem fork_makes_child_witness:
  "\<exists>(s :: procst) i j t. in_process s i \<and> fork 0x80008000 0 s = Ok 2 t \<and> child_of s t i j \<and> table_wf t"
proof -
  obtain s :: procst and i where s: "in_process s i" "curr_pid s = 2" "walk (mem s) (p_pt (proctable s i)) stack_page \<noteq> None"
    "card (frames (mem s) (p_pt (proctable s i))) = 1" "30000 < card (free_pages s)" "\<exists>k<NPROC. p_state (proctable s k) = UNUSED"
    by (rule small_process)
  have "tramp_ok 0x80008000" by (simp add: tramp_ok_def page_aligned_def KERNBASE_def MEM_END_def PAGE_SIZE_def)
  moreover have "\<not> cannot_copy s i" using s(3-5) by (simp add: cannot_copy_def)
  ultimately obtain r t where "fork 0x80008000 0 s = Ok r t" "table_wf t" "r = 2" "\<exists>j<NPROC. child_of s t i j"
    using fork_makes_child [OF s(1), of "0x80008000" 0] s(2,6) by fastforce
  then show ?thesis using s(1) by blast
qed

section \<open>Waking up\<close>

text \<open>What \<open>wakeup\<close> does to one slot.\<close>

definition woken :: "chan option \<Rightarrow> proc \<Rightarrow> proc" where
  "woken ch p = (if p_chan p = ch \<and> p_state p = WAITING then p\<lparr>p_state := READY\<rparr> else p)"

lemma woken_keeps [simp]:
  "p_tf (woken ch p) = p_tf p" "p_kstack (woken ch p) = p_kstack p" "p_pt (woken ch p) = p_pt p" "p_sz (woken ch p) = p_sz p"
  "p_state (woken ch p) = UNUSED \<longleftrightarrow> p_state p = UNUSED" "owns m (woken ch p) = owns m p" "slot_wf s (woken ch p) = slot_wf s p"
  "idle_slot (woken ch p) = idle_slot p"
  by (simp_all add: woken_def owns_def slot_wf_def idle_slot_def)

lemma same_memory_refl: "mem_ready s \<Longrightarrow> same_memory s s"
  by (simp add: same_memory_def kstep_refl)

lemma wakeup_step:
  assumes s: "mem_ready s" "procs_free s" "q < NPROC"
  obtains t where "wakeup_body ch q s = Ok (Inl (Suc q)) t" "same_memory s t" "curr_pid t = curr_pid s"
    "proctable t = (proctable s)(q := woken ch (proctable s q))"
proof -
  let ?e = "enter (Proc_lock q) s"
  let ?b = "p_chan (proctable s q) = ch \<and> p_state (proctable s q) = WAITING"
  let ?w = "if ?b then set_proc q (\<lambda>p. p\<lparr>p_state := READY\<rparr>) ?e else ?e"
  have fl: "lk_free (Proc_lock q) s" using s(2,3) by (simp add: procs_free_def)
  have re: "mem_ready ?e" using enter_ready(1) [OF s(1)] by simp
  have "same_memory ?e ?w" using same_memory_set_proc [OF re] same_memory_refl [OF re] by simp
  then obtain t where t: "unlock (Proc_lock q) ?w = Ok () t" "same_memory s t" "proctable t = proctable ?w" "curr_pid t = curr_pid ?w"
    using same_memory_section [OF fl s(1)] by (metis lockid.distinct(9,17))
  have "wakeup_body ch q s = Ok (Inl (Suc q)) t"
    using s(3) lock_free [OF fl] t(1) by (simp add: wakeup_body_def Let_def)
  moreover have "proctable t = (proctable s)(q := woken ch (proctable s q))" using t(3) by (simp add: woken_def)
  ultimately show ?thesis using that t(2,4) by simp
qed

lemma wakeup_spec:
  assumes s: "mem_ready s" "procs_free s"
  obtains t where "wakeup ch s = Ok () t" "same_memory s t" "curr_pid t = curr_pid s"
    "proctable t = (\<lambda>q. if q < NPROC then woken ch (proctable s q) else proctable s q)"
proof -
  let ?I = "\<lambda>n q t. n = NPROC - q \<and> q \<le> NPROC \<and> same_memory s t \<and> curr_pid t = curr_pid s
    \<and> proctable t = (\<lambda>k. if k < q then woken ch (proctable s k) else proctable s k)"
  let ?Q = "\<lambda>(_ :: unit) t. same_memory s t \<and> curr_pid t = curr_pid s
    \<and> proctable t = (\<lambda>k. if k < NPROC then woken ch (proctable s k) else proctable s k)"
  have "?I NPROC 0 s" using same_memory_refl [OF s(1)] by simp
  then have "\<exists>r t. kloop (wakeup_body ch) 0 s = Ok r t \<and> ?Q r t"
  proof (rule kloop_count [where I = ?I])
    fix n q t
    assume I: "?I (Suc n) q t"
    then have q: "q < NPROC" and sm: "same_memory s t" by auto
    have k: "kstep s t {}" using sm by (simp add: same_memory_def)
    obtain u where u: "wakeup_body ch q t = Ok (Inl (Suc q)) u" "same_memory t u" "curr_pid u = curr_pid t"
      "proctable u = (proctable t)(q := woken ch (proctable t q))"
      using wakeup_step [OF kstepD(1) [OF k] procs_free_kstep [OF k s(2)] q] .
    have "?I n (Suc q) u"
      using I u(3,4) same_memory_trans [OF sm u(2)] by (auto simp: fun_eq_iff less_Suc_eq)
    then show "(\<exists>j u. wakeup_body ch q t = Ok (Inl j) u \<and> ?I n j u) \<or> (\<exists>r u. wakeup_body ch q t = Ok (Inr r) u \<and> ?Q r u)"
      using u(1) by blast
  next
    fix q t
    assume I: "?I 0 q t"
    then have "q = NPROC" by simp
    then show "\<exists>r u. wakeup_body ch q t = Ok (Inr r) u \<and> ?Q r u"
      using I by (intro exI [of _ "()"] exI [of _ t]) (simp add: wakeup_body_def)
  qed
  then obtain r t where "kloop (wakeup_body ch) 0 s = Ok r t" "?Q r t" by blast
  then show ?thesis using that [of t] by (simp add: wakeup_def)
qed

lemma woken_table:
  assumes "same_memory s t" "proctable t = (\<lambda>q. if q < NPROC then woken ch (proctable s q) else proctable s q)"
  shows "table_wf t = table_wf s" "all_pages t = all_pages s"
proof -
  have m: "mem t = mem s" "free_pages t = free_pages s" and k: "kstep s t {}" using assms(1) by (simp_all add: same_memory_def)
  have "slot_wf t p = slot_wf s p" for p by (rule slot_wf_cong [OF m kstepD(7) [OF k]])
  then show "table_wf t = table_wf s" "all_pages t = all_pages s"
    using m assms(2) by (simp_all add: table_wf_def all_pages_def)
qed

section \<open>Going to sleep\<close>

text \<open>Releasing the outer of two locks first.\<close>

lemma unlock_outer:
  assumes "lk_free lk s" "intr_ok s" "lk \<noteq> l"
  shows "unlock lk (enter l (enter lk s)) = Ok () (enter l s)"
proof -
  let ?e = "enter l (enter lk s)" and ?c = "this_cpu s"
  have d: "0 \<le> c_depth (cpus s ?c)" using assms(2) by (simp add: intr_ok_def)
  have tc: "this_cpu (enter k r) = this_cpu r" for k and r :: "'a lockst_scheme" by (simp add: enter_eq hart_defs)
  have free: "(locks s lk)\<lparr>lk_cpu := None, lk_lock := 0\<rparr> = locks s lk" using assms(1) by (simp add: lk_free_def)
  have cpu: "cpus ?e ?c = (cpus (touch s) ?c)\<lparr>c_depth := c_depth (cpus s ?c) + 2\<rparr>"
    using d tc by (simp add: enter_eq touch_def)
  let ?f = "?e\<lparr>locks := (locks ?e)(lk := locks s lk)\<rparr>"
  have "lk_lock (locks ?e lk) = 1" "lk_cpu (locks ?e lk) = Some ?c" "locks ?e lk = (locks s lk)\<lparr>lk_lock := 1, lk_cpu := Some ?c\<rparr>"
    using assms(3) by (simp_all add: enter_eq)
  then have "unlock lk ?e = pop_off ?f"
    using free tc by (simp add: unlock_def holding_def atomic_swap_def Let_def set_lock_def)
  also have "\<dots> = Ok () (set_cpu ?c (\<lambda>u. u\<lparr>c_depth := c_depth u - 1\<rparr>) ?f)"
  proof -
    have "\<not> is_interrupt ?f" by (simp add: enter_eq is_interrupt_def csr_defs csrr_def)
    moreover have "this_cpu ?f = ?c" by (simp add: enter_eq hart_defs)
    ultimately show ?thesis using cpu d by (simp add: pop_off_def Let_def)
  qed
  also have "set_cpu ?c (\<lambda>u. u\<lparr>c_depth := c_depth u - 1\<rparr>) ?f = enter l s"
    using cpu d assms(3) tc by (intro lockst.equality) (simp_all add: enter_eq csrr_def touch_def set_cpu_def fun_eq_iff)
  finally show ?thesis .
qed

lemma touch_nested: "c_depth (cpus s (this_cpu s)) \<noteq> 0 \<Longrightarrow> touch s = s"
  by (simp add: touch_def set_cpu_def)


text \<open>The state a sleeping process leaves to the others.\<close>

definition asleep :: "'a procst_scheme \<Rightarrow> nat \<Rightarrow> chan option \<Rightarrow> 'a procst_scheme" where
  "asleep s i ch = switch_out i (this_cpu s) (set_proc i (\<lambda>p. p\<lparr>p_chan := ch, p_state := WAITING\<rparr>) (enter (Proc_lock i) s))"

lemma sleep_run:
  assumes s: "in_process s i" "c_depth (cpus s (this_cpu s)) = 0" "lk_free lk s" "lk \<noteq> Mem_lock" "lk \<noteq> Print_lock" "lk \<noteq> Proc_lock i"
  obtains ie where "sleep others ch lk (enter lk s) =
    (let v = others (asleep s i ch)
     in kbind (unlock (Proc_lock i) (set_proc i (\<lambda>p. p\<lparr>p_chan := None\<rparr>) (set_cpu (this_cpu v) (\<lambda>c. c\<lparr>c_intena := ie\<rparr>) v)))
          (\<lambda>_ s. lock lk s))"
proof -
  note d = in_processD [OF s(1)]
  let ?e = "enter lk s" and ?p = "enter (Proc_lock i) s"
  let ?w = "set_proc i (\<lambda>p. p\<lparr>p_chan := ch, p_state := WAITING\<rparr>) ?p"
  have ok: "intr_ok s" using d(1) by (simp add: mem_ready_def kctx_def)
  have re: "mem_ready ?e" using enter_ready(1) [OF d(1) s(4,5)] .
  have "c_proc (cpus ?e (this_cpu ?e)) = Some i" unfolding enter_machine using d(6) by (simp add: enter_eq touch_def)
  then have my: "myproc ?e = Ok (Some i) ?e"
    using myproc_touch [OF re] touch_nested [of ?e] enter_depth [OF d(1), of lk] by simp
  have fl: "lk_free (Proc_lock i) ?e" using d(3,7) s(6) by (simp add: lk_free_enter procs_free_def)
  have cpu: "c_proc (cpus ?w (this_cpu s)) = Some i" "c_depth (cpus ?w (this_cpu s)) = 1"
    using d(6) s(2) by (simp_all add: enter_eq touch_def)
  have "this_cpu ?w = this_cpu s" by (simp add: hart_defs enter_eq)
  moreover have "holding (Proc_lock i) ?w" using \<open>this_cpu ?w = this_cpu s\<close> by (simp add: holding_def) (simp add: enter_eq)
  moreover have "\<not> is_interrupt ?w" by (simp add: is_interrupt_def csr_defs csrr_def) (simp add: enter_eq)
  ultimately have sch: "sched others ?w = (let v = others (asleep s i ch)
      in Ok () (set_cpu (this_cpu v) (\<lambda>c. c\<lparr>c_intena := c_intena (cpus ?w (this_cpu s))\<rparr>) v))"
    using cpu by (simp add: sched_def Let_def asleep_def)
  have "sleep others ch lk ?e = kbind (sched others ?w) (\<lambda>_ s.
      kbind (unlock (Proc_lock i) (set_proc i (\<lambda>p. p\<lparr>p_chan := None\<rparr>) s)) (\<lambda>_ s. lock lk s))"
    using my lock_free [OF fl] unlock_outer [OF s(3) ok s(6)] by (simp add: sleep_def)
  then show ?thesis using that unfolding sch by (simp add: Let_def)
qed

lemma asleep_facts:
  assumes "mem_ready s" "c_depth (cpus s (this_cpu s)) = 0"
  shows "proctable (asleep s i ch) = (proctable s)(i := (proctable s i)\<lparr>p_chan := ch, p_state := WAITING, p_context := context_of (gprs s)\<rparr>)"
    "mem (asleep s i ch) = mem s" "\<not> is_interrupt (asleep s i ch)" "l \<noteq> Proc_lock i \<Longrightarrow> locks (asleep s i ch) l = locks s l"
    "lk_lock (locks (asleep s i ch) (Proc_lock i)) = 1" "lk_cpu (locks (asleep s i ch) (Proc_lock i)) = Some (this_cpu s)"
    "c_depth (cpus (asleep s i ch) (this_cpu s)) = 1"
proof -
  show "proctable (asleep s i ch) = (proctable s)(i := (proctable s i)\<lparr>p_chan := ch, p_state := WAITING, p_context := context_of (gprs s)\<rparr>)"
    by (simp add: asleep_def switch_out_def fun_eq_iff)
  show "mem (asleep s i ch) = mem s" by (simp add: asleep_def switch_out_def)
  show "\<not> is_interrupt (asleep s i ch)" by (simp add: asleep_def switch_out_def is_interrupt_def csr_defs csrr_def) (simp add: enter_eq)
  show "l \<noteq> Proc_lock i \<Longrightarrow> locks (asleep s i ch) l = locks s l" "lk_lock (locks (asleep s i ch) (Proc_lock i)) = 1"
    "lk_cpu (locks (asleep s i ch) (Proc_lock i)) = Some (this_cpu s)" "c_depth (cpus (asleep s i ch) (this_cpu s)) = 1"
    using assms(2) by (simp_all add: asleep_def switch_out_def) (simp_all add: enter_eq touch_def)
qed

text \<open>Where another hart holds the process's lock, \<open>sleep\<close> waits for it with \<open>lk\<close> still held.\<close>

lemma sleep_keeps_lock:
  assumes s: "in_process s i" "lk_free lk s" "lk \<noteq> Mem_lock" "lk \<noteq> Print_lock" "lk \<noteq> Proc_lock i" and h: "h \<noteq> this_cpu s"
  shows "\<exists>w. sleep others ch lk (set_lock (Proc_lock i) (\<lambda>l. l\<lparr>lk_lock := 1, lk_cpu := Some h\<rparr>) (enter lk s)) = Blocked w
    \<and> proctable w = proctable s \<and> lk_lock (locks w lk) = 1 \<and> lk_cpu (locks w lk) = Some (this_cpu s)"
proof -
  note d = in_processD [OF s(1)]
  let ?z = "set_lock (Proc_lock i) (\<lambda>l. l\<lparr>lk_lock := 1, lk_cpu := Some h\<rparr>) (enter lk s)"
  let ?w = "push_off ?z"
  have cpu: "this_cpu ?z = this_cpu s" by (simp add: hart_defs enter_eq)
  have r: "mem_ready ?z"
    using enter_ready(1) [OF d(1) s(3,4)]
    by (simp add: mem_ready_def alloc_wf_def kctx_def uart_live_def intr_ok_def is_interrupt_def lk_free_def hart_defs csr_defs csrr_def set_lock_def)
  have "c_proc (cpus ?z (this_cpu ?z)) = Some i" unfolding cpu using d(6) by (simp add: enter_eq touch_def)
  then have my: "myproc ?z = Ok (Some i) ?z"
    using myproc_touch [OF r] touch_nested [of ?z] enter_depth [OF d(1), of lk] cpu by simp
  have "lock (Proc_lock i) ?z = Blocked ?w"
    by (rule lock_taken) (use h cpu in simp_all)
  then have "sleep others ch lk ?z = Blocked ?w" using my by (simp add: sleep_def)
  moreover have "proctable ?w = proctable s" by (simp add: set_lock_def push_off_def Let_def set_cpu_def interrupt_off_def csr_defs csrw_def enter_eq)
  ultimately show ?thesis using s(5) by (intro exI [of _ ?w]) (simp add: enter_eq)
qed

text \<open>
  C34 (safety). No wakeup is lost. A process that holds \<open>lk\<close> and calls \<open>sleep\<close> passes every check of
  \<open>sched\<close> and switches away in a state in which it is already waiting on the channel with its
  registers saved, interrupts are off, \<open>lk\<close> is free again, and the only lock this hart holds is
  the process's own. From any later state with its slot unchanged a \<open>wakeup\<close> of the channel makes it
  ready; once it runs again it takes \<open>lk\<close> back. As long as another hart holds the process's lock, as
  \<open>wakeup\<close> does while it looks at the slot, \<open>sleep\<close> waits with \<open>lk\<close> still held.
\<close>

theorem sleep_no_lost_wakeup:
  assumes "in_process s i" "c_depth (cpus s (this_cpu s)) = 0" "lk_free lk s" "lk \<noteq> Mem_lock" "lk \<noteq> Print_lock" "lk \<noteq> Proc_lock i"
  shows "\<exists>u ie. sleep others ch lk (enter lk s) =
      (let v = others u
       in kbind (unlock (Proc_lock i) (set_proc i (\<lambda>p. p\<lparr>p_chan := None\<rparr>) (set_cpu (this_cpu v) (\<lambda>c. c\<lparr>c_intena := ie\<rparr>) v)))
            (\<lambda>_ s. lock lk s))
    \<and> proctable u = (proctable s)(i := (proctable s i)\<lparr>p_chan := ch, p_state := WAITING, p_context := context_of (gprs s)\<rparr>)
    \<and> mem u = mem s \<and> \<not> is_interrupt u \<and> c_depth (cpus u (this_cpu s)) = 1
    \<and> lk_lock (locks u (Proc_lock i)) = 1 \<and> lk_cpu (locks u (Proc_lock i)) = Some (this_cpu s)
    \<and> (\<forall>l. l \<noteq> Proc_lock i \<longrightarrow> locks u l = locks s l)
    \<and> (\<forall>v. mem_ready v \<and> procs_free v \<and> proctable v i = proctable u i \<longrightarrow>
         (\<exists>w. wakeup ch v = Ok () w \<and> p_state (proctable w i) = READY))
    \<and> (\<forall>h. h \<noteq> this_cpu s \<longrightarrow>
         (\<exists>w. sleep others ch lk (set_lock (Proc_lock i) (\<lambda>l. l\<lparr>lk_lock := 1, lk_cpu := Some h\<rparr>) (enter lk s)) = Blocked w
            \<and> proctable w = proctable s \<and> lk_lock (locks w lk) = 1 \<and> lk_cpu (locks w lk) = Some (this_cpu s)))"
proof -
  obtain ie where run: "sleep others ch lk (enter lk s) =
    (let v = others (asleep s i ch)
     in kbind (unlock (Proc_lock i) (set_proc i (\<lambda>p. p\<lparr>p_chan := None\<rparr>) (set_cpu (this_cpu v) (\<lambda>c. c\<lparr>c_intena := ie\<rparr>) v)))
          (\<lambda>_ s. lock lk s))"
    using sleep_run [OF assms] .
  note f = asleep_facts [OF in_processD(1) [OF assms(1)] assms(2)]
  have wake: "\<exists>w. wakeup ch v = Ok () w \<and> p_state (proctable w i) = READY"
    if v: "mem_ready v" "procs_free v" "proctable v i = proctable (asleep s i ch) i" for v
  proof -
    obtain w where w: "wakeup ch v = Ok () w" "proctable w = (\<lambda>q. if q < NPROC then woken ch (proctable v q) else proctable v q)"
      by (rule wakeup_spec [OF v(1,2), of ch])
    have "p_state (woken ch (proctable v i)) = READY" unfolding v(3) f(1) by (simp add: woken_def)
    then have "p_state (proctable w i) = READY" using w(2) in_processD(7) [OF assms(1)] by simp
    then show ?thesis using w(1) by blast
  qed
  show ?thesis
    by (rule exI [of _ "asleep s i ch"], rule exI [of _ ie], intro conjI allI impI f sleep_keeps_lock [OF assms(1,3-6)])
      (use run wake in blast)+
qed

theorem sleep_no_lost_wakeup_witness:
  "\<exists>(s :: procst) i u ie. in_process s i
    \<and> sleep (\<lambda>v. v) (Some Ticks_chan) Ticks_lock (enter Ticks_lock s) =
        kbind (unlock (Proc_lock i) (set_proc i (\<lambda>p. p\<lparr>p_chan := None\<rparr>) (set_cpu (this_cpu u) (\<lambda>c. c\<lparr>c_intena := ie\<rparr>) u)))
          (\<lambda>_ s. lock Ticks_lock s)
    \<and> p_state (proctable u i) = WAITING \<and> p_chan (proctable u i) = Some Ticks_chan"
proof -
  obtain s :: procst and i where s: "in_process s i" "c_depth (cpus s (this_cpu s)) = 0" "\<forall>lk. lk_free lk s"
    by (rule small_process)
  let ?rest = "\<lambda>u ie. kbind (unlock (Proc_lock i) (set_proc i (\<lambda>p. p\<lparr>p_chan := None\<rparr>) (set_cpu (this_cpu u) (\<lambda>c. c\<lparr>c_intena := ie\<rparr>) u)))
          (\<lambda>_ s. lock Ticks_lock s)"
  obtain u ie where "sleep (\<lambda>v. v) (Some Ticks_chan) Ticks_lock (enter Ticks_lock s) = ?rest u ie"
    "proctable u = (proctable s)(i := (proctable s i)\<lparr>p_chan := Some Ticks_chan, p_state := WAITING, p_context := context_of (gprs s)\<rparr>)"
    using sleep_no_lost_wakeup [OF s(1,2) spec [OF s(3)], of Ticks_lock "\<lambda>v. v" "Some Ticks_chan"] unfolding Let_def by blast
  then show ?thesis using s(1) by (intro exI [of _ s] exI [of _ i] exI [of _ u] exI [of _ ie]) simp
qed

end
