(* ===== verification/Exec.thy ===== *)
theory Exec
  imports Lifecycle
begin

unbundle bit_operations_syntax

text \<open>
  Program loading (\<^verbatim>\<open>exec.c\<close>, \<^verbatim>\<open>elf.h\<close>, and the first process in \<^verbatim>\<open>proc.c\<close>): the ELF loader, \<open>kexec\<close>,
  \<open>uvmfirst\<close>. The embedded images come from the generated \<^verbatim>\<open>initcode.h\<close>: where they lie and how long
  they are is the argument \<open>imgs\<close>, their bytes are bytes of the modelled memory.
\<close>

section \<open>ELF headers\<close>

definition ELF_MAGIC :: u32 where "ELF_MAGIC = 0x464C457F"
definition PT_LOAD :: u32 where "PT_LOAD = 1"
definition PF_X :: u32 where "PF_X = 1"
definition PF_W :: u32 where "PF_W = 2"
definition PF_R :: u32 where "PF_R = 4"
definition ET_EXEC :: u16 where "ET_EXEC = 2"
definition EM_RISCV :: u16 where "EM_RISCV = 243"
definition ELFCLASS32 :: u8 where "ELFCLASS32 = 1"
definition ELF_HDR_SIZE :: u32 where "ELF_HDR_SIZE = 52"
definition PRG_HDR_SIZE :: u32 where "PRG_HDR_SIZE = 32"
definition MAXPATH :: u32 where "MAXPATH = 32"
definition MAXARG :: nat where "MAXARG = 16"

record elf_hdr =
  eh_magic :: u32
  eh_ident :: "nat \<Rightarrow> u8"
  eh_type :: u16
  eh_machine :: u16
  eh_version :: u32
  eh_entry :: u32
  eh_phoff :: u32
  eh_shoff :: u32
  eh_flags :: u32
  eh_ehsize :: u16
  eh_phentsize :: u16
  eh_phnum :: u16
  eh_shentsize :: u16
  eh_shnum :: u16
  eh_shstrndx :: u16

record prg_hdr =
  ph_type :: u32
  ph_offset :: u32
  ph_va :: u32
  ph_pa :: u32
  ph_filesz :: u32
  ph_memsz :: u32
  ph_flags :: u32
  ph_align :: u32

text \<open>The structures as the bytes of the image give them.\<close>

definition elf_hdr_at :: "memory \<Rightarrow> u32 \<Rightarrow> elf_hdr" where
  "elf_hdr_at m a = \<lparr>eh_magic = load32 m a, eh_ident = (\<lambda>i. m (a + 4 + of_nat i)), eh_type = load16 m (a + 16),
     eh_machine = load16 m (a + 18), eh_version = load32 m (a + 20), eh_entry = load32 m (a + 24),
     eh_phoff = load32 m (a + 28), eh_shoff = load32 m (a + 32), eh_flags = load32 m (a + 36),
     eh_ehsize = load16 m (a + 40), eh_phentsize = load16 m (a + 42), eh_phnum = load16 m (a + 44),
     eh_shentsize = load16 m (a + 46), eh_shnum = load16 m (a + 48), eh_shstrndx = load16 m (a + 50)\<rparr>"

definition prg_hdr_at :: "memory \<Rightarrow> u32 \<Rightarrow> prg_hdr" where
  "prg_hdr_at m a = \<lparr>ph_type = load32 m a, ph_offset = load32 m (a + 4), ph_va = load32 m (a + 8), ph_pa = load32 m (a + 12),
     ph_filesz = load32 m (a + 16), ph_memsz = load32 m (a + 20), ph_flags = load32 m (a + 24), ph_align = load32 m (a + 28)\<rparr>"

section \<open>Finding a program\<close>

record program =
  pg_name :: string
  pg_img :: u32
  pg_len :: u32

definition programs :: "(string \<Rightarrow> u32 \<times> u32) \<Rightarrow> program list" where
  "programs imgs = map (\<lambda>nm. \<lparr>pg_name = nm, pg_img = fst (imgs nm), pg_len = snd (imgs nm)\<rparr>) [''init'', ''hello'', ''echo'']"

fun find_program_from :: "program list \<Rightarrow> cptr \<Rightarrow> 's \<Rightarrow> ((u32 \<times> u32) option, 's) res" where
  "find_program_from [] name s = Ok None s"
| "find_program_from (p # ps) name s =
     (case strcmp name (lit (pg_name p)) of
        None \<Rightarrow> Blocked s
      | Some d \<Rightarrow> if d = 0 then Ok (Some (pg_img p, pg_len p)) s else find_program_from ps name s)"

definition find_program :: "(string \<Rightarrow> u32 \<times> u32) \<Rightarrow> cptr \<Rightarrow> 's \<Rightarrow> ((u32 \<times> u32) option, 's) res" where
  "find_program imgs name s = find_program_from (programs imgs) name s"

section \<open>Loading an image\<close>

definition elf_ok :: "elf_hdr \<Rightarrow> bool" where
  "elf_ok elf \<longleftrightarrow> eh_magic elf = ELF_MAGIC \<and> eh_ident elf 0 = ELFCLASS32 \<and> eh_type elf = ET_EXEC
     \<and> eh_machine elf = EM_RISCV \<and> ucast (eh_phentsize elf) = PRG_HDR_SIZE"

text \<open>The check of a program header's place in the file, and the checks of a segment.\<close>

definition phdr_off :: "elf_hdr \<Rightarrow> nat \<Rightarrow> u32" where
  "phdr_off elf i = eh_phoff elf + of_nat i * PRG_HDR_SIZE"

definition phdr_refused :: "elf_hdr \<Rightarrow> nat \<Rightarrow> u32 \<Rightarrow> bool" where
  "phdr_refused elf i len \<longleftrightarrow> phdr_off elf i < eh_phoff elf \<or> phdr_off elf i + PRG_HDR_SIZE > len"

definition segment_refused :: "prg_hdr \<Rightarrow> u32 \<Rightarrow> u32 \<Rightarrow> bool" where
  "segment_refused prg len size' \<longleftrightarrow> ph_memsz prg < ph_filesz prg
     \<or> ph_offset prg + ph_filesz prg < ph_offset prg \<or> ph_offset prg + ph_filesz prg > len
     \<or> ph_va prg mod PAGE_SIZE \<noteq> 0 \<or> ph_va prg < size'
     \<or> ph_va prg + ph_memsz prg < ph_va prg \<or> ph_va prg + ph_memsz prg > UART_0"

definition segment_perm :: "prg_hdr \<Rightarrow> u32" where
  "segment_perm prg =
     (let perm = 0; perm = (if ph_flags prg AND PF_X \<noteq> 0 then perm OR PTE_X else perm)
      in if ph_flags prg AND PF_W \<noteq> 0 then perm OR PTE_W else perm)"

text \<open>
  The loop over the headers carries the index, \<^verbatim>\<open>size\<close> and \<^verbatim>\<open>*sz\<close>. \<open>load_elf\<close> ends with \<open>Inl sz\<close> where
  the code returns -1 and with \<open>Inr (entry, sz)\<close> where it returns 0.
\<close>

definition load_elf_body :: "u32 \<Rightarrow> u32 \<Rightarrow> u32 \<Rightarrow> elf_hdr \<Rightarrow> nat \<times> u32 \<times> u32 \<Rightarrow> 'a memst_scheme
    \<Rightarrow> (nat \<times> u32 \<times> u32 + (u32 + u32 \<times> u32), 'a memst_scheme) res" where
  "load_elf_body pt img len elf = (\<lambda>(i, size', sz) s.
     if i < unat (eh_phnum elf)
     then if phdr_refused elf i len then Ok (Inr (Inl sz)) s
       else let prg = prg_hdr_at (mem s) (img + phdr_off elf i)
         in if ph_type prg \<noteq> PT_LOAD then Ok (Inl (Suc i, size', sz)) s
            else if ph_memsz prg = 0 then Ok (Inl (Suc i, size', sz)) s
            else if segment_refused prg len size' then Ok (Inr (Inl sz)) s
            else kbind (uvmalloc pt size' (ph_va prg + ph_memsz prg) (segment_perm prg) s) (\<lambda>newsz s.
              if newsz = 0 then Ok (Inr (Inl sz)) s
              else kbind (load_segment pt (ph_va prg) img (ph_offset prg) (ph_filesz prg) s) (\<lambda>r s.
                if r < 0 then Ok (Inr (Inl (PGROUNDUP newsz))) s
                else Ok (Inl (Suc i, newsz, PGROUNDUP newsz)) s))
     else Ok (Inr (Inr (eh_entry elf, PGROUNDUP size'))) s)"

definition load_elf :: "u32 \<Rightarrow> u32 \<Rightarrow> u32 \<Rightarrow> 'a memst_scheme \<Rightarrow> (u32 + u32 \<times> u32, 'a memst_scheme) res" where
  "load_elf pt img len s =
     (if len < ELF_HDR_SIZE then Ok (Inl USER_BASE) s
      else let elf = elf_hdr_at (mem s) img
        in if \<not> elf_ok elf then Ok (Inl USER_BASE) s
           else kloop (load_elf_body pt img len elf) (0, USER_BASE, USER_BASE) s)"

section \<open>Replacing the program of a process\<close>

definition cstr_at :: "memory \<Rightarrow> u32 \<Rightarrow> cptr" where
  "cstr_at m a i = m (a + of_nat i)"

text \<open>
  Pushing the argument strings. \<open>ua\<close> is the address of the local array \<^verbatim>\<open>ustack\<close>; the loop carries
  \<^verbatim>\<open>argc\<close> and \<^verbatim>\<open>sp\<close> and ends with them, or with \<open>None\<close> for a jump to \<^verbatim>\<open>bad\<close>.
\<close>

definition push_arg :: "u32 \<Rightarrow> (nat \<Rightarrow> u32) \<Rightarrow> u32 \<Rightarrow> nat \<times> u32 \<Rightarrow> 'a memst_scheme
    \<Rightarrow> (nat \<times> u32 + (nat \<times> u32) option, 'a memst_scheme) res" where
  "push_arg pt argv ua = (\<lambda>(argc, sp) s.
     if argv argc \<noteq> 0
     then if argc \<ge> MAXARG then Ok (Inr None) s
       else case strlen (cstr_at (mem s) (argv argc)) of
           None \<Rightarrow> Blocked s
         | Some l \<Rightarrow>
           let n = l + 1;
               sp = (sp - n) AND NOT 0xF
           in if sp < USER_STACK_TOP - PAGE_SIZE then Ok (Inr None) s
              else kbind (copyout pt sp (argv argc) n s) (\<lambda>r s.
                if r < 0 then Ok (Inr None) s
                else Ok (Inl (Suc argc, sp)) (s\<lparr>mem := store32 (ua + 4 * of_nat argc) sp (mem s)\<rparr>))
     else Ok (Inr (Some (argc, sp))) s)"

definition push_args :: "u32 \<Rightarrow> (nat \<Rightarrow> u32) \<Rightarrow> u32 \<Rightarrow> 'a memst_scheme \<Rightarrow> ((nat \<times> u32) option, 'a memst_scheme) res" where
  "push_args pt argv ua s =
     kbind (kloop (push_arg pt argv ua) (0, USER_STACK_TOP) s) (\<lambda>r s.
       case r of
         None \<Rightarrow> Ok None s
       | Some (argc, sp) \<Rightarrow>
         let s = s\<lparr>mem := store32 (ua + 4 * of_nat argc) 0 (mem s)\<rparr>;
             n = (of_nat argc + 1) * 4;
             sp = (sp - n) AND NOT 0xF
         in if sp < USER_STACK_TOP - PAGE_SIZE then Ok None s
            else kbind (copyout pt sp ua n s) (\<lambda>r s. Ok (if r < 0 then None else Some (argc, sp)) s))"

text \<open>The new address space, built aside: image, stack page, arguments; \<open>Inl sz\<close> is a jump to \<^verbatim>\<open>bad\<close>.\<close>

definition kexec_build :: "u32 \<Rightarrow> u32 \<Rightarrow> u32 \<Rightarrow> (nat \<Rightarrow> u32) \<Rightarrow> u32 \<Rightarrow> 'a memst_scheme
    \<Rightarrow> (u32 + u32 \<times> u32 \<times> nat \<times> u32, 'a memst_scheme) res" where
  "kexec_build pt img len argv ua s =
     kbind (load_elf pt img len s) (\<lambda>r s.
       case r of
         Inl sz \<Rightarrow> Ok (Inl sz) s
       | Inr (ep, sz) \<Rightarrow>
         kbind (kalloc s) (\<lambda>stack s.
           if stack = 0 then Ok (Inl sz) s
           else kbind (memset stack 0 PAGE_SIZE s) (\<lambda>_ s.
             kbind (mappage pt (USER_STACK_TOP - PAGE_SIZE) stack (PTE_R OR PTE_W OR PTE_U) s) (\<lambda>pte s.
               if pte = 0 then kbind (kfree stack s) (\<lambda>_ s. Ok (Inl sz) s)
               else kbind (push_args pt argv ua s) (\<lambda>a s.
                 case a of None \<Rightarrow> Ok (Inl sz) s | Some (argc, sp) \<Rightarrow> Ok (Inr (ep, sz, argc, sp)) s)))))"

text \<open>The process name: at most 15 characters of the path and a NUL.\<close>

definition copy_name :: "cptr \<Rightarrow> cptr \<Rightarrow> cptr" where
  "copy_name path name = (let n = length (takeWhile (\<lambda>k. path k \<noteq> 0) [0..<15])
     in (\<lambda>k. if k < n then path k else if k = n then 0 else name k))"

definition kexec_commit :: "nat \<Rightarrow> u32 \<Rightarrow> u32 \<times> u32 \<times> nat \<times> u32 \<Rightarrow> u32 \<Rightarrow> 'a procst_scheme \<Rightarrow> 'a procst_scheme" where
  "kexec_commit i pt = (\<lambda>(ep, sz, argc, sp) path s.
     let s = set_proc i (\<lambda>p. p\<lparr>p_pt := pt, p_sz := sz\<rparr>) s;
         tf = p_tf (proctable s i);
         s = tf_set tf TF_epc ep s;
         s = tf_set tf (TF_regs 2) sp s;
         s = tf_set tf (TF_regs 11) sp s
     in set_proc i (\<lambda>p. p\<lparr>p_name := copy_name (cstr_at (mem s) path) (p_name p)\<rparr>) s)"

text \<open>\<open>path\<close> is the address of the path in the kernel, \<open>argv\<close> the kernel's array of string addresses.\<close>

definition kexec :: "(string \<Rightarrow> u32 \<times> u32) \<Rightarrow> u32 \<Rightarrow> u32 \<Rightarrow> u32 \<Rightarrow> (nat \<Rightarrow> u32) \<Rightarrow> 'a procst_scheme \<Rightarrow> (int, 'a procst_scheme) res" where
  "kexec imgs tramp ua path argv s =
     kbind (myproc s) (\<lambda>p s.
     kbind (find_program imgs (cstr_at (mem s) path) s) (\<lambda>f s.
       case f of
         None \<Rightarrow> Ok (-1) s
       | Some (img, len) \<Rightarrow>
         kbind (init_userpt tramp s) (\<lambda>pt s.
           if pt = 0 then Ok (-1) s
           else kbind (kexec_build pt img len argv ua s) (\<lambda>b s.
             case b of
               Inl sz \<Rightarrow> kbind (uvmfree pt sz s) (\<lambda>_ s. Ok (-1) s)
             | Inr new \<Rightarrow>
               (case p of
                  None \<Rightarrow> Undef s
                | Some i \<Rightarrow>
                  let oldpt = p_pt (proctable s i);
                      oldsz = p_sz (proctable s i);
                      s = kexec_commit i pt new path s
                  in kbind (uvmfree oldpt oldsz s) (\<lambda>_ s. Ok (int (fst (snd (snd new)))) s))))))"

section \<open>The first process\<close>

text \<open>\<open>ktrap\<close> and \<open>utrap\<close> are the addresses of \<^verbatim>\<open>kerneltrap\<close> and \<^verbatim>\<open>u_trap_handle\<close>.\<close>

definition uvmfirst_fill :: "u32 \<Rightarrow> u32 \<Rightarrow> nat \<Rightarrow> u32 \<Rightarrow> u32 \<Rightarrow> u32 \<Rightarrow> 'a procst_scheme \<Rightarrow> 'a procst_scheme" where
  "uvmfirst_fill ktrap utrap i ep sz sp s =
     (let tf = p_tf (proctable s i);
          s = tf_set tf TF_epc ep s;
          s = tf_set tf (TF_regs 2) sp s;
          s = tf_set tf TF_k_sp (p_kstack (proctable s i) + PAGE_SIZE) s;
          s = tf_set tf TF_k_satp (MAKE_SATP (kptable s)) s;
          s = tf_set tf TF_k_trap ktrap s;
          s = tf_set tf TF_u_trap utrap s
      in set_proc i (\<lambda>p. p\<lparr>p_sz := sz, p_name := (\<lambda>k. if k < 5 then lit ''init'' k else p_name p k), p_state := READY\<rparr>) s)"

definition uvmfirst :: "(string \<Rightarrow> u32 \<times> u32) \<Rightarrow> u32 \<Rightarrow> u32 \<Rightarrow> nat \<Rightarrow> u32 \<Rightarrow> 'a procst_scheme \<Rightarrow> (unit, 'a procst_scheme) res" where
  "uvmfirst imgs ktrap utrap i sp s =
     kbind (lock (Proc_lock i) s) (\<lambda>_ s.
     kbind (find_program imgs (lit ''init'') s) (\<lambda>f s.
       case f of
         None \<Rightarrow> panic ''uvmfirst: no init program'' s
       | Some (img, len) \<Rightarrow>
         kbind (load_elf (p_pt (proctable s i)) img len s) (\<lambda>r s.
           case r of
             Inl _ \<Rightarrow> panic ''uvmfirst: cannot load init ELF'' s
           | Inr (ep, sz) \<Rightarrow>
             kbind (kalloc s) (\<lambda>stack_pa s.
               if stack_pa = 0 then panic ''uvmfirst: out of memory'' s
               else kbind (mappage (p_pt (proctable s i)) (USER_STACK_TOP - PAGE_SIZE) stack_pa (PTE_R OR PTE_W OR PTE_U OR PTE_V) s) (\<lambda>pte s.
                 if pte = 0 then panic ''uvmfirst: mappage'' s
                 else unlock (Proc_lock i) (uvmfirst_fill ktrap utrap i ep sz sp s))))))"

definition init_userproc :: "(string \<Rightarrow> u32 \<times> u32) \<Rightarrow> u32 \<Rightarrow> u32 \<Rightarrow> u32 \<Rightarrow> u32 \<Rightarrow> 'a procst_scheme \<Rightarrow> (unit, 'a procst_scheme) res" where
  "init_userproc imgs tramp fret ktrap utrap s =
     kbind (procalloc tramp fret s) (\<lambda>p s.
       case p of
         None \<Rightarrow> panic ''init_userproc: procalloc fail'' s
       | Some i \<Rightarrow> uvmfirst imgs ktrap utrap i USER_STACK_TOP s)"

section \<open>What writes and growth do to the view of a program\<close>

lemma user_addr_inj:
  assumes "mem_ready s" "user_wf s pt" "user_addr (mem s) pt need va = Some a" "user_addr (mem s) pt need' va' = Some a"
  shows "va = va'"
proof -
  note u = user_addr_nonzero [OF assms(1,2,3)] and v = user_addr_nonzero [OF assms(1,2,4)]
  have "PGROUNDDOWN va = PGROUNDDOWN va'"
    using user_wfD(4) [OF assms(2) user_frame_weaken [OF v(3)] user_frame_weaken [OF u(3)]] .
  then show ?thesis using u(4) v(4) page_plus_offset by metis
qed

text \<open>Bytes stored through the page table, as \<open>copyout\<close> and \<open>load_segment\<close> do.\<close>

lemma user_written:
  assumes s: "mem_ready s" "user_wf s pt" and t: "t = s\<lparr>mem := mem t\<rparr>" and j: "j < 4294967296"
    and W: "\<forall>i<j. \<exists>a. user_addr (mem s) pt need (va + of_nat i) = Some a \<and> mem t a = b i"
    and F: "\<forall>a. (\<forall>i<j. user_addr (mem s) pt need (va + of_nat i) \<noteq> Some a) \<longrightarrow> mem t a = mem s a"
  shows "user_step s t pt" "walk (mem t) pt = walk (mem s) pt" "frames (mem t) pt = frames (mem s) pt"
    "user_view (mem t) pt va' = (if unat (va' - va) < j then map_option (\<lambda>(_, fl). (b (unat (va' - va)), fl)) (user_view (mem s) pt va')
       else user_view (mem s) pt va')"
    "PGROUNDDOWN x \<notin> frames (mem s) pt \<Longrightarrow> mem t x = mem s x"
proof -
  have pw: "pt_wf s pt" using s(2) by (simp add: user_wf_def)
  have fr: "PGROUNDDOWN a \<in> frames (mem s) pt \<and> PGROUNDDOWN a \<notin> tables (mem s) pt"
    if "user_addr (mem s) pt need v = Some a" for v a
    using user_frame_weaken [OF user_addr_nonzero(3) [OF s that]] user_addr_nonzero(2) [OF s that] by (auto simp: frames_def)
  have tab: "mem t x = mem s x" if "PGROUNDDOWN x \<in> tables (mem s) pt" for x using F fr that by blast
  show out: "mem t x = mem s x" if "PGROUNDDOWN x \<notin> frames (mem s) pt" for x using F fr that by blast
  note u = user_wf_upd [OF pw tab]
  show w: "walk (mem t) pt = walk (mem s) pt" using walk_cong(4) [OF pt_wfD(2) [OF pw], of "mem s" "mem t", OF tab] .
  show f: "frames (mem t) pt = frames (mem s) pt" using u(2) by (simp add: frames_def)
  have "user_wf t pt" using u(4) s(2) t by metis
  moreover have "mem_step s (s\<lparr>mem := mem t\<rparr>) (owned (mem s) pt \<union> free_pages s)"
    using out by (intro mem_step_write [OF s(1)]) (auto simp: owned_def)
  then have "mem_step s t (owned (mem s) pt \<union> free_pages s)" using t by simp
  moreover have "free_pages t = free_pages s" by (subst t) (simp add: free_pages_def)
  moreover have "owned (mem t) pt = owned (mem s) pt" using f u(3) by (simp add: owned_def)
  ultimately show "user_step s t pt" by (simp add: user_step_def)
  show "user_view (mem t) pt va' = (if unat (va' - va) < j then map_option (\<lambda>(_, fl). (b (unat (va' - va)), fl)) (user_view (mem s) pt va')
       else user_view (mem s) pt va')"
  proof (cases "unat (va' - va) < j")
    case True
    let ?i = "unat (va' - va)"
    have va': "va + of_nat ?i = va'" by simp
    obtain a where a: "user_addr (mem s) pt need va' = Some a" "mem t a = b ?i" using W True va' by metis
    have f0: "user_frame (mem s) pt 0 va' = Some (PGROUNDDOWN a)" using user_frame_weaken [OF user_addr_nonzero(3) [OF s a(1)]] .
    have "a = PGROUNDDOWN a + (va' AND 0xFFF)" using user_addr_nonzero(4) [OF s a(1)] page_plus_offset [of a] by simp
    then show ?thesis using True f0 a(2) w by (auto simp: user_view_def user_frame_def split: option.splits if_splits)
  next
    case False
    have "user_view (mem t) pt va' = user_view (mem s) pt va'"
    proof (rule user_view_cong)
      show "walk (mem t) pt va' = walk (mem s) pt va'" using w by simp
      fix f x
      assume f: "user_frame (mem s) pt 0 va' = Some f" and x: "x = f + (va' AND 0xFFF)"
      then have x': "user_addr (mem s) pt 0 va' = Some x" by (simp add: user_addr_def)
      have "user_addr (mem s) pt need (va + of_nat i) \<noteq> Some x" if i: "i < j" for i
      proof
        assume "user_addr (mem s) pt need (va + of_nat i) = Some x"
        from user_addr_inj [OF s this x'] have "va' - va = of_nat i" by auto
        then show False using False i j by (simp add: unat_of_nat_u32)
      qed
      then show "mem t x = mem s x" using F by blast
    qed
    then show ?thesis using False by simp
  qed
qed

context page_copy
begin

lemma copied_out:
  assumes "out" "copied s t pt k va j"
  shows "t = s\<lparr>mem := mem t\<rparr>" "\<forall>i<j. \<exists>a. user_addr (mem s) pt need (va + of_nat i) = Some a \<and> mem t a = mem s (k + of_nat i)"
    "\<forall>a. (\<forall>i<j. user_addr (mem s) pt need (va + of_nat i) \<noteq> Some a) \<longrightarrow> mem t a = mem s a"
proof -
  show "t = s\<lparr>mem := mem t\<rparr>" using assms(2) by (simp add: copied_def)
  have u: "user_addr (mem s) pt need (va + of_nat i) = Some (uaddr (mem s) pt va i)" if "i < j" for i
    using assms(2) that by (auto simp: copied_def mapped_def uaddr_def)
  have io: "to_addr (mem s) pt k va i = uaddr (mem s) pt va i" "from_addr (mem s) pt k va i = k + of_nat i" for i
    unfolding to_addr_def from_addr_def using assms(1) by simp_all
  have c: "\<forall>i<j. mem t (to_addr (mem s) pt k va i) = mem s (from_addr (mem s) pt k va i)"
    "\<forall>a. (\<forall>i<j. a \<noteq> to_addr (mem s) pt k va i) \<longrightarrow> mem t a = mem s a" using assms(2) unfolding copied_def by blast+
  show "\<forall>i<j. \<exists>a. user_addr (mem s) pt need (va + of_nat i) = Some a \<and> mem t a = mem s (k + of_nat i)"
    using c(1) u unfolding io by blast
  show "\<forall>a. (\<forall>i<j. user_addr (mem s) pt need (va + of_nat i) \<noteq> Some a) \<longrightarrow> mem t a = mem s a"
    using c(2) u unfolding io by metis
qed

text \<open>A copy into user memory as the program sees it.\<close>

lemma run_view:
  assumes "out" and s: "mem_ready s" "user_wf s pt" "kernel_buf s pt k (unat len)"
  obtains t j where "run pt k va len s = Ok (if j = unat len then 0 else -1) t" "j \<le> unat len"
    "j < unat len \<longrightarrow> user_addr (mem s) pt need (va + of_nat j) = None"
    "user_step s t pt" "walk (mem t) pt = walk (mem s) pt" "frames (mem t) pt = frames (mem s) pt"
    "\<forall>va'. user_view (mem t) pt va' = (if unat (va' - va) < j then map_option (\<lambda>(_, fl). (mem s (k + (va' - va)), fl)) (user_view (mem s) pt va')
       else user_view (mem s) pt va')"
    "\<forall>x. PGROUNDDOWN x \<notin> frames (mem s) pt \<longrightarrow> mem t x = mem s x" "t = s\<lparr>mem := mem t\<rparr>"
proof -
  obtain t j where t: "run pt k va len s = Ok (if j = unat len then 0 else -1) t" "j \<le> unat len"
    "j < unat len \<longrightarrow> \<not> mapped (mem s) pt va j" "copied s t pt k va j" using run_spec [OF s] by blast
  have j: "j < 4294967296" using t(2) unat_u32_lt [of len] by linarith
  note c = copied_out [OF assms(1) t(4)]
  note w = user_written [OF s(1,2) c(1) j c(2,3)]
  have "user_view (mem t) pt va' = (if unat (va' - va) < j then map_option (\<lambda>(_, fl). (mem s (k + (va' - va)), fl)) (user_view (mem s) pt va')
       else user_view (mem s) pt va')" for va' using w(4) [of va'] by simp
  then show ?thesis using that [OF t(1,2) _ w(1,2,3)] w(5) c(1) t(3) by (auto simp: mapped_def)
qed

end

lemma uvmalloc_view:
  assumes s: "mem_ready s" "as_wf s pt (PGROUNDUP oldsz)" "USER_BASE \<le> PGROUNDUP oldsz" "oldsz \<le> newsz" "newsz \<le> UART_0" "flag_bits xperm"
  obtains (grown) t where "uvmalloc pt oldsz newsz xperm s = Ok newsz t" "newsz \<noteq> 0" "user_step s t pt" "as_wf t pt (PGROUNDUP newsz)"
      "\<forall>va. user_view (mem t) pt va = (if PGROUNDUP oldsz \<le> va \<and> va < PGROUNDUP newsz then Some (0, PTE_R OR PTE_U OR xperm OR PTE_V)
        else user_view (mem s) pt va)"
      "4096 * card (frames (mem t) pt) + unat (PGROUNDUP oldsz) = 4096 * card (frames (mem s) pt) + unat (PGROUNDUP newsz)"
  | (short) t where "uvmalloc pt oldsz newsz xperm s = Ok 0 t" "user_step s t pt" "as_wf t pt (PGROUNDUP oldsz)"
      "4096 * card (free_pages s) + unat (PGROUNDUP oldsz) < unat (PGROUNDUP newsz) + 4194304"
  using s
proof (cases rule: uvmalloc_cases)
  case g: (grown n t)
  let ?flags = "PTE_R OR PTE_U OR xperm"
  note fl = user_flags [OF s(6)]
  have gr: "user_step s t pt" "fresh_range s t pt (PGROUNDUP oldsz) n ?flags" "card (frames (mem t) pt) = card (frames (mem s) pt) + n"
    "\<forall>x. PGROUNDDOWN x \<in> frames (mem s) pt \<longrightarrow> mem t x = mem s x" using g(3) by (simp_all add: grown_def)
  have "user_view (mem t) pt va = (if PGROUNDUP oldsz \<le> va \<and> va < PGROUNDUP newsz then Some (0, PTE_R OR PTE_U OR xperm OR PTE_V)
      else user_view (mem s) pt va)" for va
  proof (cases "PGROUNDUP oldsz \<le> va \<and> va < PGROUNDUP newsz")
    case True
    then obtain f where f: "walk (mem t) pt va = Some (PA2PTE f OR ?flags OR PTE_V)" "page_aligned f"
      "\<forall>x. PGROUNDDOWN x = f \<longrightarrow> mem t x = 0" using gr(2) g(6) unfolding fresh_range_def by metis
    have "PTE2PA (PA2PTE f OR g OR PTE_V) = f \<and> PTE_FLAGS (PA2PTE f OR g OR PTE_V) = g OR PTE_V" if "flag_bits g" for g
      using PTE2PA_make [of f "g OR PTE_V"] f(2) that by (simp add: flag_bits_OR or.assoc)
    from this [OF fl(1)] have e: "PTE2PA (PA2PTE f OR ?flags OR PTE_V) = f" "PTE_FLAGS (PA2PTE f OR ?flags OR PTE_V) = ?flags OR PTE_V"
      by blast+
    have "user_view (mem t) pt va \<noteq> None" unfolding user_view_None using user_leaf [OF f(2) fl f(1)] by simp
    then have "user_view (mem t) pt va = Some (mem t (f + (va AND 0xFFF)), ?flags OR PTE_V)"
      using f(1) e by (simp add: user_view_def split: if_splits)
    then show ?thesis using True f(3) offset_page [OF f(2), of va] by (simp add: or.assoc)
  next
    case False
    have "user_view (mem t) pt va = user_view (mem s) pt va"
    proof (rule user_view_cong)
      show "walk (mem t) pt va = walk (mem s) pt va" using gr(2) g(6) False unfolding fresh_range_def by metis
      fix f x
      assume f: "user_frame (mem s) pt 0 va = Some f" and x: "x = f + (va AND 0xFFF)"
      have "page_aligned f" using heap_page_facts [OF user_wfD(1) [OF as_wfD(1) [OF s(2)] f] s(1)] by simp
      then have "PGROUNDDOWN x \<in> frames (mem s) pt" using offset_page f x by (auto simp: frames_def)
      then show "mem t x = mem s x" using gr(4) by blast
    qed
    then show ?thesis unfolding if_not_P [OF False] .
  qed
  then show ?thesis using grown [of t] g(1,2,4,5) gr(1,3) by simp
next
  case h: (short n t)
  have "card (vpn1 ` {va. PGROUNDUP oldsz \<le> va \<and> va < PGROUNDUP newsz}) \<le> 1024"
    by (rule card_vpn) (use vpn_less in blast)
  then have "4096 * card (free_pages s) + unat (PGROUNDUP oldsz) < unat (PGROUNDUP newsz) + 4194304"
    using h(6,7) by simp
  then show ?thesis using short [of t] h(1,3,5) by simp
qed

section \<open>What loading an image gives\<close>

text \<open>The image lies in kernel memory, apart from the address space and from free pages.\<close>

definition image_apart :: "'a memst_scheme \<Rightarrow> u32 \<Rightarrow> u32 \<Rightarrow> u32 \<Rightarrow> bool" where
  "image_apart s pt img len \<longleftrightarrow> unat img + unat len \<le> 4294967296
     \<and> (\<forall>a. in_block img (unat len) a \<longrightarrow> PGROUNDDOWN a \<notin> owned (mem s) pt \<union> free_pages s)"

lemma image_apart_step:
  assumes "user_step s t pt" "image_apart s pt img len"
  shows "image_apart t pt img len" "in_block img (unat len) a \<Longrightarrow> mem t a = mem s a"
  using assms user_stepD(5) [OF assms(1)] mem_stepD(3) [OF user_stepD(1) [OF assms(1)]] by (simp_all add: image_apart_def)

lemma image_part:
  assumes "image_apart s pt img len" "unat off + n \<le> unat len"
  shows "kernel_buf s pt (img + off) n" "i < n \<Longrightarrow> in_block img (unat len) (img + off + of_nat i)"
proof -
  have l: "unat len < 4294967296" by (rule unat_u32_lt)
  have blk: "in_block img (unat len) (img + off + of_nat i)" if "i < n" for i
  proof -
    have "off + of_nat i = of_nat (unat off + i)" by simp
    then have "unat (off + of_nat i) = unat off + i" using that assms(2) l by (simp only: unat_of_nat_u32)
    then show ?thesis using that assms(2) by (simp add: in_block_def add.assoc)
  qed
  then show "i < n \<Longrightarrow> in_block img (unat len) (img + off + of_nat i)" .
  have "unat (img + off) \<le> unat img + unat off" by (simp add: unat_word_ariths)
  then have "unat (img + off) + n \<le> 4294967296" using assms by (simp add: image_apart_def)
  moreover have "PGROUNDDOWN a \<notin> owned (mem s) pt" if "in_block (img + off) n a" for a
  proof -
    have "a = img + off + of_nat (unat (a - (img + off)))" by simp
    then have "in_block img (unat len) a" using blk [of "unat (a - (img + off))"] that by (simp add: in_block_def)
    then show ?thesis using assms(1) by (simp add: image_apart_def)
  qed
  ultimately show "kernel_buf s pt (img + off) n" by (auto simp: kernel_buf_def owned_def frames_def)
qed

definition loadable :: "prg_hdr \<Rightarrow> bool" where
  "loadable prg \<longleftrightarrow> ph_type prg = PT_LOAD \<and> ph_memsz prg \<noteq> 0"

text \<open>The rights a header asks for: bit 0 of its flags for execution, bit 1 for writing; a page is always readable.\<close>

definition segment_flags :: "prg_hdr \<Rightarrow> u32" where
  "segment_flags prg = PTE_V OR PTE_U OR PTE_R OR (if bit (ph_flags prg) 0 then PTE_X else 0) OR (if bit (ph_flags prg) 1 then PTE_W else 0)"

lemma segment_flags_perm: "PTE_R OR PTE_U OR segment_perm prg OR PTE_V = segment_flags prg"
proof -
  have "ph_flags prg AND PF_X \<noteq> 0 \<longleftrightarrow> bit (ph_flags prg) 0" "ph_flags prg AND PF_W \<noteq> 0 \<longleftrightarrow> bit (ph_flags prg) 1"
    by (simp_all add: bit_iff_and_push_bit_not_eq_0 PF_X_def PF_W_def)
  then show ?thesis by (simp add: segment_perm_def segment_flags_def ac_simps)
qed

text \<open>What a segment has to satisfy, in numbers without a width.\<close>

definition segment_fits :: "prg_hdr \<Rightarrow> u32 \<Rightarrow> u32 \<Rightarrow> bool" where
  "segment_fits prg len z \<longleftrightarrow> unat (ph_filesz prg) \<le> unat (ph_memsz prg) \<and> unat (ph_offset prg) + unat (ph_filesz prg) \<le> unat len
     \<and> 4096 dvd unat (ph_va prg) \<and> unat z \<le> unat (ph_va prg) \<and> unat (ph_va prg) + unat (ph_memsz prg) \<le> 0x10000000"

lemma sum_in_range: "a + b < (a :: u32) \<or> c < a + b \<longleftrightarrow> unat c < unat a + unat b"
proof (cases "a \<le> a + b")
  case True
  then have "unat (a + b) = unat a + unat b" by (simp add: unat_plus_simple)
  then show ?thesis by (simp add: word_less_nat_alt)
next
  case False
  then have "2 ^ 32 \<le> unat a + unat b" using no_olen_add_nat [of a b] by simp
  then show ?thesis using False unat_u32_lt [of c] by auto
qed

lemma segment_fits_iff: "segment_fits prg len z \<longleftrightarrow> \<not> segment_refused prg len z"
proof -
  have "ph_va prg mod PAGE_SIZE = 0 \<longleftrightarrow> 4096 dvd unat (ph_va prg)"
    by (simp add: mod_page_eq_0 page_aligned_def mod_eq_0_iff_dvd)
  moreover have "unat UART_0 = 0x10000000" by (simp add: UART_0_def)
  ultimately show ?thesis
    using sum_in_range [of "ph_offset prg" "ph_filesz prg" len] sum_in_range [of "ph_va prg" "ph_memsz prg" UART_0]
    by (simp add: segment_fits_def segment_refused_def not_less [symmetric] word_less_nat_alt) blast
qed

text \<open>A program sees the segment: the bytes of the file, then zeros, with the rights the header asks for.\<close>

definition segment_seen :: "(u32 \<Rightarrow> (u8 \<times> u32) option) \<Rightarrow> memory \<Rightarrow> u32 \<Rightarrow> prg_hdr \<Rightarrow> bool" where
  "segment_seen v m img prg \<longleftrightarrow> (\<forall>j<unat (ph_memsz prg). v (ph_va prg + of_nat j) =
     Some (if j < unat (ph_filesz prg) then m (img + ph_offset prg + of_nat j) else 0, segment_flags prg))"

lemma segment_accepted:
  assumes "\<not> segment_refused prg len sz" "sz \<le> UART_0"
  shows "unat (ph_filesz prg) \<le> unat (ph_memsz prg)" "unat (ph_offset prg) + unat (ph_filesz prg) \<le> unat len"
    "unat (ph_va prg + ph_memsz prg) = unat (ph_va prg) + unat (ph_memsz prg)" "ph_va prg + ph_memsz prg \<le> UART_0"
    "PGROUNDUP sz \<le> ph_va prg" "sz \<le> ph_va prg + ph_memsz prg"
proof -
  have r: "ph_filesz prg \<le> ph_memsz prg" "ph_offset prg \<le> ph_offset prg + ph_filesz prg" "ph_offset prg + ph_filesz prg \<le> len"
    "page_aligned (ph_va prg)" "sz \<le> ph_va prg" "ph_va prg \<le> ph_va prg + ph_memsz prg" "ph_va prg + ph_memsz prg \<le> UART_0"
    using assms(1) by (auto simp: segment_refused_def mod_page_eq_0 not_less)
  show "unat (ph_filesz prg) \<le> unat (ph_memsz prg)" using r(1) by (simp add: word_le_nat_alt)
  have "unat (ph_offset prg + ph_filesz prg) = unat (ph_offset prg) + unat (ph_filesz prg)" using r(2) by (simp add: unat_plus_simple)
  then show "unat (ph_offset prg) + unat (ph_filesz prg) \<le> unat len" using r(3) by (simp add: word_le_nat_alt)
  show "unat (ph_va prg + ph_memsz prg) = unat (ph_va prg) + unat (ph_memsz prg)" using r(6) by (simp add: unat_plus_simple)
  show "ph_va prg + ph_memsz prg \<le> UART_0" using r(7) .
  show "sz \<le> ph_va prg + ph_memsz prg" using r(5,6) by simp
  obtain q where q: "unat (ph_va prg) = 4096 * q" using r(4) by (auto simp: page_aligned_def dvd_def mod_eq_0_iff_dvd)
  have "unat sz \<le> 0x10000000" using assms(2) by (simp add: word_le_nat_alt UART_0_def)
  then have "unat (PGROUNDUP sz) = (unat sz + 4095) div 4096 * 4096" by (simp add: unat_PGROUNDUP)
  moreover have "(unat sz + 4095) div 4096 \<le> q" using r(5) q by (simp add: word_le_nat_alt less_Suc_eq_le [symmetric] div_less_iff_less_mult)
  ultimately show "PGROUNDUP sz \<le> ph_va prg" using q by (simp add: word_le_nat_alt)
qed

lemma segment_perm_bits: "flag_bits (segment_perm prg)"
  by (simp add: segment_perm_def flag_bits_def PTE_X_def PTE_W_def)

lemma page_up:
  assumes "sz \<le> UART_0"
  shows "sz \<le> PGROUNDUP sz" "USER_BASE \<le> sz \<Longrightarrow> USER_BASE \<le> PGROUNDUP sz"
proof -
  have "unat sz \<le> 0x10000000" using assms by (simp add: word_le_nat_alt UART_0_def)
  then have "unat sz \<le> unat (PGROUNDUP sz)" by (simp add: unat_PGROUNDUP)
  then show "sz \<le> PGROUNDUP sz" by (simp add: word_le_nat_alt)
  then show "USER_BASE \<le> sz \<Longrightarrow> USER_BASE \<le> PGROUNDUP sz" by simp
qed

lemma segment_range:
  assumes "\<not> segment_refused prg len sz" "sz \<le> UART_0" "j < unat (ph_memsz prg)"
  shows "PGROUNDUP sz \<le> ph_va prg + of_nat j" "ph_va prg + of_nat j < ph_va prg + ph_memsz prg"
    "ph_va prg + of_nat j < PGROUNDUP (ph_va prg + ph_memsz prg)" "unat (of_nat j :: u32) = j"
proof -
  note a = segment_accepted [OF assms(1,2)]
  show u: "unat (of_nat j :: u32) = j" using assms(3) unat_u32_lt [of "ph_memsz prg"] by (intro unat_of_nat_u32) linarith
  have "unat (ph_va prg) + j < 4294967296" using assms(3) a(3) unat_u32_lt [of "ph_va prg + ph_memsz prg"] by linarith
  then have j: "unat (ph_va prg + of_nat j) = unat (ph_va prg) + j" using unat_add_lt [of "ph_va prg" "of_nat j"] u by simp
  have "ph_va prg \<le> ph_va prg + of_nat j" using j by (simp add: word_le_nat_alt)
  then show "PGROUNDUP sz \<le> ph_va prg + of_nat j" using a(5) by (rule order_trans [rotated])
  show lt: "ph_va prg + of_nat j < ph_va prg + ph_memsz prg" using j a(3) assms(3) by (simp add: word_less_nat_alt)
  show "ph_va prg + of_nat j < PGROUNDUP (ph_va prg + ph_memsz prg)" using less_le_trans [OF lt page_up(1) [OF a(4)]] .
qed

text \<open>One accepted segment.\<close>

lemma load_segment_step:
  assumes s: "mem_ready s" "as_wf s pt (PGROUNDUP sz)" "USER_BASE \<le> sz" "sz \<le> UART_0" "image_apart s pt img len"
    and p: "\<not> segment_refused prg len sz"
  obtains (loaded) t u where "uvmalloc pt sz (ph_va prg + ph_memsz prg) (segment_perm prg) s = Ok (ph_va prg + ph_memsz prg) t"
      "ph_va prg + ph_memsz prg \<noteq> 0" "load_segment pt (ph_va prg) img (ph_offset prg) (ph_filesz prg) t = Ok 0 u"
      "user_step s u pt" "as_wf u pt (PGROUNDUP (ph_va prg + ph_memsz prg))" "segment_seen (user_view (mem u) pt) (mem s) img prg"
      "\<forall>va. \<not> (PGROUNDUP sz \<le> va \<and> va < PGROUNDUP (ph_va prg + ph_memsz prg)) \<longrightarrow> user_view (mem u) pt va = user_view (mem s) pt va"
      "4096 * card (frames (mem u) pt) + unat (PGROUNDUP sz) = 4096 * card (frames (mem s) pt) + unat (PGROUNDUP (ph_va prg + ph_memsz prg))"
  | (short) t where "uvmalloc pt sz (ph_va prg + ph_memsz prg) (segment_perm prg) s = Ok 0 t" "user_step s t pt" "as_wf t pt (PGROUNDUP sz)"
      "4096 * card (free_pages s) + unat (PGROUNDUP sz) < unat (PGROUNDUP (ph_va prg + ph_memsz prg)) + 4194304"
proof -
  let ?top = "ph_va prg + ph_memsz prg" and ?fs = "unat (ph_filesz prg)" and ?ms = "unat (ph_memsz prg)"
  note a = segment_accepted [OF p s(4)] and rg = segment_range [OF p s(4)]
  show ?thesis
    using s(1,2) page_up(2) [OF s(4,3)] a(6,4) segment_perm_bits [of prg]
  proof (cases rule: uvmalloc_view)
    case h: (short t)
    show ?thesis by (rule short [OF h])
  next
    case g: (grown t)
    note st = user_stepD [OF g(3)]
    have seg: "user_view (mem t) pt (ph_va prg + of_nat j) = Some (0, segment_flags prg)" if "j < ?ms" for j
      using g(5) rg(1,3) [OF that] by (simp add: segment_flags_perm)
    have ia: "image_apart t pt img len" by (rule image_apart_step(1) [OF g(3) s(5)])
    obtain u j where u: "load_segment pt (ph_va prg) (img + ph_offset prg) 0 (ph_filesz prg) t = Ok (if j = ?fs then 0 else -1) u" "j \<le> ?fs"
      "j < ?fs \<longrightarrow> user_addr (mem t) pt 0 (ph_va prg + of_nat j) = None"
      "user_step t u pt" "walk (mem u) pt = walk (mem t) pt" "frames (mem u) pt = frames (mem t) pt"
      "\<forall>va'. user_view (mem u) pt va' = (if unat (va' - ph_va prg) < j
        then map_option (\<lambda>(_, fl). (mem t (img + ph_offset prg + (va' - ph_va prg)), fl)) (user_view (mem t) pt va')
        else user_view (mem t) pt va')"
      by (rule lseg.run_view [OF TrueI st(2,3) image_part(1) [OF ia a(2)], of "ph_va prg"])
    have j: "j = ?fs"
    proof (rule ccontr)
      assume "j \<noteq> ?fs"
      then have lt: "j < ?fs" using u(2) by simp
      then have "user_view (mem t) pt (ph_va prg + of_nat j) = None" using u(3) by (simp add: user_addr_def user_view_None)
      then show False using seg [of j] lt a(1) by simp
    qed
    have run: "load_segment pt (ph_va prg) img (ph_offset prg) (ph_filesz prg) t = Ok 0 u"
      using u(1) j by (simp add: load_segment_def)
    have seen: "segment_seen (user_view (mem u) pt) (mem s) img prg"
      unfolding segment_seen_def
    proof (intro allI impI)
      fix i
      assume i: "i < ?ms"
      have "mem t (img + ph_offset prg + of_nat i) = mem s (img + ph_offset prg + of_nat i)" if "i < ?fs"
        using image_apart_step(2) [OF g(3) s(5) image_part(2) [OF s(5) a(2) that]] .
      then show "user_view (mem u) pt (ph_va prg + of_nat i) =
          Some (if i < ?fs then mem s (img + ph_offset prg + of_nat i) else 0, segment_flags prg)"
        using u(7) [rule_format, of "ph_va prg + of_nat i"] seg [OF i] rg(4) [OF i] j by simp
    qed
    have other: "user_view (mem u) pt va = user_view (mem s) pt va" if va: "\<not> (PGROUNDUP sz \<le> va \<and> va < PGROUNDUP ?top)" for va
    proof -
      have "\<not> unat (va - ph_va prg) < j"
      proof
        assume "unat (va - ph_va prg) < j"
        then have "unat (va - ph_va prg) < ?ms" using j a(1) by simp
        from rg(1,3) [OF this] show False using va by simp
      qed
      then have "user_view (mem u) pt va = user_view (mem t) pt va" using u(7) [rule_format, of va] by (simp only: if_False)
      also have "\<dots> = user_view (mem s) pt va" using g(5) [rule_format, of va] by (simp only: va if_False)
      finally show ?thesis .
    qed
    show ?thesis
    proof (rule loaded [OF g(1,2) run user_step_trans [OF g(3) u(4)]])
      show "as_wf u pt (PGROUNDUP ?top)" using as_wf_same [OF g(4) user_stepD(3) [OF u(4)] u(5)] .
    qed (use seen other u(6) g(6) in simp_all)
  qed
qed

text \<open>
  The reference for the loop: where the image ends, if every segment is accepted. Headers that
  are not to be loaded are skipped.
\<close>

fun image_end :: "u32 \<Rightarrow> prg_hdr list \<Rightarrow> u32 \<Rightarrow> u32 option" where
  "image_end len [] z = Some z"
| "image_end len (p # ps) z =
     (if \<not> loadable p then image_end len ps z
      else if segment_fits p len z then image_end len ps (ph_va p + ph_memsz p) else None)"

lemma image_end_Cons [simp]:
  "image_end len (p # ps) z = (if \<not> loadable p then image_end len ps z
     else if segment_refused p len z then None else image_end len ps (ph_va p + ph_memsz p))"
  by (simp add: segment_fits_iff)

declare image_end.simps(2) [simp del]

definition segments :: "memory \<Rightarrow> u32 \<Rightarrow> elf_hdr \<Rightarrow> prg_hdr list" where
  "segments m img elf = map (\<lambda>k. prg_hdr_at m (img + (eh_phoff elf + of_nat (32 * k)))) [0..<unat (eh_phnum elf)]"

lemma phdr_off_eq: "phdr_off elf k = eh_phoff elf + of_nat (32 * k)"
  by (simp add: phdr_off_def PRG_HDR_SIZE_def mult.commute)

text \<open>
  No header starts in the last 32 bytes of the 32-bit range, the only place where the sum the code compares
  with the length of the file wraps.
\<close>

definition headers_below :: "elf_hdr \<Rightarrow> bool" where
  "headers_below elf \<longleftrightarrow> (\<forall>k<unat (eh_phnum elf).
     unat (eh_phoff elf) + 32 * k + 32 < 2 ^ 32 \<or> 2 ^ 32 \<le> unat (eh_phoff elf) + 32 * k)"

lemma headers_below_refused:
  assumes "headers_below elf" "k < unat (eh_phnum elf)"
  shows "phdr_refused elf k len \<longleftrightarrow> unat len < unat (eh_phoff elf) + 32 * k + 32"
proof -
  let ?p = "unat (eh_phoff elf)" and ?o = "phdr_off elf k"
  have k: "32 * k < 2097152" using assms(2) unsigned_less [where 'a = nat, of "eh_phnum elf"] by simp
  then have uk: "unat (of_nat (32 * k) :: u32) = 32 * k" by (intro unat_of_nat_u32) simp
  show ?thesis
  proof (cases "?p + 32 * k + 32 < 2 ^ 32")
    case True
    then have o: "unat ?o = ?p + 32 * k" unfolding phdr_off_eq using uk unat_add_lt [of "eh_phoff elf" "of_nat (32 * k)"] by simp
    then have "unat (?o + 32) = ?p + 32 * k + 32" using True unat_add_lt [of ?o 32] by simp
    with o show ?thesis by (simp add: phdr_refused_def PRG_HDR_SIZE_def word_less_nat_alt)
  next
    case False
    then have ge: "2 ^ 32 \<le> ?p + 32 * k" using assms unfolding headers_below_def by blast
    have "unat ?o = (?p + 32 * k) mod 2 ^ 32" unfolding phdr_off_eq using uk by (simp add: unat_word_ariths)
    also have "\<dots> = ?p + 32 * k - 2 ^ 32" using ge k unat_u32_lt [of "eh_phoff elf"] by (simp add: mod_if)
    finally have "?o < eh_phoff elf" using ge k unat_u32_lt [of "eh_phoff elf"] by (simp add: word_less_nat_alt)
    then show ?thesis using ge unat_u32_lt [of len] by (simp add: phdr_refused_def)
  qed
qed

lemma phdr_off_le: "unat (phdr_off elf k) \<le> unat (eh_phoff elf) + 32 * k"
proof -
  have "unat (phdr_off elf k) = (unat (eh_phoff elf) + unat (of_nat (32 * k) :: u32)) mod 2 ^ 32"
    by (simp add: phdr_off_eq unat_word_ariths)
  also have "\<dots> \<le> unat (eh_phoff elf) + unat (of_nat (32 * k) :: u32)" by (rule mod_less_eq_dividend)
  also have "unat (of_nat (32 * k) :: u32) \<le> 32 * k" by (simp only: unsigned_of_nat take_bit_nat_less_eq_self of_nat_id)
  finally show ?thesis by simp
qed

text \<open>
  The reference for the whole: where an image ends that is a 32-bit RISC-V executable with its headers in
  the file and segments that fit, one above the other.
\<close>

definition image_top :: "memory \<Rightarrow> u32 \<Rightarrow> u32 \<Rightarrow> u32 option" where
  "image_top m img len =
     (let elf = elf_hdr_at m img
      in if 52 \<le> unat len \<and> load32 m img = 0x464C457F \<and> m (img + 4) = 1 \<and> load16 m (img + 16) = 2 \<and> load16 m (img + 18) = 243
           \<and> load16 m (img + 42) = 32 \<and> (\<forall>k<unat (eh_phnum elf). unat (eh_phoff elf) + 32 * k + 32 \<le> unat len)
         then image_end len (segments m img elf) 0x1000 else None)"

lemma elf_ok_bytes:
  "elf_ok (elf_hdr_at m img) \<longleftrightarrow> load32 m img = 0x464C457F \<and> m (img + 4) = 1 \<and> load16 m (img + 16) = 2 \<and> load16 m (img + 18) = 243
     \<and> load16 m (img + 42) = 32"
proof -
  have "(ucast x :: u32) = 32 \<longleftrightarrow> x = 32" for x :: u16
    using unsigned_less [where 'a = nat, of x] by (simp add: unat_eq_iff_u32 word_unat_eq_iff [where 'a = 16] unsigned_ucast_eq take_bit_nat_eq_self)
  then show ?thesis
    by (simp add: elf_ok_def elf_hdr_at_def ELF_MAGIC_def ELFCLASS32_def ET_EXEC_def EM_RISCV_def PRG_HDR_SIZE_def)
qed

lemma image_end_append: "image_end len (ps @ qs) z = Option.bind (image_end len ps z) (image_end len qs)"
  by (induction ps arbitrary: z) simp_all

lemma image_end_mono:
  assumes "image_end len ps z = Some z'" "z \<le> UART_0"
  shows "z \<le> z' \<and> z' \<le> UART_0"
  using assms
proof (induction ps arbitrary: z)
  case (Cons p ps)
  show ?case
  proof (cases "loadable p")
    case True
    then have ok: "\<not> segment_refused p len z" "image_end len ps (ph_va p + ph_memsz p) = Some z'"
      using Cons.prems(1) by (auto split: if_splits)
    note a = segment_accepted [OF ok(1) Cons.prems(2)]
    from Cons.IH [OF ok(2) a(4)] a(6) show ?thesis by (auto intro: order_trans)
  qed (use Cons in simp)
qed simp

lemma image_end_take:
  "image_end len (take k ps) z = None \<Longrightarrow> image_end len ps z = None"
  "image_end len (take k ps) z = Some y \<Longrightarrow> z \<le> UART_0 \<Longrightarrow> image_end len ps z = Some z' \<Longrightarrow> y \<le> z'"
proof -
  have e: "image_end len ps z = Option.bind (image_end len (take k ps) z) (image_end len (drop k ps))"
    using image_end_append [of len "take k ps" "drop k ps" z] by simp
  show "image_end len (take k ps) z = None \<Longrightarrow> image_end len ps z = None" using e by simp
  assume y: "image_end len (take k ps) z = Some y" and z: "z \<le> UART_0" "image_end len ps z = Some z'"
  then have "image_end len (drop k ps) y = Some z'" using e by simp
  then show "y \<le> z'" using image_end_mono [of len "drop k ps" y z'] image_end_mono [OF y z(1)] by blast
qed

lemma prg_hdr_at_cong:
  assumes "\<And>i. i < 32 \<Longrightarrow> m' (a + of_nat i) = m (a + of_nat i)"
  shows "prg_hdr_at m' a = prg_hdr_at m a"
proof -
  have "load32 m' (a + of_nat k) = load32 m (a + of_nat k)" if "k \<le> 28" for k
    using assms [of k] assms [of "k + 1"] assms [of "k + 2"] assms [of "k + 3"] that by (simp add: load32_def ac_simps)
  from this [of 0] this [of 4] this [of 8] this [of 12] this [of 16] this [of 20] this [of 24] this [of 28]
  show ?thesis by (simp add: prg_hdr_at_def)
qed

lemma segments_nth:
  assumes "i < unat (eh_phnum elf)"
  shows "segments m img elf ! i = prg_hdr_at m (img + phdr_off elf i)" "i < length (segments m img elf)"
    "take (Suc i) (segments m img elf) = take i (segments m img elf) @ [segments m img elf ! i]"
  using assms by (simp_all add: segments_def phdr_off_eq take_Suc_conv_app_nth)

text \<open>The state of the loop before header \<open>i\<close>.\<close>

definition loading :: "'a memst_scheme \<Rightarrow> u32 \<Rightarrow> u32 \<Rightarrow> u32 \<Rightarrow> elf_hdr \<Rightarrow> nat \<Rightarrow> u32 \<Rightarrow> 'a memst_scheme \<Rightarrow> bool" where
  "loading s pt img len elf i sz t \<longleftrightarrow> user_step s t pt \<and> as_wf t pt (PGROUNDUP sz) \<and> USER_BASE \<le> sz \<and> sz \<le> UART_0
     \<and> 4096 * card (frames (mem t) pt) + 4096 = unat (PGROUNDUP sz)
     \<and> (\<forall>va. UART_0 \<le> va \<longrightarrow> user_view (mem t) pt va = user_view (mem s) pt va)
     \<and> (\<forall>k<i. \<not> phdr_refused elf k len)
     \<and> (headers_below elf \<longrightarrow> image_end len (take i (segments (mem s) img elf)) USER_BASE = Some sz
        \<and> (\<forall>p\<in>set (take i (segments (mem s) img elf)). loadable p \<longrightarrow>
             segment_seen (user_view (mem t) pt) (mem s) img p \<and> (\<forall>j<unat (ph_memsz p). ph_va p + of_nat j < sz)))"

text \<open>Why loading fails when it need not have read past the image.\<close>

definition cannot_load :: "'a memst_scheme \<Rightarrow> u32 \<Rightarrow> u32 \<Rightarrow> elf_hdr \<Rightarrow> bool" where
  "cannot_load s img len elf \<longleftrightarrow> (\<exists>k<unat (eh_phnum elf). unat len < unat (eh_phoff elf) + 32 * k + 32)
     \<or> (case image_end len (segments (mem s) img elf) USER_BASE of
          None \<Rightarrow> True | Some z \<Rightarrow> 4096 * card (free_pages s) < unat (PGROUNDUP z) + 8388608)"

lemma segment_seen_cong:
  assumes "\<forall>j<unat (ph_memsz p). v' (ph_va p + of_nat j) = v (ph_va p + of_nat j)"
  shows "segment_seen v' m img p = segment_seen v m img p"
  using assms by (simp add: segment_seen_def)

lemma page_up_mono: "a \<le> b \<Longrightarrow> b \<le> UART_0 \<Longrightarrow> PGROUNDUP a \<le> PGROUNDUP b"
proof -
  assume ab: "a \<le> b" and b: "b \<le> UART_0"
  have "unat a \<le> unat b" "unat b \<le> 0x10000000" using ab b by (simp_all add: word_le_nat_alt UART_0_def)
  then have "(unat a + 4095) div 4096 * 4096 \<le> (unat b + 4095) div 4096 * 4096" by (intro mult_right_mono div_le_mono) simp_all
  then show ?thesis using \<open>unat a \<le> unat b\<close> \<open>unat b \<le> 0x10000000\<close> by (simp add: word_le_nat_alt unat_PGROUNDUP)
qed

lemma free_before:
  assumes st: "user_step s t pt" and s: "user_wf s pt" "frames (mem s) pt = {}"
  shows "card (free_pages s) \<le> card (free_pages t) + card (frames (mem t) pt) + 1024"
  using user_stepD(5) [OF st] user_pages_count [OF user_stepD(3) [OF st]] user_pages_count [OF s(1)] s(2) card_roots [of "mem t" pt]
  by simp

text \<open>The loop moves on past a segment it has loaded, seen as header \<open>i\<close> of the file.\<close>

lemma loading_next:
  fixes s :: "'a memst_scheme" and prg :: prg_hdr
  defines "lim \<equiv> ph_va prg + ph_memsz prg"
  assumes L: "loading s pt img len elf i sz t" and s: "image_apart s pt img len" and i: "i < unat (eh_phnum elf)"
    and hdr: "\<not> phdr_refused elf i len" and prg: "loadable prg" "\<not> segment_refused prg len sz" "headers_below elf \<longrightarrow> segments (mem s) img elf ! i = prg"
    and u: "user_step t u pt" "as_wf u pt (PGROUNDUP lim)" "segment_seen (user_view (mem u) pt) (mem t) img prg"
      "\<forall>va. \<not> (PGROUNDUP sz \<le> va \<and> va < PGROUNDUP lim) \<longrightarrow> user_view (mem u) pt va = user_view (mem t) pt va"
      "4096 * card (frames (mem u) pt) + unat (PGROUNDUP sz) = 4096 * card (frames (mem t) pt) + unat (PGROUNDUP lim)"
  shows "loading s pt img len elf (Suc i) lim u"
proof -
  let ?segs = "segments (mem s) img elf"
  have st: "user_step s t pt" "USER_BASE \<le> sz" "sz \<le> UART_0" "4096 * card (frames (mem t) pt) + 4096 = unat (PGROUNDUP sz)"
    using L by (simp_all add: loading_def)
  note a = segment_accepted [OF prg(2) st(3), folded lim_def] and nth = segments_nth(3) [OF i, of "mem s" img]
  have new: "segment_seen (user_view (mem u) pt) (mem s) img prg"
  proof -
    have "mem t (img + ph_offset prg + of_nat j) = mem s (img + ph_offset prg + of_nat j)" if "j < unat (ph_filesz prg)" for j
      using image_apart_step(2) [OF st(1) s image_part(2) [OF s a(2) that]] .
    then show ?thesis using u(3) by (simp add: segment_seen_def)
  qed
  have old: "segment_seen (user_view (mem u) pt) (mem s) img p \<and> (\<forall>j<unat (ph_memsz p). ph_va p + of_nat j < lim)"
    if p: "segment_seen (user_view (mem t) pt) (mem s) img p" "\<forall>j<unat (ph_memsz p). ph_va p + of_nat j < sz" for p
  proof -
    have "\<forall>j<unat (ph_memsz p). user_view (mem u) pt (ph_va p + of_nat j) = user_view (mem t) pt (ph_va p + of_nat j)"
      using p(2) u(4) page_up(1) [OF st(3)] by (meson less_le_trans not_le)
    then show ?thesis using segment_seen_cong p a(6) less_le_trans by blast
  qed
  have "image_end len (take (Suc i) ?segs) USER_BASE = Some lim
      \<and> (\<forall>p\<in>set (take (Suc i) ?segs). loadable p \<longrightarrow> segment_seen (user_view (mem u) pt) (mem s) img p
           \<and> (\<forall>j<unat (ph_memsz p). ph_va p + of_nat j < lim))" if h: "headers_below elf"
  proof -
    have "image_end len (take i ?segs) USER_BASE = Some sz"
      "\<forall>p\<in>set (take i ?segs). loadable p \<longrightarrow> segment_seen (user_view (mem t) pt) (mem s) img p \<and> (\<forall>j<unat (ph_memsz p). ph_va p + of_nat j < sz)"
      using L h by (simp_all add: loading_def)
    then show ?thesis
      using old new segment_range(2) [OF prg(2) st(3), folded lim_def] prg h unfolding nth image_end_append by (auto simp: lim_def)
  qed
  moreover have "user_view (mem u) pt va = user_view (mem s) pt va" if "UART_0 \<le> va" for va
  proof -
    have "\<not> va < PGROUNDUP lim" using as_wfD(3) [OF u(2)] that by (simp add: not_less)
    then show ?thesis using u(4) L that by (simp add: loading_def)
  qed
  moreover have "USER_BASE \<le> lim" using st(2) a(6) by (rule order_trans)
  moreover have "\<forall>k<Suc i. \<not> phdr_refused elf k len" using L hdr by (simp add: loading_def less_Suc_eq all_conj_distrib)
  ultimately show ?thesis
    using user_step_trans [OF st(1) u(1)] u(2,5) st(4) a(4) by (simp add: loading_def)
qed

lemma load_elf_step:
  assumes s: "user_wf s pt" "frames (mem s) pt = {}" "image_apart s pt img len"
    and i: "i < unat (eh_phnum elf)" and L: "loading s pt img len elf i sz t"
  shows "(\<exists>z u. load_elf_body pt img len elf (i, sz, PGROUNDUP sz) t = Ok (Inl (Suc i, z, PGROUNDUP z)) u \<and> loading s pt img len elf (Suc i) z u)
    \<or> (\<exists>u. load_elf_body pt img len elf (i, sz, PGROUNDUP sz) t = Ok (Inr (Inl (PGROUNDUP sz))) u
        \<and> user_step s u pt \<and> as_wf u pt (PGROUNDUP sz) \<and> (headers_below elf \<longrightarrow> cannot_load s img len elf))"
    (is "?go \<or> ?stop")
proof -
  let ?segs = "segments (mem s) img elf" and ?prg = "prg_hdr_at (mem t) (img + phdr_off elf i)"
  let ?top = "ph_va ?prg + ph_memsz ?prg"
  have st: "user_step s t pt" "as_wf t pt (PGROUNDUP sz)" "USER_BASE \<le> sz" "sz \<le> UART_0" "4096 * card (frames (mem t) pt) + 4096 = unat (PGROUNDUP sz)"
    using L by (simp_all add: loading_def)
  note nth = segments_nth [OF i, of "mem s" img]
  consider (refused) "phdr_refused elf i len" | (skip) "\<not> phdr_refused elf i len" "\<not> loadable ?prg"
    | (bad) "\<not> phdr_refused elf i len" "loadable ?prg" "segment_refused ?prg len sz"
    | (good) "\<not> phdr_refused elf i len" "loadable ?prg" "\<not> segment_refused ?prg len sz" by blast
  note cs = this
  have hd: "?segs ! i = ?prg" if "headers_below elf" "\<not> phdr_refused elf i len"
  proof -
    have in_image: "unat (phdr_off elf i) + 32 \<le> unat len"
      using headers_below_refused [OF that(1) i, of len] phdr_off_le [of elf i] that(2) by linarith
    have "mem t (img + phdr_off elf i + of_nat k) = mem s (img + phdr_off elf i + of_nat k)" if "k < 32" for k
      using image_apart_step(2) [OF st(1) s(3) image_part(2) [OF s(3) in_image that]] .
    then show ?thesis using nth(1) prg_hdr_at_cong by metis
  qed
  have ends: "image_end len (take (Suc i) ?segs) USER_BASE = image_end len [?prg] sz"
    if "headers_below elf" "\<not> phdr_refused elf i len"
    using hd [OF that] L that(1) unfolding loading_def nth(3) image_end_append by simp
  show ?thesis
  proof (cases rule: cs)
    case refused
    then have "load_elf_body pt img len elf (i, sz, PGROUNDUP sz) t = Ok (Inr (Inl (PGROUNDUP sz))) t"
      using i by (simp add: load_elf_body_def)
    moreover have "headers_below elf \<longrightarrow> cannot_load s img len elf"
      using refused i headers_below_refused [OF _ i, of len] by (auto simp: cannot_load_def)
    ultimately show ?thesis using st(1,2) by blast
  next
    case skip
    then have "load_elf_body pt img len elf (i, sz, PGROUNDUP sz) t = Ok (Inl (Suc i, sz, PGROUNDUP sz)) t"
      using i by (auto simp: load_elf_body_def loadable_def Let_def)
    moreover have "loading s pt img len elf (Suc i) sz t"
      using L skip ends hd unfolding loading_def nth(3) by (auto simp: less_Suc_eq)
    ultimately show ?thesis by blast
  next
    case bad
    then have "load_elf_body pt img len elf (i, sz, PGROUNDUP sz) t = Ok (Inr (Inl (PGROUNDUP sz))) t"
      using i by (simp add: load_elf_body_def loadable_def Let_def)
    moreover have "image_end len ?segs USER_BASE = None" if "headers_below elf"
      using image_end_take(1) [of len "Suc i" ?segs USER_BASE] ends [OF that bad(1)] bad by simp
    then have "headers_below elf \<longrightarrow> cannot_load s img len elf" by (simp add: cannot_load_def)
    ultimately show ?thesis using st(1,2) by blast
  next
    case good
    have fit: "image_end len (take (Suc i) ?segs) USER_BASE = Some ?top" if "headers_below elf"
      using ends [OF that good(1)] good by simp
    show ?thesis
      using user_stepD(2) [OF st(1)] st(2,3,4) image_apart_step(1) [OF st(1) s(3)] good(3)
    proof (cases rule: load_segment_step)
      case (loaded v u)
      have "load_elf_body pt img len elf (i, sz, PGROUNDUP sz) t = Ok (Inl (Suc i, ?top, PGROUNDUP ?top)) u"
        using i good loaded(1-3) by (simp add: load_elf_body_def loadable_def Let_def)
      moreover have "loading s pt img len elf (Suc i) ?top u"
        by (rule loading_next [OF L s(3) i good(1-3)]) (use hd good(1) loaded(4-8) in blast)+
      ultimately show ?thesis by blast
    next
      case (short u)
      have "load_elf_body pt img len elf (i, sz, PGROUNDUP sz) t = Ok (Inr (Inl (PGROUNDUP sz))) u"
        using i good short(1) by (simp add: load_elf_body_def loadable_def Let_def)
      moreover have "cannot_load s img len elf" if h: "headers_below elf"
      proof (cases "image_end len ?segs USER_BASE")
        case (Some z)
        have "?top \<le> z" "z \<le> UART_0"
          using image_end_take(2) [OF fit [OF h] _ Some] image_end_mono [OF Some] by (simp_all add: USER_BASE_def UART_0_def)
        then have "unat (PGROUNDUP ?top) \<le> unat (PGROUNDUP z)" using page_up_mono by (simp add: word_le_nat_alt)
        then have "4096 * card (free_pages s) < unat (PGROUNDUP z) + 8388608"
          using free_before [OF st(1) s(1,2)] short(4) st(5) by linarith
        then show ?thesis using Some by (simp add: cannot_load_def)
      qed (simp add: cannot_load_def)
      ultimately show ?thesis using user_step_trans [OF st(1) short(2)] short(3) by blast
    qed
  qed
qed

lemma load_elf_spec:
  assumes s: "mem_ready s" "as_wf s pt USER_BASE" "frames (mem s) pt = {}" "image_apart s pt img len"
  defines "elf \<equiv> elf_hdr_at (mem s) img"
  obtains (failed) sz t where "load_elf pt img len s = Ok (Inl sz) t" "user_step s t pt" "as_wf t pt sz"
      "headers_below elf \<longrightarrow> (\<forall>z. image_top (mem s) img len = Some z \<longrightarrow> 4096 * card (free_pages s) < unat (PGROUNDUP z) + 8388608)"
  | (loaded) z t where "load_elf pt img len s = Ok (Inr (eh_entry elf, PGROUNDUP z)) t" "user_step s t pt" "as_wf t pt (PGROUNDUP z)"
      "USER_BASE \<le> z" "z \<le> UART_0"
      "headers_below elf \<longrightarrow> image_top (mem s) img len = Some z
        \<and> (\<forall>p\<in>set (segments (mem s) img elf). loadable p \<longrightarrow>
             segment_seen (user_view (mem t) pt) (mem s) img p \<and> (\<forall>j<unat (ph_memsz p). ph_va p + of_nat j < z))"
      "4096 * card (frames (mem t) pt) + 4096 = unat (PGROUNDUP z)"
      "\<forall>va. UART_0 \<le> va \<longrightarrow> user_view (mem t) pt va = user_view (mem s) pt va"
proof (cases "len < ELF_HDR_SIZE \<or> \<not> elf_ok elf")
  case True
  then have "load_elf pt img len s = Ok (Inl USER_BASE) s" by (auto simp: load_elf_def elf_def Let_def)
    moreover have "image_top (mem s) img len = None"
    using True by (auto simp: image_top_def elf_def elf_ok_bytes ELF_HDR_SIZE_def word_less_nat_alt Let_def)
  ultimately show ?thesis using failed [of USER_BASE s] s user_step_refl [OF s(1) as_wfD(1) [OF s(2)]] by simp
next
  case False
  have top: "image_top (mem s) img len = (if \<forall>k<unat (eh_phnum elf). unat (eh_phoff elf) + 32 * k + 32 \<le> unat len
      then image_end len (segments (mem s) img elf) USER_BASE else None)"
    using False by (auto simp: image_top_def elf_def elf_ok_bytes ELF_HDR_SIZE_def USER_BASE_def word_less_nat_alt Let_def not_less)
  let ?n = "unat (eh_phnum elf)" and ?segs = "segments (mem s) img elf"
  let ?I = "\<lambda>n x t. \<exists>i sz. x = (i, sz, PGROUNDUP sz) \<and> n = ?n - i \<and> i \<le> ?n \<and> loading s pt img len elf i sz t"
  let ?Q = "\<lambda>r t. case r of
      Inl sz \<Rightarrow> user_step s t pt \<and> as_wf t pt sz \<and> (headers_below elf \<longrightarrow> cannot_load s img len elf)
    | Inr (ep, sz) \<Rightarrow> \<exists>z. ep = eh_entry elf \<and> sz = PGROUNDUP z \<and> loading s pt img len elf ?n z t"
  have base: "PGROUNDUP USER_BASE = USER_BASE" by (simp add: PGROUNDUP_def USER_BASE_def PAGE_SIZE_def)
  have run: "load_elf pt img len s = kloop (load_elf_body pt img len elf) (0, USER_BASE, USER_BASE) s"
    using False by (simp add: load_elf_def elf_def Let_def)
  have "loading s pt img len elf 0 USER_BASE s"
    using s user_step_refl [OF s(1) as_wfD(1) [OF s(2)]] base by (simp add: loading_def USER_BASE_def UART_0_def)
  then have "?I ?n (0, USER_BASE, USER_BASE) s" using base by (intro exI [of _ 0] exI [of _ USER_BASE]) simp
  then have "\<exists>r t. kloop (load_elf_body pt img len elf) (0, USER_BASE, USER_BASE) s = Ok r t \<and> ?Q r t"
  proof (rule kloop_count [where I = ?I])
    fix n x t
    assume "?I (Suc n) x t"
    then obtain i sz where i: "x = (i, sz, PGROUNDUP sz)" "Suc n = ?n - i" "loading s pt img len elf i sz t" by blast
    then have lt: "i < ?n" by simp
    show "(\<exists>y u. load_elf_body pt img len elf x t = Ok (Inl y) u \<and> ?I n y u) \<or> (\<exists>r u. load_elf_body pt img len elf x t = Ok (Inr r) u \<and> ?Q r u)"
      using load_elf_step [OF as_wfD(1) [OF s(2)] s(3,4) lt i(3)]
    proof (elim disjE exE conjE)
      fix z u
      assume "load_elf_body pt img len elf (i, sz, PGROUNDUP sz) t = Ok (Inl (Suc i, z, PGROUNDUP z)) u" "loading s pt img len elf (Suc i) z u"
      then show ?thesis using i(1,2) lt by (intro disjI1 exI [of _ "(Suc i, z, PGROUNDUP z)"] exI [of _ u]) auto
    next
      fix u
      assume "load_elf_body pt img len elf (i, sz, PGROUNDUP sz) t = Ok (Inr (Inl (PGROUNDUP sz))) u"
        "user_step s u pt" "as_wf u pt (PGROUNDUP sz)" "headers_below elf \<longrightarrow> cannot_load s img len elf"
      then show ?thesis using i(1) by (intro disjI2 exI [of _ "Inl (PGROUNDUP sz)"] exI [of _ u]) simp
    qed
  next
    fix x t
    assume "?I 0 x t"
    then obtain sz where "x = (?n, sz, PGROUNDUP sz)" "loading s pt img len elf ?n sz t" by auto
    then show "\<exists>r u. load_elf_body pt img len elf x t = Ok (Inr r) u \<and> ?Q r u"
      by (intro exI [of _ "Inr (eh_entry elf, PGROUNDUP sz)"] exI [of _ t]) (auto simp: load_elf_body_def)
  qed
  then obtain r t where r: "load_elf pt img len s = Ok r t" "?Q r t" unfolding run by blast
  show ?thesis
  proof (cases r)
    case (Inl sz)
    then have "headers_below elf \<longrightarrow> cannot_load s img len elf" using r(2) by simp
    then have "headers_below elf \<longrightarrow> (\<forall>z. image_top (mem s) img len = Some z \<longrightarrow> 4096 * card (free_pages s) < unat (PGROUNDUP z) + 8388608)"
      unfolding top cannot_load_def by (auto simp: not_less [symmetric])
    then show ?thesis using failed [of sz t] r Inl by simp
  next
    case (Inr x)
    then obtain z where z: "x = (eh_entry elf, PGROUNDUP z)" "loading s pt img len elf ?n z t" using r(2) by (cases x) auto
    have all: "take ?n ?segs = ?segs" by (simp add: segments_def)
    have "headers_below elf \<longrightarrow> image_top (mem s) img len = image_end len ?segs USER_BASE"
      using z(2) headers_below_refused unfolding top loading_def by (auto simp: not_less [symmetric])
    then show ?thesis using loaded [of z t] r(1) Inr z unfolding loading_def all by simp
  qed
qed

text \<open>
  C35 (type). Whatever the bytes of the image are, \<open>load_elf\<close> into a fresh user page table ends without
  a panic and leaves a well-formed address space of the size it hands back, the one \<open>uvmfree\<close> needs: it changes
  no page but free ones and those of the table. Unless a program header starts in the last 32 bytes of the 32-bit
  range, where the test of its place wraps, \<open>load_elf\<close> succeeds only on a RISC-V executable with its headers in
  the file and segments that fit one above the other, and fails on such a one only when memory is short: the
  program then sees every segment, the bytes of the file followed by zeros, with the rights its header asks
  for and no others, and the size is the end of the last one.
\<close>

theorem load_elf_well_formed:
  assumes "mem_ready s" "as_wf s pt USER_BASE" "frames (mem s) pt = {}" "image_apart s pt img len"
  defines "elf \<equiv> elf_hdr_at (mem s) img"
  shows "\<exists>r t. load_elf pt img len s = Ok r t \<and> user_step s t pt
    \<and> (case r of
         Inl sz \<Rightarrow> as_wf t pt sz
           \<and> (headers_below elf \<longrightarrow>
               (\<forall>z. image_top (mem s) img len = Some z \<longrightarrow> 4096 * card (free_pages s) < unat (PGROUNDUP z) + 8388608))
       | Inr (ep, sz) \<Rightarrow> as_wf t pt sz \<and> ep = eh_entry elf
           \<and> (headers_below elf \<longrightarrow> map_option PGROUNDUP (image_top (mem s) img len) = Some sz
              \<and> (\<forall>p\<in>set (segments (mem s) img elf). loadable p \<longrightarrow> segment_seen (user_view (mem t) pt) (mem s) img p)))"
  using assms(1-4)
proof (cases rule: load_elf_spec)
  case (failed sz t)
  then show ?thesis by (intro exI [of _ "Inl sz"] exI [of _ t]) (simp add: elf_def)
next
  case (loaded z t)
  then show ?thesis by (intro exI [of _ "Inr (eh_entry elf, PGROUNDUP z)"] exI [of _ t]) (simp add: elf_def)
qed

text \<open>An executable of one segment, four bytes at 0x1000 and writable, placed in the kernel's memory.\<close>

definition tiny_elf :: "u8 list" where
  "tiny_elf = [0x7F, 0x45, 0x4C, 0x46, 1, 1, 1, 0, 0, 0, 0, 0, 0, 0, 0, 0, 2, 0, 243, 0, 1, 0, 0, 0,
     0, 0x10, 0, 0, 52, 0, 0, 0, 0, 0, 0, 0, 0, 0, 0, 0, 52, 0, 32, 0, 1, 0, 0, 0, 0, 0, 0, 0,
     1, 0, 0, 0, 84, 0, 0, 0, 0, 0x10, 0, 0, 0, 0x10, 0, 0, 4, 0, 0, 0, 4, 0, 0, 0, 6, 0, 0, 0, 0, 0x10, 0, 0,
     0x73, 0, 0, 0]"

definition tiny_mem :: memory where
  "tiny_mem a = (let k = unat (a - 0x80008000) in if k < 88 then tiny_elf ! k else 0)"

lemma tiny_headers:
  assumes "\<forall>a. in_block 0x80008000 88 a \<longrightarrow> m a = tiny_mem a"
  shows "elf_ok (elf_hdr_at m 0x80008000)" "eh_phoff (elf_hdr_at m 0x80008000) = 52" "eh_phnum (elf_hdr_at m 0x80008000) = 1"
    "eh_entry (elf_hdr_at m 0x80008000) = 0x1000"
    "prg_hdr_at m 0x80008034 = \<lparr>ph_type = 1, ph_offset = 84, ph_va = 0x1000, ph_pa = 0x1000, ph_filesz = 4, ph_memsz = 4,
       ph_flags = 6, ph_align = 0x1000\<rparr>"
proof -
  have "m (0x80008000 + of_nat k) = tiny_elf ! k" if "k < 88" for k
  proof -
    have "unat (of_nat k :: u32) = k" using that by (simp add: unat_of_nat_u32)
    then show ?thesis using assms that by (simp add: in_block_def tiny_mem_def)
  qed
  note b = this
  show "eh_phoff (elf_hdr_at m 0x80008000) = 52" "eh_phnum (elf_hdr_at m 0x80008000) = 1"
    "eh_entry (elf_hdr_at m 0x80008000) = 0x1000"
    using b [of 24] b [of 25] b [of 26] b [of 27] b [of 28] b [of 29] b [of 30] b [of 31] b [of 44] b [of 45]
    by (simp_all add: elf_hdr_at_def load32_def load16_def tiny_elf_def)
  show "elf_ok (elf_hdr_at m 0x80008000)"
    using b [of 0] b [of 1] b [of 2] b [of 3] b [of 4] b [of 16] b [of 17] b [of 18] b [of 19] b [of 42] b [of 43]
    by (simp add: elf_ok_def elf_hdr_at_def load32_def load16_def tiny_elf_def ELF_MAGIC_def ELFCLASS32_def ET_EXEC_def EM_RISCV_def PRG_HDR_SIZE_def)
  show "prg_hdr_at m 0x80008034 = \<lparr>ph_type = 1, ph_offset = 84, ph_va = 0x1000, ph_pa = 0x1000, ph_filesz = 4, ph_memsz = 4,
       ph_flags = 6, ph_align = 0x1000\<rparr>"
    using b [of 52] b [of 53] b [of 54] b [of 55] b [of 56] b [of 57] b [of 58] b [of 59] b [of 60] b [of 61] b [of 62] b [of 63]
      b [of 64] b [of 65] b [of 66] b [of 67] b [of 68] b [of 69] b [of 70] b [of 71] b [of 72] b [of 73] b [of 74] b [of 75]
      b [of 76] b [of 77] b [of 78] b [of 79] b [of 80] b [of 81] b [of 82] b [of 83]
    by (simp add: prg_hdr_at_def load32_def tiny_elf_def)
qed

lemma tiny_run:
  obtains s :: memst and pt where "mem_ready s" "as_wf s pt USER_BASE" "frames (mem s) pt = {}" "image_apart s pt 0x80008000 88"
    "30000 < card (free_pages s)" "\<forall>a. in_block 0x80008000 88 a \<longrightarrow> mem s a = tiny_mem a"
proof -
  let ?s = "large_mem\<lparr>mem := tiny_mem\<rparr>"
  have same: "free_pages ?s = free_pages large_mem" "mem_ready ?s" using ready_cong [of ?s large_mem] large_mem_ready by simp_all
  have ok: "tramp_ok 0x80008000" by (simp add: tramp_ok_def page_aligned_def KERNBASE_def MEM_END_def PAGE_SIZE_def)
  obtain pt s where s: "new_space ?s s pt" "translate (mem s) pt = user_kernel_map 0x80008000"
    using same(2) ok by (cases rule: init_userpt_spec) (auto simp: same large_mem_free)
  note n = new_spaceD [OF s(1)]
  have f: "frames (mem s) pt = {}" using user_kernel_map_no_user(1) [OF s(2)] by (simp add: frames_def)
  have no: "0x80008000 \<notin> free_pages ?s"
    unfolding same free_pages_image by (auto simp: large_mem_def unat_eq_iff_u32 unat_page_addr split: if_splits)
  have dn: "PGROUNDDOWN a = 0x80008000" if "in_block 0x80008000 88 a" for a
    using that page_step_iff [of "0x80008000" 0 a] by (simp add: in_block_def page_aligned_def)
  show ?thesis
  proof (rule that [of s pt])
    show "as_wf s pt USER_BASE"
      using as_wf_no_user [OF _ s(2) ok] n(3) by (simp add: user_wf_def page_aligned_def USER_BASE_def UART_0_def)
    show "image_apart s pt 0x80008000 88" using no n(4) by (simp add: image_apart_def dn)
    show "30000 < card (free_pages s)" using new_space_count [OF s(1)] f by (simp add: same large_mem_free)
    show "\<forall>a. in_block 0x80008000 88 a \<longrightarrow> mem s a = tiny_mem a"
      using mem_stepD(3) [OF n(1)] no dn by simp
  qed (use n(2) f in simp_all)
qed

theorem load_elf_well_formed_witness:
  "\<exists>(s :: memst) pt t. (\<forall>k<88. mem s (0x80008000 + of_nat k) = tiny_elf ! k)
    \<and> load_elf pt 0x80008000 88 s = Ok (Inr (0x1000, 0x2000)) t \<and> as_wf t pt 0x2000
    \<and> user_view (mem t) pt 0x1000 = Some (0x73, PTE_R OR PTE_U OR PTE_W OR PTE_V)"
proof -
  obtain s :: memst and pt where s: "mem_ready s" "as_wf s pt USER_BASE" "frames (mem s) pt = {}" "image_apart s pt 0x80008000 88"
    "30000 < card (free_pages s)" "\<forall>a. in_block 0x80008000 88 a \<longrightarrow> mem s a = tiny_mem a"
    by (rule tiny_run)
  let ?elf = "elf_hdr_at (mem s) 0x80008000" and ?p = "prg_hdr_at (mem s) 0x80008034"
  note h = tiny_headers [OF s(6)]
  have mem: "mem s (0x80008000 + of_nat k) = tiny_elf ! k" if "k < 88" for k
  proof -
    have "unat (of_nat k :: u32) = k" using that by (simp add: unat_of_nat_u32)
    then show ?thesis using s(6) that by (simp add: in_block_def tiny_mem_def)
  qed
  have seg: "segments (mem s) 0x80008000 ?elf = [?p]" using h(2,3) by (simp add: segments_def)
  have "headers_below ?elf" using h(2,3) by (simp add: headers_below_def)
  moreover have "loadable ?p" "\<not> segment_refused ?p 88 USER_BASE" "segment_flags ?p = PTE_R OR PTE_U OR PTE_W OR PTE_V"
    unfolding h(5) by (simp_all add: loadable_def PT_LOAD_def segment_refused_def USER_BASE_def UART_0_def PAGE_SIZE_def
        segment_flags_perm [symmetric] segment_perm_def PF_X_def PF_W_def)
  moreover from this(1,2) have "image_top (mem s) 0x80008000 88 = Some 0x1004"
    using h(1,2,3,5) seg by (simp add: image_top_def elf_ok_bytes Let_def USER_BASE_def)
  ultimately have "\<exists>t. load_elf pt 0x80008000 88 s = Ok (Inr (0x1000, 0x2000)) t \<and> as_wf t pt 0x2000
      \<and> segment_seen (user_view (mem t) pt) (mem s) 0x80008000 ?p"
    using load_elf_well_formed [OF s(1-4)] h(4) s(5) unfolding seg
    by (elim exE) (rename_tac r t, case_tac r; auto simp: PGROUNDUP_def PAGE_SIZE_def)
  then obtain t where t: "load_elf pt 0x80008000 88 s = Ok (Inr (0x1000, 0x2000)) t" "as_wf t pt 0x2000"
    "segment_seen (user_view (mem t) pt) (mem s) 0x80008000 ?p" by blast
  have "user_view (mem t) pt 0x1000 = Some (mem s (0x80008000 + of_nat 84), segment_flags ?p)"
    using t(3) unfolding h(5) segment_seen_def by (auto dest: spec [of _ 0])
  then show ?thesis
    using t(1,2) mem mem [of 84] \<open>segment_flags ?p = _\<close> by (intro exI [of _ s] exI [of _ pt] exI [of _ t]) (simp add: tiny_elf_def)
qed

text \<open>
  The test of a header's place adds before it compares: at the top of the 32-bit range the sum wraps, and a
  header that lies outside the image is accepted.
\<close>

lemma phdr_check_wraps:
  "\<exists>elf. \<not> phdr_refused elf 0 88 \<and> unat (phdr_off elf 0) + 32 > unat (88 :: u32)"
  by (rule exI [of _ "elf_hdr_at (\<lambda>_. 0xFF) 0"]) (simp add: phdr_refused_def phdr_off_def elf_hdr_at_def load32_def PRG_HDR_SIZE_def)

end
