(* ===== verification/Syscall.thy ===== *)
theory Syscall
  imports Exec
begin

text \<open>
  System calls (\<^verbatim>\<open>syscall.c\<close>, \<^verbatim>\<open>sysnum.h\<close>): fetching arguments from the trapframe, every \<^verbatim>\<open>sys_\<close> function
  and the dispatcher. Addresses the linker and the compiler choose, of symbols and of buffers in
  the current kernel stack frames, are the fields of a record.
\<close>

section \<open>Layout and numbers\<close>

record layout =
  l_tramp :: u32
  l_forkret :: u32
  l_imgs :: "string \<Rightarrow> u32 \<times> u32"
  l_xstate :: u32
  l_ustack :: u32
  l_path :: u32
  l_uarg :: u32
  l_kbuf :: u32

definition SYS_EXIT :: int where "SYS_EXIT = 1"
definition SYS_OPEN :: int where "SYS_OPEN = 2"
definition SYS_WAIT :: int where "SYS_WAIT = 3"
definition SYS_EXEC :: int where "SYS_EXEC = 4"
definition SYS_FORK :: int where "SYS_FORK = 5"
definition SYS_READ :: int where "SYS_READ = 6"
definition SYS_WRITE :: int where "SYS_WRITE = 7"
definition SYS_BRK :: int where "SYS_BRK = 8"
definition SYS_KILL :: int where "SYS_KILL = 9"
definition SYS_GETPID :: int where "SYS_GETPID = 10"
definition SYS_SLEEP :: int where "SYS_SLEEP = 11"
definition NSYSCALLS :: int where "NSYSCALLS = 12"

section \<open>Arguments\<close>

definition argraw :: "nat \<Rightarrow> 'a procst_scheme \<Rightarrow> (u32, 'a procst_scheme) res" where
  "argraw n s =
     kbind (myproc s) (\<lambda>p s.
       if n \<le> 5
       then (case p of None \<Rightarrow> Undef s | Some i \<Rightarrow> Ok (tf_get (p_tf (proctable s i)) (TF_regs (10 + n)) s) s)
       else kbind (error ''argraw'' s) (\<lambda>_ s. Ok (-1) s))"

definition argaddr :: "nat \<Rightarrow> 'a procst_scheme \<Rightarrow> (u32, 'a procst_scheme) res" where
  "argaddr n s = argraw n s"

definition argint :: "nat \<Rightarrow> 'a procst_scheme \<Rightarrow> (int, 'a procst_scheme) res" where
  "argint n s = kbind (argraw n s) (\<lambda>x s. Ok (sint x) s)"

section \<open>The calls\<close>

definition sys_exit :: "('a procst_scheme \<Rightarrow> 'a procst_scheme) \<Rightarrow> 'a procst_scheme \<Rightarrow> (u32, 'a procst_scheme) res" where
  "sys_exit others s =
     kbind (argint 0 s) (\<lambda>status s.
     kbind (kexit others (of_int status) s) (\<lambda>_ s. Undef s))"

definition sys_open :: "'s \<Rightarrow> (u32, 's) res" where "sys_open s = Ok (-1) s"
definition sys_read :: "'s \<Rightarrow> (u32, 's) res" where "sys_read s = Ok (-1) s"
definition sys_brk :: "'s \<Rightarrow> (u32, 's) res" where "sys_brk s = Ok (-1) s"
definition sys_kill :: "'s \<Rightarrow> (u32, 's) res" where "sys_kill s = Ok (-1) s"

definition sys_wait :: "layout \<Rightarrow> ('a procst_scheme \<Rightarrow> 'a procst_scheme) \<Rightarrow> 'a procst_scheme \<Rightarrow> (u32, 'a procst_scheme) res" where
  "sys_wait L others s =
     kbind (argaddr 0 s) (\<lambda>addr s.
     kbind (wait others addr (l_xstate L) s) (\<lambda>r s. Ok (of_int r) s))"

text \<open>
  The loop of \<open>sys_exec\<close> that copies the argument strings into the page \<open>buf\<close>. It carries the index,
  the bytes used and the array \<^verbatim>\<open>argv\<close>, and ends with the array or with \<open>None\<close> for a jump to \<^verbatim>\<open>out\<close>.
\<close>

definition copy_arg :: "layout \<Rightarrow> nat \<Rightarrow> u32 \<Rightarrow> u32 \<Rightarrow> nat \<times> u32 \<times> (nat \<Rightarrow> u32) \<Rightarrow> 'a procst_scheme
    \<Rightarrow> (nat \<times> u32 \<times> (nat \<Rightarrow> u32) + (nat \<Rightarrow> u32) option, 'a procst_scheme) res" where
  "copy_arg L p uargv buf = (\<lambda>(i, used, argv) s.
     kbind (copyin (p_pt (proctable s p)) (l_uarg L) (uargv + 4 * of_nat i) 4 s) (\<lambda>r s.
       if r < 0 then Ok (Inr None) s
       else let uarg = load32 (mem s) (l_uarg L)
         in if uarg = 0 then Ok (Inr (Some (argv(i := 0)))) s
            else if i = MAXARG then Ok (Inr None) s
            else let argv = argv(i := buf + used)
              in kbind (copyinstr (p_pt (proctable s p)) (argv i) uarg (PAGE_SIZE - used) s) (\<lambda>r s.
                if r < 0 then Ok (Inr None) s
                else case strlen (cstr_at (mem s) (argv i)) of
                    None \<Rightarrow> Blocked s
                  | Some l \<Rightarrow> Ok (Inl (Suc i, used + (l + 1), argv)) s)))"

definition sys_exec :: "layout \<Rightarrow> 'a procst_scheme \<Rightarrow> (u32, 'a procst_scheme) res" where
  "sys_exec L s =
     kbind (myproc s) (\<lambda>p s.
     kbind (argaddr 0 s) (\<lambda>upath s.
       case p of
         None \<Rightarrow> Undef s
       | Some p \<Rightarrow>
         kbind (copyinstr (p_pt (proctable s p)) (l_path L) upath MAXPATH s) (\<lambda>r s.
           if r < 0 then Ok (-1) s
           else kbind (argaddr 1 s) (\<lambda>uargv s.
             kbind (kalloc s) (\<lambda>buf s.
               if buf = 0 then Ok (-1) s
               else kbind (if uargv = 0 then Ok (Some ((\<lambda>_. 0)(0 := 0))) s
                           else kloop (copy_arg L p uargv buf) (0, 0, \<lambda>_. 0) s) (\<lambda>argv s.
                 kbind (case argv of
                          None \<Rightarrow> Ok (-1) s
                        | Some argv \<Rightarrow> kexec (l_imgs L) (l_tramp L) (l_ustack L) (l_path L) argv s) (\<lambda>ret s.
                   kbind (kfree buf s) (\<lambda>_ s. Ok (of_int ret) s))))))))"

definition sys_fork :: "layout \<Rightarrow> 'a procst_scheme \<Rightarrow> (u32, 'a procst_scheme) res" where
  "sys_fork L s = kbind (fork (l_tramp L) (l_forkret L) s) (\<lambda>r s. Ok (of_int r) s)"

text \<open>One chunk of \<open>sys_write\<close>; the loop carries \<^verbatim>\<open>wrote\<close> and ends with the return value.\<close>

definition write_chunk :: "layout \<Rightarrow> u32 \<Rightarrow> int \<Rightarrow> int \<Rightarrow> 'a procst_scheme \<Rightarrow> (int + u32, 'a procst_scheme) res" where
  "write_chunk L p_buf n wrote s =
     (if wrote < n
      then let chunk = (if n - wrote > 127 then 127 else n - wrote)
        in kbind (myproc s) (\<lambda>p s.
          case p of
            None \<Rightarrow> Undef s
          | Some p \<Rightarrow>
            kbind (copyin (p_pt (proctable s p)) (l_kbuf L) (p_buf + of_int wrote) (of_int chunk) s) (\<lambda>r s.
              if r = -1
              then kbind (printf (''sys_write: fault at %p'' @ [CHR 0x0A]) [VInt (p_buf + of_int wrote)] s) (\<lambda>_ s. Ok (Inr (-1)) s)
              else let s = s\<lparr>mem := (mem s)(l_kbuf L + of_int chunk := 0)\<rparr>
                in kbind (printf ''%s'' [VStr (cstr_at (mem s) (l_kbuf L))] s) (\<lambda>_ s. Ok (Inl (wrote + chunk)) s)))
      else Ok (Inr (of_int n)) s)"

definition sys_write :: "layout \<Rightarrow> 'a procst_scheme \<Rightarrow> (u32, 'a procst_scheme) res" where
  "sys_write L s =
     kbind (argint 0 s) (\<lambda>fd s.
     kbind (argaddr 1 s) (\<lambda>p_buf s.
     kbind (argint 2 s) (\<lambda>n s.
       if fd \<noteq> 1 then Ok (-1) s
       else if n < 0 \<or> n > 1024 then Ok (-1) s
       else kloop (write_chunk L p_buf n) 0 s)))"

definition sleep_tick :: "('a procst_scheme \<Rightarrow> 'a procst_scheme) \<Rightarrow> u32 \<Rightarrow> u32 \<Rightarrow> unit \<Rightarrow> 'a procst_scheme \<Rightarrow> (unit + unit, 'a procst_scheme) res" where
  "sleep_tick others start n = (\<lambda>_ s.
     if ticks s - start < n
     then kbind (sleep others (Some Ticks_chan) Ticks_lock s) (\<lambda>_ s. Ok (Inl ()) s)
     else Ok (Inr ()) s)"

definition sys_sleep :: "('a procst_scheme \<Rightarrow> 'a procst_scheme) \<Rightarrow> 'a procst_scheme \<Rightarrow> (u32, 'a procst_scheme) res" where
  "sys_sleep others s =
     kbind (argint 0 s) (\<lambda>n s.
       if n < 0 then Ok (-1) s
       else kbind (lock Ticks_lock s) (\<lambda>_ s.
         kbind (kloop (sleep_tick others (ticks s) (of_int n)) () s) (\<lambda>_ s.
         kbind (unlock Ticks_lock s) (\<lambda>_ s. Ok 0 s))))"

definition sys_getpid :: "'a procst_scheme \<Rightarrow> (u32, 'a procst_scheme) res" where
  "sys_getpid s =
     kbind (myproc s) (\<lambda>p s. case p of None \<Rightarrow> Undef s | Some i \<Rightarrow> Ok (of_int (p_pid (proctable s i))) s)"

section \<open>The dispatcher\<close>

definition syscalls :: "layout \<Rightarrow> ('a procst_scheme \<Rightarrow> 'a procst_scheme) \<Rightarrow> int
    \<Rightarrow> ('a procst_scheme \<Rightarrow> (u32, 'a procst_scheme) res) option" where
  "syscalls L others n =
     map_of [(SYS_EXIT, sys_exit others), (SYS_OPEN, sys_open), (SYS_WAIT, sys_wait L others), (SYS_EXEC, sys_exec L),
       (SYS_FORK, sys_fork L), (SYS_READ, sys_read), (SYS_WRITE, sys_write L), (SYS_BRK, sys_brk),
       (SYS_KILL, sys_kill), (SYS_GETPID, sys_getpid), (SYS_SLEEP, sys_sleep others)] n"

definition syscall :: "layout \<Rightarrow> ('a procst_scheme \<Rightarrow> 'a procst_scheme) \<Rightarrow> 'a procst_scheme \<Rightarrow> (unit, 'a procst_scheme) res" where
  "syscall L others s =
     kbind (myproc s) (\<lambda>p s.
       case p of
         None \<Rightarrow> Undef s
       | Some i \<Rightarrow>
         let num = sint (tf_get (p_tf (proctable s i)) (TF_regs 17) s);
             invalid = kbind (printf (''Error: Invalid syscall %d'' @ [CHR 0x0A]) [VInt (of_int num)] s) (\<lambda>_ s.
               Ok () (tf_set (p_tf (proctable s i)) (TF_regs 10) (-1) s))
         in if num \<le> 0 \<or> num \<ge> NSYSCALLS then invalid
            else case syscalls L others num of
                None \<Rightarrow> invalid
              | Some f \<Rightarrow> kbind (f s) (\<lambda>r s. Ok () (tf_set (p_tf (proctable s i)) (TF_regs 10) r s)))"

end
