(* ===== verification/Trap.thy ===== *)
theory Trap
  imports Syscall
begin

unbundle bit_operations_syntax

text \<open>
  Traps and start-up (\<^verbatim>\<open>trap.c\<close>, \<^verbatim>\<open>trap.h\<close>, \<^verbatim>\<open>boot_asm.S\<close>, \<^verbatim>\<open>boot.c\<close>, \<^verbatim>\<open>main.c\<close>): the clock, device interrupts, the handlers for
  traps from user and supervisor mode, the return to user mode, the configuration in machine
  mode and the initialisation of the kernel.
\<close>

section \<open>Clock and device interrupts\<close>

definition TIMEBASE_HZ :: u64 where "TIMEBASE_HZ = 10000000"
definition TICK_HZ :: u64 where "TICK_HZ = 100"
definition TIMER_INTERVAL :: u64 where "TIMER_INTERVAL = TIMEBASE_HZ div TICK_HZ"
definition SCAUSE_USER_ECALL :: u32 where "SCAUSE_USER_ECALL = 8"

definition init_clock :: "'a procst_scheme \<Rightarrow> 'a procst_scheme" where
  "init_clock s = (init_lock Ticks_lock ''ticks'' s)\<lparr>ticks := 0\<rparr>"

text \<open>\<open>ktrap\<close>, \<open>utrap\<close>: the addresses of \<^verbatim>\<open>kerneltrap\<close> and \<^verbatim>\<open>usertrap\<close>.\<close>

definition init_trap :: "u32 \<Rightarrow> 'a machine_scheme \<Rightarrow> 'a machine_scheme" where
  "init_trap ktrap s = w_stvec ktrap s"

definition clockintr :: "'a procst_scheme \<Rightarrow> (unit, 'a procst_scheme) res" where
  "clockintr s =
     (if cpu_id s = 0
      then kbind (lock Ticks_lock s) (\<lambda>_ s.
           kbind (wakeup (Some Ticks_chan) (s\<lparr>ticks := ticks s + 1\<rparr>)) (\<lambda>_ s. unlock Ticks_lock s))
      else Ok () s)"

text \<open>Setting the next deadline, at boot and on every tick.\<close>

definition next_deadline :: "'a machine_scheme \<Rightarrow> (unit, 'a machine_scheme) res" where
  "next_deadline s =
     (case r_time64 s of None \<Rightarrow> Blocked s | Some (now, s) \<Rightarrow> Ok () (w_stimecmp64 (now + TIMER_INTERVAL) s))"

definition devintr :: "u32 \<Rightarrow> 'a procst_scheme \<Rightarrow> (int, 'a procst_scheme) res" where
  "devintr scause s =
     (let code = scause AND 0x7FFFFFFF
      in if code = 1 then Ok 1 (w_sip (r_sip s AND NOT (push_bit 1 1)) s)
         else if code = 5 then kbind (next_deadline s) (\<lambda>_ s. kbind (clockintr s) (\<lambda>_ s. Ok 2 s))
         else if code = 9 then Ok 3 s
         else Ok 0 s)"

section \<open>Returning to user mode\<close>

text \<open>Up to the jump to \<^verbatim>\<open>usertrapret\<close>, with the trapframe in \<^verbatim>\<open>a0\<close>.\<close>

definition utrapret_setup :: "u32 \<Rightarrow> nat \<Rightarrow> 'a procst_scheme \<Rightarrow> 'a procst_scheme" where
  "utrapret_setup utrap i s =
     (let s = interrupt_off s;
          s = w_stvec utrap s;
          tf = p_tf (proctable s i);
          s = w_sscratch tf s;
          s = tf_set tf TF_k_sp (p_kstack (proctable s i) + PAGE_SIZE) s;
          s = tf_set tf TF_k_hartid (r_tp s) s;
          x = r_sstatus s;
          x = x AND NOT SSTATUS_SPP;
          x = x OR SSTATUS_SPIE;
          s = w_sstatus x s;
          s = w_sepc (tf_get tf TF_epc s) s;
          s = w_satp (MAKE_SATP (p_pt (proctable s i))) s
      in w_a0 tf s)"

definition utrapret :: "u32 \<Rightarrow> 'a procst_scheme \<Rightarrow> (u32, 'a procst_scheme) res" where
  "utrapret utrap s =
     kbind (myproc s) (\<lambda>p s.
       case p of
         None \<Rightarrow> Undef s
       | Some i \<Rightarrow> (let (pc, s) = usertrapret (utrapret_setup utrap i s) in Ok pc s))"

definition forkret :: "u32 \<Rightarrow> 'a procst_scheme \<Rightarrow> (u32, 'a procst_scheme) res" where
  "forkret utrap s =
     kbind (myproc s) (\<lambda>p s.
       case p of
         None \<Rightarrow> Undef s
       | Some i \<Rightarrow> kbind (unlock (Proc_lock i) s) (\<lambda>_ s. utrapret utrap s))"

section \<open>Handlers\<close>

text \<open>The result is the user program counter execution goes on at.\<close>

definition u_trap_work :: "layout \<Rightarrow> ('a procst_scheme \<Rightarrow> 'a procst_scheme) \<Rightarrow> nat \<Rightarrow> u32 \<Rightarrow> u32 \<Rightarrow> 'a procst_scheme
    \<Rightarrow> (int, 'a procst_scheme) res" where
  "u_trap_work L others i scause sepc s =
     (let tf = p_tf (proctable s i)
      in if scause AND 0x80000000 \<noteq> 0
         then kbind (devintr scause s) (\<lambda>dev s.
           if dev = 0
           then kbind (printf (''u_trap_handle: unexpected interrupt scause %p'' @ [CHR 0x0A]) [VInt scause] s) (\<lambda>_ s.
             panic ''u_trap_handle'' s)
           else Ok dev s)
         else if scause = SCAUSE_USER_ECALL
         then let s = tf_set tf TF_epc (tf_get tf TF_epc s + 4) s;
                  s = interrupt_on s
              in kbind (syscall L others s) (\<lambda>_ s. Ok 0 s)
         else kbind (printf (''pid %d (%s): killed, scause %p sepc %p stval %p'' @ [CHR 0x0A])
                [VInt (of_int (p_pid (proctable s i))), VStr (p_name (proctable s i)), VInt scause, VInt sepc, VInt (r_stval s)] s) (\<lambda>_ s.
              kbind (kexit others (-1) s) (\<lambda>_ s. Ok 0 s)))"

definition u_trap_handle :: "layout \<Rightarrow> u32 \<Rightarrow> ('a procst_scheme \<Rightarrow> 'a procst_scheme) \<Rightarrow> u32 \<Rightarrow> u32 \<Rightarrow> 'a procst_scheme
    \<Rightarrow> (u32, 'a procst_scheme) res" where
  "u_trap_handle L utrap others scause sepc s =
     (if r_sstatus s AND SSTATUS_SPP \<noteq> 0 then panic ''u_trap_handle: trap not from u-mode'' s
      else kbind (myproc s) (\<lambda>p s.
        case p of
          None \<Rightarrow> Undef s
        | Some i \<Rightarrow>
          kbind (u_trap_work L others i scause sepc (tf_set (p_tf (proctable s i)) TF_epc sepc s)) (\<lambda>dev s.
          kbind (if dev = 2 then yield others s else Ok () s) (\<lambda>_ s. utrapret utrap s))))"

definition s_trap_handle :: "('a procst_scheme \<Rightarrow> 'a procst_scheme) \<Rightarrow> u32 \<Rightarrow> u32 \<Rightarrow> 'a procst_scheme \<Rightarrow> (unit, 'a procst_scheme) res" where
  "s_trap_handle others scause sepc s =
     (let sstatus = r_sstatus s
      in if sstatus AND SSTATUS_SPP = 0 then panic ''s_trap_handle: trap not from s-mode'' s
         else if is_interrupt s then panic ''s_trap_handle: interrupts enabled'' s
         else kbind (myproc s) (\<lambda>p s.
           kbind (if scause AND 0x80000000 \<noteq> 0
             then kbind (devintr scause s) (\<lambda>dev s.
               if dev = 0
               then kbind (printf (''unexpected interrupt: scause %p, sepc %p'' @ [CHR 0x0A]) [VInt scause, VInt sepc] s) (\<lambda>_ s.
                 panic ''s_trap_handle'' s)
               else Ok dev s)
             else kbind (printf (''scause: %p'' @ [CHR 0x0A]) [VInt scause] (s\<lparr>hang := True\<rparr>)) (\<lambda>_ s.
               kbind (printf (''sepc:   %p'' @ [CHR 0x0A]) [VInt sepc] s) (\<lambda>_ s.
               kbind (printf (''stval:  %p (Bad Address)'' @ [CHR 0x0A]) [VInt (r_stval s)] s) (\<lambda>_ s.
                 panic ''unhandled exception in kernel'' s)))) (\<lambda>dev s.
           kbind (case p of
                    None \<Rightarrow> Ok () s
                  | Some i \<Rightarrow> if dev = 2 \<and> p_state (proctable s i) = RUNNING then yield others s else Ok () s) (\<lambda>_ s.
             Ok () (w_sstatus sstatus (w_sepc sepc s))))))"

section \<open>Start-up\<close>

definition MSTATUS_MPP_MASK :: u32 where "MSTATUS_MPP_MASK = push_bit 11 3"
definition MSTATUS_MPP_S :: u32 where "MSTATUS_MPP_S = push_bit 11 1"
definition SIE_SEIE :: u32 where "SIE_SEIE = push_bit 9 1"
definition SIE_STIE :: u32 where "SIE_STIE = push_bit 5 1"
definition SIE_SSIE :: u32 where "SIE_SSIE = push_bit 1 1"
definition MENVCFGH_STCE :: u32 where "MENVCFGH_STCE = push_bit 31 1"
definition MCOUNTEREN_TM :: u32 where "MCOUNTEREN_TM = push_bit 1 1"

text \<open>Up to \<^verbatim>\<open>mret\<close>, which goes on at \<^verbatim>\<open>mepc\<close>; \<open>mainp\<close> is the address of \<^verbatim>\<open>main\<close>.\<close>

definition boot :: "u32 \<Rightarrow> 'a machine_scheme \<Rightarrow> (u32, 'a machine_scheme) res" where
  "boot mainp s =
     (let mstatus = r_mstatus s;
          mstatus = mstatus AND NOT MSTATUS_MPP_MASK;
          mstatus = mstatus OR MSTATUS_MPP_S;
          s = w_mstatus mstatus s;
          s = w_mideleg 0xffff s;
          s = w_medeleg 0xffff s;
          s = w_satp 0 s;
          sie = r_sie s;
          s = w_sie (sie OR SIE_SEIE OR SIE_STIE OR SIE_SSIE) s;
          s = w_mepc mainp s;
          s = w_pmpaddr0 0xFFFFFFFF s;
          s = w_pmpcfg0 0xF s;
          s = w_menvcfgh (r_menvcfgh s OR MENVCFGH_STCE) s;
          s = w_mcounteren (r_mcounteren s OR MCOUNTEREN_TM) s
      in kbind (next_deadline s) (\<lambda>_ s. Ok (r_mepc s) s))"

text \<open>
  The first instructions of every hart (\<^verbatim>\<open>boot_asm.S\<close>): harts without a stack are parked, hart 0 clears \<^verbatim>\<open>.bss\<close>, then
  \<open>boot\<close> is called. \<open>stack\<close>, \<open>bss_start\<close> and \<open>bss_end\<close> are the linker's symbols.
\<close>

definition entry_bss :: "unit \<Rightarrow> 'a machine_scheme \<Rightarrow> (unit + unit, 'a machine_scheme) res" where
  "entry_bss = (\<lambda>_ s.
     if gprr 6 s \<le> gprr 5 s then Ok (Inr ()) s
     else let s = s\<lparr>mem := store32 (gprr 5 s) 0 (mem s)\<rparr> in Ok (Inl ()) (gprw 5 (gprr 5 s + 4) s))"

definition entry_asm :: "u32 \<Rightarrow> u32 \<Rightarrow> u32 \<Rightarrow> u32 \<Rightarrow> 'a machine_scheme \<Rightarrow> (u32, 'a machine_scheme) res" where
  "entry_asm stack bss_start bss_end mainp s =
     (let s = gprw 10 (r_mhartid s) s;
          s = gprw 5 (of_nat NCPU) s
      in if gprr 5 s \<le> gprr 10 s then Blocked s
         else let s = gprw 2 stack s;
                  s = gprw 5 4096 s;
                  s = gprw 5 (gprr 10 s * gprr 5 s) s;
                  s = gprw 2 (gprr 2 s - gprr 5 s) s;
                  s = gprw 4 (gprr 10 s) s
           in kbind (if gprr 10 s \<noteq> 0 then Ok () s
                     else kloop entry_bss () (gprw 6 bss_end (gprw 5 bss_start s))) (\<lambda>_ s. boot mainp s))"

text \<open>
  \<open>main\<close>. \<open>ends\<close> and \<open>etext\<close> are the linker's symbols, \<open>ktrap\<close> and
  \<open>uhandler\<close> the addresses of \<^verbatim>\<open>kerneltrap\<close> and \<^verbatim>\<open>u_trap_handle\<close>. The flag \<^verbatim>\<open>init\<close> is an argument: a hart
  other than 0 that finds it clear does not get past its loop.
\<close>

definition main_hart0 :: "layout \<Rightarrow> u32 \<Rightarrow> u32 \<Rightarrow> u32 \<Rightarrow> u32 \<Rightarrow> 'a procst_scheme \<Rightarrow> (unit, 'a procst_scheme) res" where
  "main_hart0 L ends etext ktrap uhandler s =
     (let s = set_cpu 0 (\<lambda>c. c\<lparr>c_id := 0\<rparr>) (uart_init s)
      in kbind (printf [CHR 0x0A] [] s) (\<lambda>_ s.
         kbind (printf (''wl-00 kernel is booting'' @ [CHR 0x0A]) [] s) (\<lambda>_ s.
         kbind (init_bitmap ends s) (\<lambda>_ s.
         kbind (init_kptable etext s) (\<lambda>_ s.
           let s = init_kvmhart s;
               s = init_clock s;
               s = init_trap ktrap s;
               s = init_proctable s
           in kbind (init_userproc (l_imgs L) (l_tramp L) (l_forkret L) ktrap uhandler s) (\<lambda>_ s.
                printf (''Main cpu %d initialized!'' @ [CHR 0x0A]) [VInt (r_tp s)] s))))))"

definition main :: "layout \<Rightarrow> ('a procst_scheme \<Rightarrow> 'a procst_scheme) \<Rightarrow> bool \<Rightarrow> u32 \<Rightarrow> u32 \<Rightarrow> u32 \<Rightarrow> u32 \<Rightarrow> 'a procst_scheme \<Rightarrow> (unit, 'a procst_scheme) res" where
  "main L others init ends etext ktrap uhandler s =
     kbind (if r_tp s = 0 then main_hart0 L ends etext ktrap uhandler s
            else if \<not> init then Blocked s
            else let s = set_cpu (unat (r_tp s)) (\<lambda>c. c\<lparr>c_id := sint (r_tp s)\<rparr>) s;
                     s = init_kvmhart s;
                     s = init_trap ktrap s
                 in printf (''cpu %d initialized'' @ [CHR 0x0A]) [VInt (r_tp s)] s) (\<lambda>_ s. scheduler others s)"

section \<open>The timer interrupt\<close>

lemma deadline_fields [simp]:
  "gprs (w_stimecmp64 x s) = gprs s" "mem (w_stimecmp64 x s) = mem s" "hang (w_stimecmp64 x s) = hang s"
  "mmio_in (w_stimecmp64 x s) = mmio_in s" "cpus (w_stimecmp64 x s) = cpus s" "locks (w_stimecmp64 x s) = locks s"
  "mem_bitmap (w_stimecmp64 x s) = mem_bitmap s" "start_page (w_stimecmp64 x s) = start_page s" "instant (w_stimecmp64 x s) = instant s"
  "proctable (w_stimecmp64 x s) = proctable s" "curr_pid (w_stimecmp64 x s) = curr_pid s" "ticks (w_stimecmp64 x s) = ticks s"
  "csrs (w_stimecmp64 x s) SSTATUS = csrs s SSTATUS"
  by (simp_all add: w_stimecmp64_def w_stimecmp64_steps_def csr_defs) (simp_all add: csrw_def csrr_def)

lemma deadline_set [simp]: "stimecmp64 (w_stimecmp64 x s) = x"
  by (simp add: w_stimecmp64_def w_stimecmp64_steps_def stimecmp64_def csr_defs join_halves Let_def)

lemma deadline_ready:
  fixes s :: "'a procst_scheme"
  shows "mem_ready (w_stimecmp64 x (s\<lparr>instant := n\<rparr>)) = mem_ready s"
  by (simp add: mem_ready_def alloc_wf_def kctx_def uart_live_def intr_ok_def is_interrupt_def lk_free_def hart_defs csr_defs csrr_def)

lemma kstep_ticks: "mem_ready s \<Longrightarrow> kstep s (s\<lparr>ticks := n\<rparr>) {}"
  using ready_cong(1) [of "s\<lparr>ticks := n\<rparr>" s] by (simp add: kstep_def with_data_def)

text \<open>Hart 0 counts a tick and wakes the sleepers on the tick counter; the other harts do nothing.\<close>

lemma clockintr_spec:
  assumes s: "mem_ready s" "procs_free s" "lk_free Ticks_lock s"
  obtains t where "clockintr s = Ok () t" "kstep s t {}" "mem t = mem s" "free_pages t = free_pages s" "curr_pid t = curr_pid s"
    "ticks t = (if cpu_id s = 0 then ticks s + 1 else ticks s)"
    "proctable t = (if cpu_id s = 0 then \<lambda>q. if q < NPROC then woken (Some Ticks_chan) (proctable s q) else proctable s q else proctable s)"
proof (cases "cpu_id s = 0")
  case True
  let ?e = "(enter Ticks_lock s)\<lparr>ticks := ticks s + 1\<rparr>"
  have same: "csrs ?e = csrs (enter Ticks_lock s)" "gprs ?e = gprs (enter Ticks_lock s)" "cpus ?e = cpus (enter Ticks_lock s)" by simp_all
  have re: "mem_ready (enter Ticks_lock s)" "free_pages (enter Ticks_lock s) = free_pages s" using enter_ready [OF s(1), of Ticks_lock] by simp_all
  have r: "mem_ready ?e" "free_pages ?e = free_pages s" using ready_cong(1,2) [of ?e "enter Ticks_lock s"] re by simp_all
  have pf: "procs_free ?e" using s(2) lk_free_enter [of Ticks_lock] by (simp add: procs_free_def lk_free_def) (simp add: enter_eq)
  obtain t where t: "wakeup (Some Ticks_chan) ?e = Ok () t" "same_memory ?e t" "curr_pid t = curr_pid ?e"
    "proctable t = (\<lambda>q. if q < NPROC then woken (Some Ticks_chan) (proctable s q) else proctable s q)"
    using wakeup_spec [OF r(1) pf, of "Some Ticks_chan"] by (auto cong: if_cong)
  have "kstep (enter Ticks_lock s) ?e {}" using kstep_ticks re(1) by blast
  then have st: "kstep (enter Ticks_lock s) t {}" using t(2) kstep_trans [of _ ?e "{}" t "{}"] by (simp add: same_memory_def)
  obtain u where u: "unlock Ticks_lock t = Ok () u" "kstep s u {}" "mem u = mem t" "proctable u = proctable t"
    "curr_pid u = curr_pid t" "ticks u = ticks t" "free_pages u = free_pages t"
    using unlock_kstep [OF s(3,1) _ _ st] by auto
  have "clockintr s = Ok () u" using True t(1) u(1) lock_free [OF s(3)] by (simp add: clockintr_def)
  then show ?thesis using that [of u] u t True r(2) by (simp add: same_memory_def)
next
  case False
  then show ?thesis using that [of s] kstep_refl [OF s(1)] by (simp add: clockintr_def)
qed

text \<open>
  C37 (functional). A timer interrupt is acknowledged with a new deadline, \<open>TIMER_INTERVAL\<close> after a value
  the counter had during the call. On hart 0 it also counts one tick and makes ready exactly the processes
  that wait for the tick counter, on the other harts it leaves counter and processes alone. Memory, locks,
  registers and the interrupt enable bit are as before.
\<close>

theorem timer_interrupt_ticks:
  assumes "mem_ready s" "procs_free s" "lk_free Ticks_lock s" "clock_mono s"
    and "unat (clock s (instant s + 5)) \<le> unat (clock s (instant s)) + 2 ^ 32" and "scause AND 0x7FFFFFFF = 5"
  shows "\<exists>k t. devintr scause s = Ok 2 t \<and> instant s \<le> k \<and> k \<le> instant s + 6 \<and> stimecmp64 t = clock s k + TIMER_INTERVAL
    \<and> ticks t = (if cpu_id s = 0 then ticks s + 1 else ticks s)
    \<and> (\<forall>q<NPROC. proctable t q =
         (if cpu_id s = 0 \<and> p_chan (proctable s q) = Some Ticks_chan \<and> p_state (proctable s q) = WAITING
          then (proctable s q)\<lparr>p_state := READY\<rparr> else proctable s q))
    \<and> mem t = mem s \<and> free_pages t = free_pages s \<and> gprs t = gprs s \<and> locks t = locks s \<and> is_interrupt t = is_interrupt s"
proof -
  obtain now n where r: "r_time64 s = Some (now, s\<lparr>instant := n\<rparr>)" "n \<le> instant s + 6" and k: "now = clock s (n - 2)" "instant s + 3 \<le> n"
  proof -
    obtain now s' where "r_time64 s = Some (now, s')" "instant s' \<le> instant s + 6" using r_time64_returns [OF assms(4,5)] by blast
    then show ?thesis using that [of now "instant s'"] r_time64_at_reads [of s "(now, s')"] assms(4) by auto
  qed
  let ?u = "w_stimecmp64 (now + TIMER_INTERVAL) (s\<lparr>instant := n\<rparr>)"
  have f: "mem_ready ?u" "procs_free ?u" "lk_free Ticks_lock ?u" "cpu_id ?u = cpu_id s" "free_pages ?u = free_pages s"
    using assms(1-3) by (simp_all add: deadline_ready procs_free_def lk_free_def cpu_id_def hart_defs free_pages_def)
  have g: "proctable ?u = proctable s" "ticks ?u = ticks s" "mem ?u = mem s" "gprs ?u = gprs s" "locks ?u = locks s" "is_interrupt ?u = is_interrupt s"
    by (simp_all add: is_interrupt_def csr_defs csrr_def)
  obtain t where t: "clockintr ?u = Ok () t" "kstep ?u t {}" "mem t = mem ?u" "free_pages t = free_pages ?u"
    "ticks t = (if cpu_id ?u = 0 then ticks ?u + 1 else ticks ?u)"
    "proctable t = (if cpu_id ?u = 0 then \<lambda>q. if q < NPROC then woken (Some Ticks_chan) (proctable ?u q) else proctable ?u q else proctable ?u)"
    by (rule clockintr_spec [OF f(1-3)])
  have "devintr scause s = Ok 2 t" using assms(6) r(1) t(1) by (simp add: devintr_def next_deadline_def)
  moreover have "stimecmp64 t = clock s (n - 2) + TIMER_INTERVAL"
    using kstepD(4) [OF t(2)] deadline_set [of "now + TIMER_INTERVAL" "s\<lparr>instant := n\<rparr>"] k(1) by (simp add: stimecmp64_def csr_defs csrr_def)
  moreover have "is_interrupt t = is_interrupt s" using kstepD(4) [OF t(2)] g(6) by (simp add: is_interrupt_def csr_defs csrr_def)
  ultimately show ?thesis
    using r(2) k(2) t(3-6) f(4,5) g kstepD(3,5) [OF t(2)] by (intro exI [of _ "n - 2"] exI [of _ t]) (auto simp: woken_def)
qed

theorem timer_interrupt_ticks_witness:
  "\<exists>t. devintr 0x80000005 (set_proc 3 (\<lambda>p. p\<lparr>p_state := WAITING, p_chan := Some Ticks_chan\<rparr>) boot_procs) = Ok 2 t
    \<and> stimecmp64 t = 100000 \<and> ticks t = 1 \<and> p_state (proctable t 3) = READY"
proof -
  let ?s = "set_proc 3 (\<lambda>p. p\<lparr>p_state := WAITING, p_chan := Some Ticks_chan\<rparr>) boot_procs"
  note defs = boot_procs_def vmst.defs memst.defs procst.defs large_mem_def small_mem_def lockst.defs idle_locks_def console.defs idle_console_def
  have b: "clock boot_procs = (\<lambda>_. 0)" "gprs boot_procs = (\<lambda>_. 0)" "ticks boot_procs = 0" by (simp_all add: defs)
  then have c: "clock ?s = (\<lambda>_. 0)" "cpu_id ?s = 0" "ticks ?s = 0" by (simp_all add: set_proc_def cpu_id_def hart_defs)
  have "mem_ready ?s" "procs_free ?s" "lk_free Ticks_lock ?s" "clock_mono ?s"
    using boot_procs_ready(1-3) c(1) by (simp_all add: procs_free_def lk_free_def clock_mono_def)
  moreover have "unat (clock ?s (instant ?s + 5)) \<le> unat (clock ?s (instant ?s)) + 2 ^ 32" using c(1) by simp
  ultimately show ?thesis
    using timer_interrupt_ticks [of ?s "0x80000005"] c unfolding TIMER_INTERVAL_def TIMEBASE_HZ_def TICK_HZ_def
    by (auto simp: NPROC_def)
qed

section \<open>Entering user mode\<close>

lemma usertrapret_keeps:
  "c \<noteq> SSCRATCH \<Longrightarrow> c \<noteq> SSTATUS \<Longrightarrow> csrs (snd (usertrapret t)) c = csrs t c" "mem (snd (usertrapret t)) = mem t"
  "r_sstatus t AND SSTATUS_SPIE \<noteq> 0 \<Longrightarrow> is_interrupt (snd (usertrapret t))"
proof -
  show "c \<noteq> SSCRATCH \<Longrightarrow> c \<noteq> SSTATUS \<Longrightarrow> csrs (snd (usertrapret t)) c = csrs t c" "mem (snd (usertrapret t)) = mem t"
    by (simp_all add: usertrapret_def sret_def Let_def lw_all_get lw_def gprw_def gprr_def csrw_def csrr_def w_sscratch_def)
  have "(((x OR SSTATUS_SIE) OR SSTATUS_SPIE) AND NOT SSTATUS_SPP) AND SSTATUS_SIE \<noteq> 0" for x :: u32
    unfolding SIE_set_iff by (simp add: bit_and_iff bit_or_iff bit_not_iff SIE_bit) (simp add: SSTATUS_SPP_def)
  then show "r_sstatus t AND SSTATUS_SPIE \<noteq> 0 \<Longrightarrow> is_interrupt (snd (usertrapret t))"
    by (simp add: usertrapret_def sret_def Let_def lw_all_get lw_def gprw_def gprr_def csrw_def csrr_def w_sscratch_def
      r_sstatus_def is_interrupt_def)
qed

lemma page_aligned_word: "page_aligned p \<Longrightarrow> unat p mod 4 = 0"
  using mod_mod_cancel [of 4 4096 "unat p"] by (simp add: page_aligned_def)

text \<open>Storing one word of a frame leaves the others.\<close>

lemma frame_word_other:
  assumes "page_aligned tf" "o1 < 4096" "o2 < 4096" "o1 mod 4 = 0" "o2 mod 4 = 0" "o1 \<noteq> o2"
  shows "load32 (store32 (tf + of_nat o1) v m) (tf + of_nat o2) = load32 m (tf + of_nat o2)"
proof -
  have "unat tf mod 4 = 0" by (rule page_aligned_word [OF assms(1)])
  then show ?thesis using assms(2-6) word_addr_aligned [of tf] word_addr_eq [of o1 o2 tf] by (intro load32_store32_other) auto
qed

definition user_frame_mem :: "u32 \<Rightarrow> u32 \<Rightarrow> u32 \<Rightarrow> memory \<Rightarrow> memory" where
  "user_frame_mem tf ksp hart m = store32 (tf + 148) hart (store32 tf ksp m)"

lemma user_frame_mem_words:
  assumes al: "page_aligned tf"
  shows "load32 (user_frame_mem tf ksp hart m) tf = ksp" "load32 (user_frame_mem tf ksp hart m) (tf + 148) = hart"
    "off mod 4 = 0 \<Longrightarrow> off < 4096 \<Longrightarrow> off \<noteq> 0 \<Longrightarrow> off \<noteq> 148 \<Longrightarrow> load32 (user_frame_mem tf ksp hart m) (tf + of_nat off) = load32 m (tf + of_nat off)"
  using frame_word_other [OF al, of 148 0 hart "store32 tf ksp m"] frame_word_other [OF al, of 148 off hart "store32 tf ksp m"]
    frame_word_other [OF al, of 0 off ksp m] by (simp_all add: user_frame_mem_def load32_store32)

lemma clear_then_set: "c AND b = 0 \<Longrightarrow> (x AND NOT b OR c) AND b = (0 :: u32)"
  by (simp add: bit.conj_disj_distrib2 and.assoc)

lemma user_status_bits:
  fixes x :: u32
  defines "y \<equiv> (x AND NOT SSTATUS_SIE) AND NOT SSTATUS_SPP OR SSTATUS_SPIE"
  shows "y AND SSTATUS_SPP = 0" "y AND SSTATUS_SPIE \<noteq> 0" "y AND SSTATUS_SIE = 0"
proof -
  have "SSTATUS_SPIE AND SSTATUS_SPP = 0" "SSTATUS_SPIE AND SSTATUS_SIE = 0" "SSTATUS_SPIE \<noteq> 0"
    by (simp_all add: SSTATUS_SPP_def SSTATUS_SPIE_def SSTATUS_SIE_def)
  note k = this
  show "y AND SSTATUS_SPP = 0" unfolding y_def by (rule clear_then_set [OF k(1)])
  have "y = (x AND NOT SSTATUS_SPP) AND NOT SSTATUS_SIE OR SSTATUS_SPIE" by (simp add: y_def ac_simps)
  then show "y AND SSTATUS_SIE = 0" using clear_then_set [OF k(2)] by simp
  show "y AND SSTATUS_SPIE \<noteq> 0" using k(3) unfolding y_def bit.conj_disj_distrib2 by (simp add: or_eq_0_iff)
qed

lemma utrapret_setup_facts:
  fixes s :: "'a procst_scheme" and utrap :: u32
  assumes al: "page_aligned (p_tf (proctable s i))"
  defines "u \<equiv> utrapret_setup utrap i s" and "tf \<equiv> p_tf (proctable s i)"
  shows "gprs u 10 = tf" "mem u = user_frame_mem tf (p_kstack (proctable s i) + PAGE_SIZE) (r_tp s) (mem s)"
    "r_sepc u = tf_get tf TF_epc s" "r_satp u = MAKE_SATP (p_pt (proctable s i))" "r_stvec u = utrap AND NOT 3"
    "r_sstatus u AND SSTATUS_SPP = 0" "r_sstatus u AND SSTATUS_SPIE \<noteq> 0" "\<not> is_interrupt u"
proof -
  note w = user_frame_mem_words(3) [OF al, of 16, unfolded user_frame_mem_def]
  show "gprs u 10 = tf" "mem u = user_frame_mem tf (p_kstack (proctable s i) + PAGE_SIZE) (r_tp s) (mem s)"
    "r_sepc u = tf_get tf TF_epc s" "r_satp u = MAKE_SATP (p_pt (proctable s i))" "r_stvec u = utrap AND NOT 3"
    using w by (simp_all add: u_def tf_def utrapret_setup_def Let_def w_a0_def gprw_def tf_set_def tf_get_def user_frame_mem_def TF_k_sp_def
        TF_k_hartid_def TF_epc_def interrupt_off_def csr_defs csrw_def csrr_def w_stvec_def w_sscratch_def w_sepc_def w_satp_def
        r_sepc_def r_satp_def r_stvec_def r_tp_def gprr_def)
  show "r_sstatus u AND SSTATUS_SPP = 0" "r_sstatus u AND SSTATUS_SPIE \<noteq> 0" "\<not> is_interrupt u"
    using user_status_bits [of "r_sstatus s"]
    by (simp_all add: u_def utrapret_setup_def Let_def w_a0_def gprw_def tf_set_def interrupt_off_def is_interrupt_def csr_defs csrw_def csrr_def
        w_stvec_def w_sscratch_def w_sepc_def w_satp_def)
qed

lemma frame_in_page:
  assumes "page_aligned tf" "off mod 4 = 0" "off < 4096" "in_block (tf + of_nat off) 4 x"
  shows "PGROUNDDOWN x = tf"
proof -
  have "off + 4 \<le> 4096" using assms(2,3) by presburger
  then show ?thesis using in_block_shift [OF assms(4)] in_page_iff [OF assms(1), of x] by simp
qed

lemma in_process_frame:
  assumes "in_process s i"
  shows "page_aligned (p_tf (proctable s i))"
  using in_processD [OF assms] table_wfD [of s] heap_page_facts [of s "p_tf (proctable s i)"] by (auto simp: slot_wf_def)

lemma next_trap:
  fixes v :: "'b machine_scheme"
  assumes al: "page_aligned tf" and v: "r_sscratch v = tf" "\<And>x. PGROUNDDOWN x = tf \<Longrightarrow> mem v x = user_frame_mem tf ksp hart m x"
  shows "gprs (snd (usertrap v)) 2 = ksp" "gprs (snd (usertrap v)) 4 = hart" "fst (usertrap v) = load32 m (tf + 12)"
    "r_satp (snd (usertrap v)) = load32 m (tf + 8)" "r_stvec (snd (usertrap v)) = load32 m (tf + 4)"
proof -
  have a4: "unat tf mod 4 = 0" by (rule page_aligned_word [OF al])
  have same: "load32 (mem v) (tf + of_nat off) = load32 (user_frame_mem tf ksp hart m) (tf + of_nat off)" if "off mod 4 = 0" "off < 4096" for off
    using frame_in_page [OF al that] v(2) by (intro load32_cong) blast
  note w = user_frame_words(4) [OF a4, of _ "r_sepc v" "gprs v 10" "(gprs v)(10 := tf)" "mem v"]
  note r = usertrap_run [where s = v, unfolded v(1)]
  show "gprs (snd (usertrap v)) 2 = ksp" "gprs (snd (usertrap v)) 4 = hart" "fst (usertrap v) = load32 m (tf + 12)"
    "r_satp (snd (usertrap v)) = load32 m (tf + 8)" "r_stvec (snd (usertrap v)) = load32 m (tf + 4)"
    using r w [of 0] w [of 4] w [of 8] w [of 12] w [of 148] same [of 0] same [of 4] same [of 8] same [of 12] same [of 148]
      user_frame_mem_words(1,2) [OF al, of ksp hart m] user_frame_mem_words(3) [OF al, of 4 ksp hart m]
      user_frame_mem_words(3) [OF al, of 8 ksp hart m] user_frame_mem_words(3) [OF al, of 12 ksp hart m] by simp_all
qed

text \<open>
  C36 (functional). \<open>utrapret\<close> puts the process on the hart. The state it sets up, which \<^verbatim>\<open>usertrapret\<close> is
  then run in, has the previous mode set to user and interrupts off, so that the final \<^verbatim>\<open>sret\<close> leaves for user
  mode and nothing comes in between. Execution goes on at the saved program counter with interrupts enabled, all thirty-one registers are those of the trapframe, the page table is
  the one of the process and the trap vector is \<^verbatim>\<open>usertrap\<close>. Of memory only the trapframe changes. The next trap
  finds there what it needs on this hart, whatever the program has done to the registers: the top of the
  process's kernel stack, the hart's number, the kernel's page table and handler.
\<close>

theorem utrapret_enters_user:
  fixes s :: "'a procst_scheme"
  assumes "in_process s i"
  defines "tf \<equiv> p_tf (proctable s i)"
  shows "\<exists>z t. myproc s = Ok (Some i) z \<and> utrapret utrap s = Ok (tf_get tf TF_epc s) t
    \<and> usertrapret (utrapret_setup utrap i z) = (tf_get tf TF_epc s, t)
    \<and> r_sstatus (utrapret_setup utrap i z) AND SSTATUS_SPP = 0 \<and> \<not> is_interrupt (utrapret_setup utrap i z) \<and> is_interrupt t
    \<and> (\<forall>r\<in>{1..31}. gprs t r = tf_get tf (TF_regs r) s)
    \<and> r_satp t = MAKE_SATP (p_pt (proctable s i)) \<and> r_stvec t = utrap AND NOT 3 \<and> r_sscratch t = tf
    \<and> (\<forall>x. PGROUNDDOWN x \<noteq> tf \<longrightarrow> mem t x = mem s x)
    \<and> (\<forall>v :: 'a procst_scheme. r_sscratch v = tf \<and> (\<forall>x. PGROUNDDOWN x = tf \<longrightarrow> mem v x = mem t x) \<longrightarrow>
         gprs (snd (usertrap v)) 2 = p_kstack (proctable s i) + PAGE_SIZE \<and> gprs (snd (usertrap v)) 4 = r_tp s
         \<and> fst (usertrap v) = tf_get tf TF_u_trap s \<and> r_satp (snd (usertrap v)) = tf_get tf TF_k_satp s
         \<and> r_stvec (snd (usertrap v)) = tf_get tf TF_k_trap s)"
proof -
  note d = in_processD [OF assms(1)]
  have al: "page_aligned tf" using in_process_frame [OF assms(1)] by (simp add: tf_def)
  let ?s = "touch s" and ?ks = "p_kstack (proctable s i) + PAGE_SIZE"
  have same: "proctable ?s = proctable s" "mem ?s = mem s" "r_tp ?s = r_tp s" by (simp_all add: touch_def set_cpu_def r_tp_def gprr_def)
  let ?u = "utrapret_setup utrap i ?s"
  let ?t = "snd (usertrapret ?u)" and ?m = "user_frame_mem tf ?ks (r_tp s) (mem s)"
  have "page_aligned (p_tf (proctable ?s i))" using al by (simp add: same tf_def)
  note u = utrapret_setup_facts [OF this, of utrap, unfolded same, folded tf_def]
  note r = usertrapret_run [where t = ?u, unfolded u(1,2)]
  have get: "tf_get tf off ?s = tf_get tf off s" for off by (simp add: tf_get_def same)
  have mt: "mem ?t = ?m" by (simp add: usertrapret_keeps(2) u(2))
  have run: "myproc s = Ok (Some i) ?s" "utrapret utrap s = Ok (tf_get tf TF_epc s) ?t" "usertrapret ?u = (tf_get tf TF_epc s, ?t)"
    using myproc_touch [OF d(1)] d(6) r(1) u(3) get by (simp_all add: utrapret_def split_beta prod_eq_iff)
  have regs: "gprs ?t q = tf_get tf (TF_regs q) s" if q: "q \<in> {1..31}" for q
  proof -
    have "(20 + 4 * q) mod 4 = 0" by presburger
    then have "load32 ?m (tf + of_nat (20 + 4 * q)) = load32 (mem s) (tf + of_nat (20 + 4 * q))"
      using q by (intro user_frame_mem_words(3) [OF al]) auto
    moreover have "gprs ?t q = load32 ?m (tf + of_nat (20 + 4 * q))" using r(3,4) q by (cases "q = 10") simp_all
    ultimately show ?thesis by (simp add: tf_get_def TF_regs_def)
  qed
  have other: "mem ?t x = mem s x" if "PGROUNDDOWN x \<noteq> tf" for x
  proof -
    have "\<not> in_block tf 4 x" "\<not> in_block (tf + 148) 4 x"
      using that frame_in_page [OF al, of 0 x] frame_in_page [OF al, of 148 x] by auto
    then show ?thesis unfolding mt user_frame_mem_def by (simp add: store32_other)
  qed
  have nxt: "gprs (snd (usertrap v)) 2 = ?ks \<and> gprs (snd (usertrap v)) 4 = r_tp s \<and> fst (usertrap v) = tf_get tf TF_u_trap s
      \<and> r_satp (snd (usertrap v)) = tf_get tf TF_k_satp s \<and> r_stvec (snd (usertrap v)) = tf_get tf TF_k_trap s"
    if v: "r_sscratch v = tf" "\<And>x. PGROUNDDOWN x = tf \<Longrightarrow> mem v x = mem ?t x" for v :: "'a procst_scheme"
    using next_trap [OF al v(1), of ?ks "r_tp s" "mem s"] v(2) unfolding mt
    by (simp add: tf_get_def TF_u_trap_def TF_k_satp_def TF_k_trap_def)
  show ?thesis
    using run u(6,8) usertrapret_keeps(3) [OF u(7)] regs r(2) other nxt usertrapret_keeps(1) [of SATP ?u] usertrapret_keeps(1) [of STVEC ?u] u(4,5)
    by (intro exI [of _ ?s] exI [of _ ?t]) (simp add: r_satp_def r_stvec_def csrr_def)
qed

theorem utrapret_enters_user_witness:
  "\<exists>(s :: procst) i t. in_process s i \<and> utrapret 0x80009000 s = Ok (tf_get (p_tf (proctable s i)) TF_epc s) t
    \<and> gprs t 10 = tf_get (p_tf (proctable s i)) (TF_regs 10) s \<and> r_stvec t = 0x80009000"
proof -
  obtain s :: procst and i where s: "in_process s i" by (rule small_process)
  obtain t where "utrapret 0x80009000 s = Ok (tf_get (p_tf (proctable s i)) TF_epc s) t" "r_stvec t = 0x80009000 AND NOT 3"
    "\<forall>r\<in>{1..31}. gprs t r = tf_get (p_tf (proctable s i)) (TF_regs r) s"
    using utrapret_enters_user [OF s, of "0x80009000"] by blast
  then show ?thesis using s by (intro exI [of _ s] exI [of _ i] exI [of _ t]) simp
qed

end
