(* ===== verification/User_Lib.thy ===== *)
theory User_Lib
  imports Memory
begin

text \<open>
  The library of the user programs (\<^verbatim>\<open>user/ulib.c\<close>, \<^verbatim>\<open>user/printf.c\<close>, \<^verbatim>\<open>user/echo.c\<close>). Names the kernel also uses
  carry the prefix \<open>u_\<close>. Memory is the program's own; the system call \<^verbatim>\<open>write\<close> on descriptor 1 is the
  argument \<open>wr\<close>, a change of whatever the bytes go to. The user routines agree with the kernel's,
  and the fixed buffer of \<open>printint\<close> is never overrun.
\<close>

section \<open>Strings and memory\<close>

partial_function (option) u_strlen_from :: "cptr \<Rightarrow> nat \<Rightarrow> u32 \<Rightarrow> u32 option" where
  "u_strlen_from str i count = (if str i \<noteq> 0 then u_strlen_from str (Suc i) (count + 1) else Some count)"

definition u_strlen :: "cptr \<Rightarrow> u32 option" where
  "u_strlen str = u_strlen_from str 0 0"

partial_function (option) u_strcmp_from :: "cptr \<Rightarrow> cptr \<Rightarrow> nat \<Rightarrow> int option" where
  "u_strcmp_from a b i =
     (if a i \<noteq> 0 \<and> a i = b i then u_strcmp_from a b (Suc i) else Some (uint (a i) - uint (b i)))"

definition u_strcmp :: "cptr \<Rightarrow> cptr \<Rightarrow> int option" where
  "u_strcmp a b = u_strcmp_from a b 0"

text \<open>The counter of the loops is \<^verbatim>\<open>len\<close> itself, unsigned.\<close>

fun u_memset_loop :: "nat \<Rightarrow> u32 \<Rightarrow> u8 \<Rightarrow> memory \<Rightarrow> memory" where
  "u_memset_loop 0 p v m = m"
| "u_memset_loop (Suc len) p v m = u_memset_loop len (p + 1) v (m(p := v))"

definition u_memset :: "u32 \<Rightarrow> u32 \<Rightarrow> u32 \<Rightarrow> 'a machine_scheme \<Rightarrow> (u32, 'a machine_scheme) res" where
  "u_memset dst val len s = Ok dst (s\<lparr>mem := u_memset_loop (unat len) dst (ucast val) (mem s)\<rparr>)"

fun u_forwards :: "nat \<Rightarrow> u32 \<Rightarrow> u32 \<Rightarrow> memory \<Rightarrow> memory" where
  "u_forwards 0 d s m = m"
| "u_forwards (Suc len) d s m = u_forwards len (d + 1) (s + 1) (m(d := m s))"

fun u_backwards :: "nat \<Rightarrow> u32 \<Rightarrow> u32 \<Rightarrow> memory \<Rightarrow> memory" where
  "u_backwards 0 d s m = m"
| "u_backwards (Suc len) d s m = u_backwards len (d - 1) (s - 1) (m(d - 1 := m (s - 1)))"

definition u_memmove :: "u32 \<Rightarrow> u32 \<Rightarrow> u32 \<Rightarrow> 'a machine_scheme \<Rightarrow> (u32, 'a machine_scheme) res" where
  "u_memmove dst src len s =
     (if dst < src then Ok dst (s\<lparr>mem := u_forwards (unat len) dst src (mem s)\<rparr>)
      else Ok dst (s\<lparr>mem := u_backwards (unat len) (dst + len) (src + len) (mem s)\<rparr>))"

definition u_memcpy :: "u32 \<Rightarrow> u32 \<Rightarrow> u32 \<Rightarrow> 'a machine_scheme \<Rightarrow> (u32, 'a machine_scheme) res" where
  "u_memcpy dst src len s = u_memmove dst src len s"

section \<open>Formatted output\<close>

definition u_putc :: "(u8 list \<Rightarrow> 'o \<Rightarrow> 'o) \<Rightarrow> u8 \<Rightarrow> 'o \<Rightarrow> 'o" where
  "u_putc wr c out = wr [c] out"

text \<open>
  The digit loop of \<open>printint\<close>. The list is the filled part of \<^verbatim>\<open>char buf[12]\<close>: a store past its end
  is undefined behaviour.
\<close>

definition u_store :: "u8 \<Rightarrow> u8 list \<Rightarrow> 's \<Rightarrow> (u8 list, 's) res" where
  "u_store c buf s = (if length buf < 12 then Ok (buf @ [c]) s else Undef s)"

definition u_digit :: "u32 \<Rightarrow> u8 list \<times> u32 \<Rightarrow> 's \<Rightarrow> (u8 list \<times> u32 + u8 list, 's) res" where
  "u_digit base = (\<lambda>(buf, u) s.
     kbind (u_store (lit ''0123456789abcdef'' (unat (u mod base))) buf s) (\<lambda>buf s.
       let u = u div base
       in if u \<noteq> 0 then Ok (Inl (buf, u)) s else Ok (Inr buf) s))"

definition u_printint :: "(u8 list \<Rightarrow> 'o \<Rightarrow> 'o) \<Rightarrow> u32 \<Rightarrow> u32 \<Rightarrow> bool \<Rightarrow> 'o \<Rightarrow> (unit, 'o) res" where
  "u_printint wr x base sign out =
     (let (u, sign) = (if sign \<and> sint x < 0 then (- x, sign) else (x, False))
      in kbind (kloop (u_digit base) ([], u) out) (\<lambda>buf out.
         kbind (if sign then u_store (of_char (CHR ''-'')) buf out else Ok buf out) (\<lambda>buf out.
           Ok () (fold (u_putc wr) (rev buf) out))))"

text \<open>Arguments of \<^verbatim>\<open>printf\<close>: a null string pointer is \<open>None\<close>.\<close>

datatype u_arg = UInt u32 | UStr "cptr option"

definition u_puts_body :: "(u8 list \<Rightarrow> 'o \<Rightarrow> 'o) \<Rightarrow> cptr \<Rightarrow> nat \<Rightarrow> 'o \<Rightarrow> (nat + unit, 'o) res" where
  "u_puts_body wr str i out = (if str i \<noteq> 0 then Ok (Inl (Suc i)) (u_putc wr (str i) out) else Ok (Inr ()) out)"

fun u_printf :: "(u8 list \<Rightarrow> 'o \<Rightarrow> 'o) \<Rightarrow> string \<Rightarrow> u_arg list \<Rightarrow> 'o \<Rightarrow> (unit, 'o) res" where
  "u_printf wr [] ap out = Ok () out"
| "u_printf wr (c # fmt) ap out =
     (if c \<noteq> CHR ''%'' then u_printf wr fmt ap (u_putc wr (of_char c) out)
      else case fmt of
        [] \<Rightarrow> Ok () out
      | f # fmt' \<Rightarrow>
        (if f = CHR ''d'' then
           (case ap of UInt n # ap' \<Rightarrow> kbind (u_printint wr n 10 True out) (\<lambda>_ out. u_printf wr fmt' ap' out) | _ \<Rightarrow> Undef out)
         else if f = CHR ''x'' then
           (case ap of UInt n # ap' \<Rightarrow> kbind (u_printint wr n 16 False out) (\<lambda>_ out. u_printf wr fmt' ap' out) | _ \<Rightarrow> Undef out)
         else if f = CHR ''p'' then
           (case ap of UInt n # ap' \<Rightarrow>
              kbind (u_printint wr n 16 False (u_putc wr (of_char (CHR ''x'')) (u_putc wr (of_char (CHR ''0'')) out)))
                (\<lambda>_ out. u_printf wr fmt' ap' out) | _ \<Rightarrow> Undef out)
         else if f = CHR ''s'' then
           (case ap of UStr p # ap' \<Rightarrow>
              kbind (kloop (u_puts_body wr (case p of None \<Rightarrow> lit ''(null)'' | Some str \<Rightarrow> str)) 0 out)
                (\<lambda>_ out. u_printf wr fmt' ap' out) | _ \<Rightarrow> Undef out)
         else if f = CHR ''c'' then
           (case ap of UInt n # ap' \<Rightarrow> u_printf wr fmt' ap' (u_putc wr (ucast n) out) | _ \<Rightarrow> Undef out)
         else if f = CHR ''%'' then u_printf wr fmt' ap (u_putc wr (of_char (CHR ''%'')) out)
         else u_printf wr fmt' ap (u_putc wr (of_char f) (u_putc wr (of_char (CHR ''%'')) out))))"

text \<open>\<^verbatim>\<open>main\<close> of \<^verbatim>\<open>echo\<close>, its arguments after \<^verbatim>\<open>argv[0]\<close> as a list.\<close>

fun echo_args :: "(u8 list \<Rightarrow> 'o \<Rightarrow> 'o) \<Rightarrow> cptr list \<Rightarrow> 'o \<Rightarrow> (unit, 'o) res" where
  "echo_args wr [] out = Ok () out"
| "echo_args wr (a # as) out =
     kbind (if as \<noteq> [] then u_printf wr ''%s '' [UStr (Some a)] out else u_printf wr ''%s'' [UStr (Some a)] out) (\<lambda>_ out.
       echo_args wr as out)"

definition echo_main :: "(u8 list \<Rightarrow> 'o \<Rightarrow> 'o) \<Rightarrow> cptr list \<Rightarrow> 'o \<Rightarrow> (int, 'o) res" where
  "echo_main wr as out = kbind (echo_args wr as out) (\<lambda>_ out. kbind (u_printf wr [CHR 0x0A] [] out) (\<lambda>_ out. Ok 0 out))"

section \<open>The user library and the kernel's\<close>

lemma u_strcmp_cstr: "is_cstr a as \<Longrightarrow> is_cstr b bs \<Longrightarrow> u_strcmp a b = strcmp a b"
proof -
  have "is_cstr a (p @ as) \<Longrightarrow> is_cstr b (p @ bs) \<Longrightarrow> u_strcmp_from a b (length p) = strcmp_from a b (length p)" for p as bs
  proof (induction as arbitrary: p bs)
    case Nil
    then have "a (length p) = 0" by (simp add: is_cstr_def)
    then show ?case by (simp add: u_strcmp_from.simps [of a b "length p"] strcmp_from.simps [of a b "length p"])
  next
    case (Cons x as)
    have ax: "a (length p) = x" "x \<noteq> 0"
      using Cons.prems(1) by (auto simp: is_cstr_def nth_append dest: spec [of _ "length p"])
    show ?case
    proof (cases "a (length p) = b (length p)")
      case True
      then obtain ys where "bs = x # ys"
        using Cons.prems(2) ax by (cases bs) (auto simp: is_cstr_def nth_append dest: spec [of _ "length p"])
      then have "u_strcmp_from a b (Suc (length p)) = strcmp_from a b (Suc (length p))"
        using Cons.IH [of "p @ [x]" ys] Cons.prems by simp
      then show ?thesis by (simp add: u_strcmp_from.simps [of a b "length p"] strcmp_from.simps [of a b "length p"])
    qed (simp add: u_strcmp_from.simps [of a b "length p"] strcmp_from.simps [of a b "length p"])
  qed
  from this [of "[]"] show "is_cstr a as \<Longrightarrow> is_cstr b bs \<Longrightarrow> u_strcmp a b = strcmp a b" by (simp add: u_strcmp_def strcmp_def)
qed

lemma u_strlen_cstr: "is_cstr a as \<Longrightarrow> u_strlen a = strlen a"
proof -
  have "is_cstr a (p @ as) \<Longrightarrow> u_strlen_from a (length p) c = strlen_from a (length p) c" for p as c
  proof (induction as arbitrary: p c)
    case Nil
    then have "a (length p) = 0" by (simp add: is_cstr_def)
    then show ?case by (simp add: u_strlen_from.simps [of a "length p"] strlen_from.simps [of a "length p"])
  next
    case (Cons x as)
    then have "u_strlen_from a (Suc (length p)) (c + 1) = strlen_from a (Suc (length p)) (c + 1)"
      using Cons.IH [of "p @ [x]"] by simp
    then show ?case by (simp add: u_strlen_from.simps [of a "length p"] strlen_from.simps [of a "length p"])
  qed
  from this [of "[]"] show "is_cstr a as \<Longrightarrow> u_strlen a = strlen a" by (simp add: u_strlen_def strlen_def)
qed

lemma u_loops: "u_forwards n d s m = move_up n d s m" "u_backwards n d s m = move_down n d s m"
  "u_memset_loop n d v m = memset_loop n d v m"
  by (induction n arbitrary: d s m) simp_all

lemma u_memmove_copy:
  assumes "unat dst + unat n \<le> 4294967296" "unat src + unat n \<le> 4294967296"
  shows "u_memmove dst src n s = Ok dst (s\<lparr>mem := copy_block dst src (unat n) (mem s)\<rparr>)"
proof (cases "dst < src")
  case True
  then have "unat (src - dst) = unat src - unat dst" by (simp add: unat_sub less_imp_le)
  then have "unat (src - dst) + unat n \<le> 4294967296" using assms(2) by linarith
  then show ?thesis using True by (simp add: u_memmove_def u_loops move_up_copy)
next
  case False
  then have "unat (dst - src) = unat dst - unat src" by (simp add: unat_sub)
  then have "unat (dst - src) + unat n \<le> 4294967296" using assms(1) by linarith
  from move_down_copy [OF this, of "mem s"] show ?thesis using False by (simp add: u_memmove_def u_loops)
qed

text \<open>
  C38 (equivalence). The user library agrees with the kernel's routines, although its \<open>memmove\<close>
  chooses the direction by another test and its \<open>memset\<close> counts unsigned: on blocks that do not
  wrap around \<open>memmove\<close> and \<open>memcpy\<close> return and leave the same state, \<open>memset\<close> does for every length up to
  \<open>INT_MAX\<close>, and \<open>strlen\<close> and \<open>strcmp\<close> return the same numbers on C strings.
\<close>

theorem user_library_equivalent:
  assumes "unat dst + unat n \<le> 2 ^ 32" "unat src + unat n \<le> 2 ^ 32" "len \<le> 0x7FFFFFFF"
    and "is_cstr a as" "is_cstr b bs"
  shows "u_memmove dst src n s = memmove dst src n s \<and> u_memcpy dst src n s = memcpy dst src n s
    \<and> u_memset p v len s = memset p v len s \<and> u_strlen a = strlen a \<and> u_strcmp a b = strcmp a b"
proof (intro conjI)
  have nw: "unat dst + unat n \<le> 4294967296" "unat src + unat n \<le> 4294967296" using assms(1,2) by simp_all
  show "u_memmove dst src n s = memmove dst src n s" by (simp add: u_memmove_copy [OF nw] memmove_copy [OF nw])
  then show "u_memcpy dst src n s = memcpy dst src n s" by (simp add: u_memcpy_def memcpy_def)
  show "u_memset p v len s = memset p v len s" using assms(3) by (simp add: u_memset_def memset_def u_loops)
  show "u_strlen a = strlen a" using u_strlen_cstr [OF assms(4)] .
  show "u_strcmp a b = strcmp a b" using u_strcmp_cstr [OF assms(4,5)] .
qed

section \<open>The buffer of printint\<close>

lemma u_digit_loop:
  assumes "2 \<le> unat base" "length buf + length (ndigits (unat base) (unat u)) \<le> 12"
  shows "kloop (u_digit base) (buf, u) out = Ok (buf @ map digits (ndigits (unat base) (unat u))) out"
  using assms(2)
proof (induction "unat u" arbitrary: u buf rule: less_induct)
  case less
  let ?c = "digits (unat (u mod base))"
  have q: "unat (u div base) = unat u div unat base" "unat (u mod base) = unat u mod unat base"
    by (simp_all add: unat_div_distrib unat_mod_distrib)
  have room: "length buf < 12" using less.prems by (subst (asm) ndigits.simps) simp
  show ?case
  proof (cases "u div base = 0")
    case True
    then have "unat u div unat base = 0" using q(1) by simp
    then have nd: "ndigits (unat base) (unat u) = [unat u mod unat base]" by (subst ndigits.simps) simp
    have "u_digit base (buf, u) out = Ok (Inr (buf @ [?c])) out"
      using True room by (simp add: u_digit_def u_store_def digits_def)
    from kloop_exit [where body = "u_digit base", OF this] show ?thesis unfolding nd q(2) by simp
  next
    case False
    then have nz: "unat u div unat base \<noteq> 0" using q(1) by (metis unat_eq_zero)
    then have lt: "unat (u div base) < unat u" using assms(1) unfolding q(1) by (intro div_less_dividend) (auto intro: gr0I)
    have nd: "ndigits (unat base) (unat u) = unat u mod unat base # ndigits (unat base) (unat (u div base))"
      using nz assms(1) q(1) by (subst ndigits.simps) simp
    have "u_digit base (buf, u) out = Ok (Inl (buf @ [?c], u div base)) out"
      using False room by (simp add: u_digit_def u_store_def digits_def)
    moreover have "kloop (u_digit base) (buf @ [?c], u div base) out
        = Ok ((buf @ [?c]) @ map digits (ndigits (unat base) (unat (u div base)))) out"
      using less.prems nd by (intro less.hyps [OF lt]) simp
    ultimately have "kloop (u_digit base) (buf, u) out = Ok ((buf @ [?c]) @ map digits (ndigits (unat base) (unat (u div base)))) out"
      by (rule kloop_step)
    then show ?thesis unfolding nd q(2) by simp
  qed
qed

text \<open>
  C39 (bounds). \<open>printint\<close> of the user library, called as \<^verbatim>\<open>printf\<close> calls it, ends, keeps within its
  12-byte buffer at every 32-bit value, \<open>INT_MIN\<close> included, and writes one byte at a time the numeral
  of the number: in decimal with its sign, in hexadecimal as an unsigned number.
\<close>

theorem user_printint_in_bounds:
  assumes "base = 10 \<or> base = 16 \<and> \<not> sign"
  shows "u_printint wr x base sign out = Ok () (fold (\<lambda>c. wr [c])
    (if sign then sint_text 10 (sint x) else uint_text (unat base) (unat x)) out)"
proof -
  have b: "2 \<le> unat base" "10 \<le> unat base" using assms by auto
  have len: "length (ndigits (unat base) k) \<le> 10" if "k < 2 ^ 32" for k
  proof -
    have "k < unat base ^ 10" using that power_mono [OF b(2), of 10] by simp
    then show ?thesis using ndigits_length [OF b(1), of k 10] by simp
  qed
  have loop: "kloop (u_digit base) ([], u) out = Ok (map digits (ndigits (unat base) (unat u))) out" for u
    using u_digit_loop [OF b(1), of "[]" u] len [of "unat u"] unat_u32_lt [of u] by simp
  have putc: "u_putc wr = (\<lambda>c. wr [c])" by (simp add: u_putc_def fun_eq_iff)
  show ?thesis
  proof (cases "sign \<and> sint x < 0")
    case True
    then have "unat (- x) = nat \<bar>sint x\<bar>" "base = 10" using unat_negated assms by auto
    then show ?thesis
      using True loop [of "- x"] len [of "unat (- x)"] unat_u32_lt [of "- x"]
      by (simp add: u_printint_def u_store_def putc sint_text_def uint_text_def)
  next
    case False
    have "nat (sint x) = unat x \<and> \<bar>sint x\<bar> = sint x" if sign using False that unat_nonneg_sint [of x] by simp
    then show ?thesis
      using False loop [of x] assms by (auto simp: u_printint_def putc sint_text_def uint_text_def)
  qed
qed

lemma int_min_text: "sint_text 10 (- 2147483648) = map of_char ''-2147483648''"
  by (simp add: sint_text_def uint_text_def digits_def lit_def ndigits.simps)

lemma hex_text: "uint_text 16 0xFFFFFFFF = map of_char ''ffffffff''"
  by (simp add: uint_text_def digits_def lit_def ndigits.simps)

theorem user_printint_in_bounds_witness:
  "u_printint (\<lambda>bs out. out @ bs) 0x80000000 10 True [] = Ok () (map of_char ''-2147483648'')
   \<and> u_printint (\<lambda>bs out. out @ bs) 0xFFFFFFFF 16 False [] = Ok () (map of_char ''ffffffff'')"
proof -
  have "sint (0x80000000 :: u32) = - 2147483648" by simp
  then show ?thesis
    using user_printint_in_bounds [of 10 True "\<lambda>bs out. out @ bs" "0x80000000" "[]"]
      user_printint_in_bounds [of 16 False "\<lambda>bs out. out @ bs" "0xFFFFFFFF" "[]"]
    by (simp add: int_min_text hex_text)
qed

theorem user_library_equivalent_witness:
  "u_memmove 0x1002 0x1000 6 (idle_console\<lparr>mem := (\<lambda>a. ucast a)\<rparr>) = memmove 0x1002 0x1000 6 (idle_console\<lparr>mem := (\<lambda>a. ucast a)\<rparr>)
   \<and> u_strcmp (lit ''echo'') (lit ''init'') = strcmp (lit ''echo'') (lit ''init'')"
proof -
  have "is_cstr (lit ''echo'') (map of_char ''echo'')" "is_cstr (lit ''init'') (map of_char ''init'')"
    by (rule is_cstr_lit; simp)+
  then show ?thesis
    using user_library_equivalent [of "0x1002" 6 "0x1000" 0 "lit ''echo''" "map of_char ''echo''" "lit ''init''" "map of_char ''init''"
      "idle_console\<lparr>mem := (\<lambda>a. ucast a)\<rparr>"] by simp
qed

end
