(* ===== verification/User_Programs.thy ===== *)
theory User_Programs
  imports User_Lib Syscall
begin

text \<open>
  The user programs beside \<open>echo\<close>: the system call stubs (\<^verbatim>\<open>user/usys.S\<close>), \<^verbatim>\<open>user/hello.S\<close> instruction by
  instruction, and \<^verbatim>\<open>user/init.c\<close>. What an \<^verbatim>\<open>ecall\<close> does to the registers and memory of the program is the
  argument \<open>ecall\<close>; in \<open>init\<close> each system call is an argument, a function of whatever state it works on.
  A call of \<open>fork\<close> returns here as it does in one process: which one is decided by the argument.
\<close>

section \<open>Stubs\<close>

text \<open>The result is the address the stub returns to and the state there.\<close>

definition usys_stub :: "('a machine_scheme \<Rightarrow> 'a machine_scheme) \<Rightarrow> int \<Rightarrow> 'a machine_scheme \<Rightarrow> u32 \<times> 'a machine_scheme" where
  "usys_stub ecall num s = (let s = ecall (gprw 17 (of_int num) s) in (gprr 1 s, s))"

definition usys_stubs :: "(string \<times> int) list" where
  "usys_stubs = [(''exit'', SYS_EXIT), (''fork'', SYS_FORK), (''wait'', SYS_WAIT), (''exec'', SYS_EXEC), (''read'', SYS_READ),
     (''write'', SYS_WRITE), (''getpid'', SYS_GETPID), (''sleep'', SYS_SLEEP), (''kill'', SYS_KILL)]"

section \<open>The program hello\<close>

text \<open>Registers: \<^verbatim>\<open>t0\<close> is 5, \<^verbatim>\<open>t1\<close> 6, \<^verbatim>\<open>t2\<close> 7, \<^verbatim>\<open>s0\<close> 8, \<^verbatim>\<open>s1\<close> 9, \<^verbatim>\<open>a0\<close> 10, \<^verbatim>\<open>a1\<close> 11, \<^verbatim>\<open>a2\<close> 12, \<^verbatim>\<open>a7\<close> 17.\<close>

definition hello_write :: "('a machine_scheme \<Rightarrow> 'a machine_scheme) \<Rightarrow> u32 \<Rightarrow> u32 \<Rightarrow> 'a machine_scheme \<Rightarrow> 'a machine_scheme" where
  "hello_write ecall a1 a2 s = ecall (gprw 17 7 (gprw 12 a2 (gprw 11 a1 (gprw 10 1 s))))"

definition hello_measure :: "unit \<Rightarrow> 'a machine_scheme \<Rightarrow> (unit + unit, 'a machine_scheme) res" where
  "hello_measure = (\<lambda>_ s.
     let s = gprw 7 (ucast (mem s (gprr 6 s))) s
     in if gprr 7 s = 0 then Ok (Inr ()) s else Ok (Inl ()) (gprw 6 (gprr 6 s + 1) s))"

definition hello_arg :: "('a machine_scheme \<Rightarrow> 'a machine_scheme) \<Rightarrow> u32 \<Rightarrow> unit \<Rightarrow> 'a machine_scheme \<Rightarrow> (unit + unit, 'a machine_scheme) res" where
  "hello_arg ecall newline = (\<lambda>_ s.
     if gprr 8 s = 0 then Ok (Inr ()) s
     else let s = lw 5 0 9 s;
              s = gprw 6 (gprr 5 s) s
       in kbind (kloop hello_measure () s) (\<lambda>_ s.
            let s = hello_write ecall (gprr 5 s) (gprr 6 s - gprr 5 s) s;
                s = hello_write ecall newline 1 s;
                s = gprw 9 (gprr 9 s + 4) s
            in Ok (Inl ()) (gprw 8 (gprr 8 s - 1) s)))"

text \<open>\<open>msg\<close> and \<open>newline\<close> are the addresses of its strings; the last \<^verbatim>\<open>ecall\<close> is \<^verbatim>\<open>exit\<close>.\<close>

definition hello_start :: "('a machine_scheme \<Rightarrow> 'a machine_scheme) \<Rightarrow> u32 \<Rightarrow> u32 \<Rightarrow> 'a machine_scheme \<Rightarrow> (unit, 'a machine_scheme) res" where
  "hello_start ecall msg newline s =
     (let s = gprw 8 (gprr 10 s) s;
          s = gprw 9 (gprr 11 s) s;
          s = hello_write ecall msg 16 s
      in kbind (kloop (hello_arg ecall newline) () s) (\<lambda>_ s. Ok () (ecall (gprw 17 1 (gprw 10 7 s)))))"

section \<open>The first program\<close>

record 's usys =
  us_fork :: "'s \<Rightarrow> (int, 's) res"
  us_exec :: "string \<Rightarrow> string list \<Rightarrow> 's \<Rightarrow> (int, 's) res"
  us_wait :: "u32 option \<Rightarrow> 's \<Rightarrow> (int \<times> u32 option, 's) res"
  us_exit :: "int \<Rightarrow> 's \<Rightarrow> (unit, 's) res"
  us_getpid :: "'s \<Rightarrow> (int, 's) res"
  us_sleep :: "int \<Rightarrow> 's \<Rightarrow> (int, 's) res"
  us_write :: "u8 list \<Rightarrow> 's \<Rightarrow> 's"

text \<open>Where every C program starts (\<^verbatim>\<open>user/ulib.c\<close>).\<close>

definition u_start :: "'s usys \<Rightarrow> (string list \<Rightarrow> 's \<Rightarrow> (int, 's) res) \<Rightarrow> string list \<Rightarrow> 's \<Rightarrow> (unit, 's) res" where
  "u_start U prog argv s = kbind (prog argv s) (\<lambda>r s. us_exit U r s)"

text \<open>
  \<open>us_wait\<close> takes the value of the variable its argument points to, \<open>None\<close> for a null pointer, and gives the
  new one back. The loop of \<open>run\<close> ends with the exit status, or with \<open>None\<close> where \<open>run\<close> returns -1.
\<close>

definition run_wait :: "'s usys \<Rightarrow> int \<Rightarrow> u32 \<Rightarrow> 's \<Rightarrow> (u32 + u32 option, 's) res" where
  "run_wait U pid status s =
     kbind (us_wait U (Some status) s) (\<lambda>(w, st) s.
       let status = (case st of None \<Rightarrow> status | Some v \<Rightarrow> v)
       in if w = pid then Ok (Inr (Some status)) s
          else if w < 0 then Ok (Inr None) s
          else Ok (Inl status) s)"

text \<open>\<open>status\<close> is what the uninitialised variable holds.\<close>

definition run_report :: "'s usys \<Rightarrow> string list \<Rightarrow> int \<Rightarrow> u32 \<Rightarrow> 's \<Rightarrow> (int, 's) res" where
  "run_report U argv pid status s =
     kbind (u_printf (us_write U) (''init: %s (pid %d) exited with status %d'' @ [CHR 0x0A])
        [UStr (Some (lit (argv ! 0))), UInt (of_int pid), UInt status] s) (\<lambda>_ s. Ok (sint status) s)"

definition run :: "'s usys \<Rightarrow> string list \<Rightarrow> u32 \<Rightarrow> 's \<Rightarrow> (int, 's) res" where
  "run U argv status s =
     kbind (us_fork U s) (\<lambda>pid s.
       if pid < 0 then kbind (u_printf (us_write U) (''init: fork failed'' @ [CHR 0x0A]) [] s) (\<lambda>_ s. Ok (-1) s)
       else if pid = 0
       then kbind (us_exec U (argv ! 0) argv s) (\<lambda>r s.
         kbind (if r < 0
                then kbind (u_printf (us_write U) (''init: exec %s failed'' @ [CHR 0x0A]) [UStr (Some (lit (argv ! 0)))] s) (\<lambda>_ s.
                  us_exit U 1 s)
                else Ok () s) (\<lambda>_ s. run_report U argv pid status s))
       else kbind (kloop (run_wait U pid) status s) (\<lambda>w s.
         case w of None \<Rightarrow> Ok (-1) s | Some status \<Rightarrow> run_report U argv pid status s))"

text \<open>One turn of the endless loop of \<^verbatim>\<open>main\<close>, and \<^verbatim>\<open>main\<close>.\<close>

definition init_turn :: "'s usys \<Rightarrow> unit \<Rightarrow> 's \<Rightarrow> (unit + unit, 's) res" where
  "init_turn U = (\<lambda>_ s.
     kbind (us_wait U None s) (\<lambda>(w, _) s.
       if w < 0 then kbind (us_sleep U 100 s) (\<lambda>_ s. Ok (Inl ()) s) else Ok (Inl ()) s))"

definition init_main :: "'s usys \<Rightarrow> u32 \<Rightarrow> 's \<Rightarrow> (unit, 's) res" where
  "init_main U status s =
     kbind (us_getpid U s) (\<lambda>pid s.
     kbind (u_printf (us_write U) (''init: starting (pid %d)'' @ [CHR 0x0A]) [UInt (of_int pid)] s) (\<lambda>_ s.
     kbind (run U [''echo'', ''hello'', ''from'', ''init''] status s) (\<lambda>_ s.
     kbind (run U [''hello'', ''a'', ''b''] status s) (\<lambda>_ s.
     kbind (run U [''nope''] status s) (\<lambda>_ s. kloop (init_turn U) () s)))))"

end
