(* ===== verification/Spec2Isabelle.thy ===== *)
theory Spec2Isabelle
  imports Lock_Protocol Trap User_Programs
begin

text \<open>
  Verification of wl-00_RV32, a small multi-hart kernel for 32-bit RISC-V in the style of xv6, with its user
  library and programs. File names below are relative to \<^verbatim>\<open>src/\<close>.

  \<^bold>\<open>The program.\<close> Every hart starts in \<^verbatim>\<open>kernel/boot_asm.S\<close> and \<^verbatim>\<open>boot.c\<close> in machine mode and goes on in \<^verbatim>\<open>main.c\<close>, where
  hart 0 sets up the page allocator (\<^verbatim>\<open>mem.c\<close>), the kernel's page table (\<^verbatim>\<open>vm.c\<close>), the clock and trap
  vector (\<^verbatim>\<open>trap.c\<close>) and the first process (\<^verbatim>\<open>proc.c\<close>, \<^verbatim>\<open>exec.c\<close>). The harts then run ready processes. A trap from a
  user program enters through \<^verbatim>\<open>usertrap.S\<close>, is handled in \<^verbatim>\<open>trap.c\<close> and \<^verbatim>\<open>syscall.c\<close>, and goes back through \<^verbatim>\<open>usertrapret.S\<close>;
  processes give up the hart through \<^verbatim>\<open>swtch.S\<close>. Shared state is guarded by the spinlocks of \<^verbatim>\<open>spinlock.c\<close>;
  messages go out through \<^verbatim>\<open>kprint.c\<close> and \<^verbatim>\<open>uart.c\<close>. User programs (\<^verbatim>\<open>user/\<close>) are linked with \<^verbatim>\<open>ulib.c\<close> and \<^verbatim>\<open>printf.c\<close>.

  \<^bold>\<open>State and outcomes.\<close> A C function is a function of the state with a value of the type \<open>('a, 's) res\<close>:
  \<open>Ok\<close> a result and the state after, \<open>Panic\<close> with the message where the code panics, \<open>Blocked\<close> where it would spin or
  wait for ever, \<open>Undef\<close> where C leaves the behaviour undefined (a null \<open>struct proc\<close>, an index out of
  range). \<open>kbind\<close> composes them. Loops are \<open>kloop\<close>, a \<open>partial_function\<close>: there is no fuel, a loop that does not
  end has no \<open>Ok\<close> outcome, and every theorem with an \<open>Ok\<close> outcome states that the code returns. The state is one
  record that grows with the theories: \<open>machine\<close> (registers, CSRs, byte-addressed memory, counter),
  \<open>console\<close> (UART and message log), \<open>lockst\<close> (locks and per-hart data), \<open>memst\<close> (page bitmap), \<open>vmst\<close>
  (kernel page table), \<open>procst\<close> (process table, next pid, ticks). Integers keep their width: addresses and
  \<^verbatim>\<open>uint32_t\<close> are 32-bit words that wrap. Page tables, trapframes, stacks, images and buffers are bytes of memory.

  \<^bold>\<open>Theories.\<close>
  \<^item> \<open>Prelude\<close>: outcomes, \<open>kbind\<close>, \<open>kloop\<close> with its rules, words and blocks of addresses.
  \<^item> \<open>Machine\<close> (\<^verbatim>\<open>csr.c\<close>, \<^verbatim>\<open>gpr.c\<close>, \<^verbatim>\<open>rv.c\<close>): every accessor. The 64-bit counter read in halves is a value the
    counter had and the retry loop ends; a deadline written in halves never fires early.
  \<^item> \<open>Console\<close> (\<^verbatim>\<open>uart.c\<close>, \<^verbatim>\<open>kprint.c\<close>): numbers print and read back at every value, \<open>strcmp\<close> is the lexicographic order.
  \<^item> \<open>Spinlock\<close> (\<^verbatim>\<open>spinlock.c\<close>): outcomes of \<open>lock\<close> and \<open>unlock\<close>, nested critical sections, \<open>printf\<close>.
  \<^item> \<open>Lock_Protocol\<close>: the same lock as micro-steps of any number of harts, an inductive step relation: mutual
    exclusion, exact ownership, on fair infinite runs that the lock is handed on while a hart waits, and agreement with the sequential functions.
  \<^item> \<open>Memory\<close>, \<open>Allocator\<close> (\<^verbatim>\<open>mem.c\<close>): \<open>memset\<close>, \<open>memmove\<close>, the bitmap allocator.
  \<^item> \<open>Paging\<close>, \<open>Kernel_Map\<close>, \<open>User_Copy\<close>, \<open>Uvm\<close>, \<open>Address_Space\<close> (\<^verbatim>\<open>vm.c\<close>): the Sv32 tables as the hardware walks them, mapping,
    the kernel's table, copying between user and kernel, growing, freeing and copying address spaces. Locales state
    what the copy loops share; they are interpreted on the code's loops.
  \<^item> \<open>Process\<close>, \<open>Context_Switch\<close>, \<open>Lifecycle\<close> (\<^verbatim>\<open>proc.c\<close>, \<^verbatim>\<open>swtch.S\<close>, \<^verbatim>\<open>usertrap.S\<close>, \<^verbatim>\<open>usertrapret.S\<close>, \<^verbatim>\<open>kerneltrap.S\<close>): the process table and
    its invariant (slots own disjoint pages that are not free), slot allocation, register frames,
    \<open>fork\<close>, \<open>sleep\<close>, \<open>wakeup\<close>, \<open>sched\<close>, \<open>scheduler\<close>, \<open>wait\<close>, \<open>kexit\<close>.
  \<^item> \<open>Exec\<close> (\<^verbatim>\<open>exec.c\<close>, \<^verbatim>\<open>elf.h\<close>): the ELF loader on arbitrary images against a reference for where an image ends and what
    the program sees, \<open>kexec\<close>, the first process.
  \<^item> \<open>Syscall\<close>, \<open>Trap\<close> (\<^verbatim>\<open>syscall.c\<close>, \<^verbatim>\<open>trap.c\<close>, \<^verbatim>\<open>boot_asm.S\<close>, \<^verbatim>\<open>boot.c\<close>, \<^verbatim>\<open>main.c\<close>): all system calls and the dispatcher, the clock, both trap
    handlers, the return to user mode, start-up.
  \<^item> \<open>User_Lib\<close>, \<open>User_Programs\<close> (\<^verbatim>\<open>user/\<close>): the library against the kernel's routines, and the programs.

  \<^bold>\<open>Parameters.\<close> What the linker, the compiler and the build choose are arguments: symbols, addresses of locals
  that have their address taken (record \<open>layout\<close>), and place and length of the images, which come from the generated
  \<^verbatim>\<open>initcode.h\<close>. What other processes and harts do while a process is switched out is the argument \<open>others\<close>, an
  arbitrary change of state; the device is an arbitrary sequence of register values, the counter an arbitrary sequence
  of readings. The loop of \<open>lock\<close> in the sequential model has no other hart to wait for: it ends at the first swap or
  never, which is \<open>Blocked\<close>; what harts see that run interleaved is the subject of \<open>Lock_Protocol\<close>.

  \<^bold>\<open>Bounds.\<close> The only bounds are the program's own: 32 processes, 4 harts, 128 MB, 16 arguments,
  the buffers of \<open>printint\<close> and \<open>sys_write\<close>. Theorems that promise success name the number of free pages that
  is enough, counting a page table of at most 1025 pages.

  \<^bold>\<open>Not modelled.\<close> Memory is sequentially consistent and translation is always by the current table: the fences
  (\<^verbatim>\<open>sfence.vma\<close>, \<^verbatim>\<open>__sync_synchronize\<close>) have no effect to model. Privilege is not a part of the state;
  what decides it (\<^verbatim>\<open>SPP\<close>, user bits) is. Interrupts arrive only where a handler is called. The linker scripts
  \<^verbatim>\<open>kernel.ld\<close> and \<^verbatim>\<open>user.ld\<close> and the Makefile are inputs of other tools.
\<close>

end
